(* ===== verification/Prelude.thy ===== *)
theory Prelude
  imports Main "HOL-Library.Word" "HOL-Library.Monad_Syntax"
begin

text \<open>
  The vocabulary every component of the development shares: bytes and byte buffers, reading
  and overwriting a window of a buffer, little- and big-endian integers inside a buffer, and
  the checks of the source (\<open>assert!\<close>, \<open>debug_assert!\<close>, slice bounds) as steps of the option
  monad in which \<^const>\<open>None\<close> stands for a panic. Native-endian accesses of the source
  (\<open>to_ne_bytes\<close>, \<open>repr(C)\<close> fields) are read as little-endian, the order of every target the
  repository builds for.

  The collections \<open>window_simps\<close> and \<open>codec_simps\<close> carry the proofs of the page and log
  theories: the first resolves a read of one window of a buffer after a write to another, the
  second reads back an encoded integer.
\<close>

unbundle bit_operations_syntax

named_theorems window_simps "reads of a byte window after writes to a byte window"
named_theorems codec_simps "decoding of an encoded integer"

section \<open>Types\<close>

type_synonym byte = "8 word"
type_synonym bytes = "byte list"
type_synonym u32 = "32 word"
type_synonym u64 = "64 word"

section \<open>Panics\<close>

definition ensure :: "bool \<Rightarrow> unit option" where
  "ensure b = (if b then Some () else None)"

lemma ensure_simps [simp]:
  "ensure True = Some ()"
  "ensure False = None"
  by (simp_all add: ensure_def)

lemma ensure_eq_Some [simp]: "ensure b = Some u \<longleftrightarrow> b"
  by (simp add: ensure_def)

lemma ensure_eq_None [simp]: "ensure b = None \<longleftrightarrow> \<not> b"
  by (simp add: ensure_def)

lemma ensure_bind_eq_Some [simp]: "(ensure b \<bind> f) = Some y \<longleftrightarrow> b \<and> f () = Some y"
  by (cases b) simp_all

lemma bind_assoc_option: "((m :: 'a option) \<bind> f) \<bind> g = m \<bind> (\<lambda>x. f x \<bind> g)"
  by (cases m) simp_all

text \<open>\<open>checked_add\<close> on \<open>usize\<close> and \<open>u64\<close>.\<close>

definition checked_add :: "nat \<Rightarrow> nat \<Rightarrow> nat option" where
  "checked_add a b = (if a + b < 2 ^ 64 then Some (a + b) else None)"

lemma checked_add_simps [simp]:
  "a + b < 2 ^ 64 \<Longrightarrow> checked_add a b = Some (a + b)"
  "checked_add a b = Some c \<longleftrightarrow> a + b < 2 ^ 64 \<and> c = a + b"
  by (auto simp: checked_add_def)

section \<open>Windows of a byte buffer\<close>

text \<open>\<open>read_at off n p\<close> is the slice \<open>p[off .. off + n]\<close>, \<open>write_at off bs p\<close> is \<open>p\<close> after
  \<open>p[off .. off + bs.len()].copy_from_slice(bs)\<close>. Both are used where the bounds are known to
  hold; an operation whose bounds may fail checks them first.\<close>

definition read_at :: "nat \<Rightarrow> nat \<Rightarrow> 'a list \<Rightarrow> 'a list" where
  "read_at off n p = take n (drop off p)"

definition write_at :: "nat \<Rightarrow> 'a list \<Rightarrow> 'a list \<Rightarrow> 'a list" where
  "write_at off bs p = take off p @ bs @ drop (off + length bs) p"

lemma length_read_at [simp]: "length (read_at off n p) = min n (length p - off)"
  by (simp add: read_at_def min.commute)

lemma length_write_at [simp]:
  "off + length bs \<le> length p \<Longrightarrow> length (write_at off bs p) = length p"
  by (simp add: write_at_def)

lemma read_at_0 [simp]: "read_at off 0 p = []"
  by (simp add: read_at_def)

lemma write_at_Nil [simp]: "write_at off [] p = p"
  by (simp add: write_at_def)

lemma nth_read_at [simp]:
  "off + n \<le> length p \<Longrightarrow> i < n \<Longrightarrow> read_at off n p ! i = p ! (off + i)"
  by (simp add: read_at_def)

lemma nth_write_at:
  assumes "off + length bs \<le> length p"
  shows "write_at off bs p ! i =
    (if off \<le> i \<and> i < off + length bs then bs ! (i - off) else p ! i)"
proof (cases "i < off + length bs")
  case True
  then show ?thesis using assms by (auto simp: write_at_def nth_append min_def)
next
  case False
  have "(take off p @ bs) @ drop (off + length bs) p = write_at off bs p"
    by (simp add: write_at_def)
  moreover have "length (take off p @ bs) = off + length bs"
    using assms by simp
  ultimately have "write_at off bs p ! i = drop (off + length bs) p ! (i - (off + length bs))"
    using False by (metis nth_append)
  then show ?thesis
    using False assms by (simp add: nth_drop)
qed

lemma read_at_ext:
  assumes "off + n \<le> length p" "length q = length p"
    and "\<And>i. off \<le> i \<Longrightarrow> i < off + n \<Longrightarrow> q ! i = p ! i"
  shows "read_at off n q = read_at off n p"
  by (rule nth_equalityI) (use assms in auto)

lemma read_write_same [window_simps]:
  "off + length bs \<le> length p \<Longrightarrow> read_at off (length bs) (write_at off bs p) = bs"
  by (rule nth_equalityI) (auto simp: nth_write_at)

lemma read_write_same_n [window_simps]:
  "length bs = n \<Longrightarrow> off + n \<le> length p \<Longrightarrow> read_at off n (write_at off bs p) = bs"
  using read_write_same by blast

lemma read_write_disjoint [window_simps]:
  assumes "off + length bs \<le> length p" "off' + n \<le> off \<or> off + length bs \<le> off'"
  shows "read_at off' n (write_at off bs p) = read_at off' n p"
proof (rule nth_equalityI)
  show "length (read_at off' n (write_at off bs p)) = length (read_at off' n p)"
    using assms(1) by simp
next
  fix i assume "i < length (read_at off' n (write_at off bs p))"
  then have i: "i < n" "off' + i < length p" using assms(1) by auto
  then have "read_at off' n (write_at off bs p) ! i = write_at off bs p ! (off' + i)"
    using assms(1) by (simp add: read_at_def)
  also have "\<dots> = p ! (off' + i)"
    using assms i by (auto simp: nth_write_at)
  also have "\<dots> = read_at off' n p ! i"
    using i by (simp add: read_at_def)
  finally show "read_at off' n (write_at off bs p) ! i = read_at off' n p ! i" .
qed

lemma write_at_read_at [simp]:
  "off + n \<le> length p \<Longrightarrow> write_at off (read_at off n p) p = p"
  by (rule nth_equalityI) (auto simp: nth_write_at)

lemma read_at_read_at: "i + n \<le> m \<Longrightarrow> read_at i n (read_at off m p) = read_at (off + i) n p"
  by (simp add: read_at_def take_drop min_def add.commute)

lemma read_at_write_inside [window_simps]:
  assumes "off + length bs \<le> length p" "off \<le> off'" "off' + n \<le> off + length bs"
  shows "read_at off' n (write_at off bs p) = read_at (off' - off) n bs"
  by (rule nth_equalityI) (use assms in \<open>auto simp: nth_write_at\<close>)

lemma read_at_append_left:
  "off + n \<le> length a \<Longrightarrow> read_at off n (a @ b) = read_at off n a"
  by (simp add: read_at_def)

lemma read_at_append_right: "length a \<le> off \<Longrightarrow> read_at off n (a @ b) = read_at (off - length a) n b"
  by (simp add: read_at_def)

lemma read_at_replicate: "read_at off n (replicate k x) = replicate (min n (k - off)) x"
  by (simp add: read_at_def min.commute)

section \<open>Lists\<close>

lemma sum_list_take_drop:
  "sum_list (map f (take i xs)) + sum_list (map f (drop i xs)) = sum_list (map f xs :: nat list)"
  by (simp flip: sum_list_append map_append)

section \<open>Integers in a buffer\<close>

text \<open>\<open>le_bytes n v\<close> is \<open>(v as uN).to_le_bytes()\<close> for \<open>N = 8 * n\<close>: the cast keeps \<open>v\<close> modulo
  \<open>256 ^ n\<close>. \<open>le_val\<close> is \<open>from_le_bytes\<close>, \<open>be_val\<close> is \<open>from_be_bytes\<close>.\<close>

primrec le_bytes :: "nat \<Rightarrow> nat \<Rightarrow> bytes" where
  "le_bytes 0 v = []"
| "le_bytes (Suc n) v = word_of_nat v # le_bytes n (v div 256)"

primrec le_val :: "bytes \<Rightarrow> nat" where
  "le_val [] = 0"
| "le_val (b # bs) = unat b + 256 * le_val bs"

definition be_val :: "bytes \<Rightarrow> nat" where
  "be_val bs = le_val (rev bs)"

lemma length_le_bytes [simp]: "length (le_bytes n v) = n"
  by (induction n arbitrary: v) simp_all

lemma unat_byte_less [simp]: "unat (b :: byte) < 256"
  using unsigned_less [of b, where 'a = nat] by simp

lemma unat_byte_of_nat: "unat (word_of_nat v :: byte) = v mod 256"
  by (simp add: unat_of_nat)

lemma le_val_le_bytes [codec_simps]: "le_val (le_bytes n v) = v mod 256 ^ n"
  by (induction n arbitrary: v) (simp_all add: unat_byte_of_nat mod_mult2_eq)

lemma le_val_le_bytes_id [codec_simps]: "v < 256 ^ n \<Longrightarrow> le_val (le_bytes n v) = v"
  by (simp add: le_val_le_bytes)

lemma le_val_less: "le_val bs < 256 ^ length bs"
proof (induction bs)
  case (Cons b bs)
  then have "le_val bs \<le> 256 ^ length bs - 1" by simp
  then have "unat b + 256 * le_val bs \<le> 255 + 256 * (256 ^ length bs - 1)"
    using unat_byte_less [of b] by linarith
  also have "\<dots> < 256 * 256 ^ length bs"
    by (simp add: algebra_simps)
  finally show ?case by simp
qed simp

lemma le_bytes_le_val [codec_simps]: "length bs = n \<Longrightarrow> le_bytes n (le_val bs) = bs"
proof (induction bs arbitrary: n)
  case (Cons b bs)
  have "unat (word_of_nat (unat b + 256 * m) :: byte) = unat b" for m
    by (simp only: unat_byte_of_nat) simp
  then have "(word_of_nat (unat b + 256 * m) :: byte) = b" for m
    using word_eq_iff_unsigned [where 'a = nat] by blast
  moreover have "(unat b + 256 * m) div 256 = m" for m
    using unat_byte_less [of b] by simp
  ultimately show ?case using Cons by (auto simp del: of_nat_add of_nat_mult)
qed simp

lemma le_val_zero [simp]: "le_val (replicate n 0) = 0"
  by (induction n) simp_all

lemma le_val_inject: "length a = length b \<Longrightarrow> le_val a = le_val b \<longleftrightarrow> a = b"
  using le_bytes_le_val by metis

lemma be_val_less: "be_val bs < 256 ^ length bs"
  using le_val_less [of "rev bs"] by (simp add: be_val_def)

lemma be_val_inject: "length a = length b \<Longrightarrow> be_val a = be_val b \<longleftrightarrow> a = b"
  by (simp add: be_val_def le_val_inject)

definition rd :: "nat \<Rightarrow> nat \<Rightarrow> bytes \<Rightarrow> nat" where
  "rd n off p = le_val (read_at off n p)"

definition wr :: "nat \<Rightarrow> nat \<Rightarrow> nat \<Rightarrow> bytes \<Rightarrow> bytes" where
  "wr n off v p = write_at off (le_bytes n v) p"

lemma length_wr [simp]: "off + n \<le> length p \<Longrightarrow> length (wr n off v p) = length p"
  by (simp add: wr_def)

lemma rd_less: "rd n off p < 256 ^ n"
proof -
  have "rd n off p < 256 ^ min n (length p - off)"
    using le_val_less [of "read_at off n p"] by (simp add: rd_def)
  also have "\<dots> \<le> 256 ^ n" by (simp add: power_increasing)
  finally show ?thesis .
qed

lemma rd_wr_same [window_simps]:
  "off + n \<le> length p \<Longrightarrow> rd n off (wr n off v p) = v mod 256 ^ n"
  by (simp add: rd_def wr_def read_write_same_n le_val_le_bytes)

lemma rd_write_disjoint [window_simps]:
  "off + length bs \<le> length p \<Longrightarrow> off' + n \<le> off \<or> off + length bs \<le> off' \<Longrightarrow>
    rd n off' (write_at off bs p) = rd n off' p"
  by (simp add: rd_def read_write_disjoint)

lemma rd_wr_disjoint [window_simps]:
  "off + m \<le> length p \<Longrightarrow> off' + n \<le> off \<or> off + m \<le> off' \<Longrightarrow>
    rd n off' (wr m off v p) = rd n off' p"
  by (simp add: wr_def rd_write_disjoint)

lemma read_wr_disjoint [window_simps]:
  "off + m \<le> length p \<Longrightarrow> off' + n \<le> off \<or> off + m \<le> off' \<Longrightarrow>
    read_at off' n (wr m off v p) = read_at off' n p"
  by (simp add: wr_def read_write_disjoint)

lemma nth_wr_outside:
  "off + m \<le> length p \<Longrightarrow> i < off \<or> off + m \<le> i \<Longrightarrow> wr m off v p ! i = p ! i"
  by (auto simp: wr_def nth_write_at)

lemma rd_replicate_zero [simp]: "rd n off (replicate k 0) = 0"
  by (simp add: rd_def read_at_replicate)

lemma rd_append_left: "off + n \<le> length a \<Longrightarrow> rd n off (a @ b) = rd n off a"
  by (simp add: rd_def read_at_append_left)

lemma rd_take: "off + n \<le> k \<Longrightarrow> rd n off (take k p) = rd n off p"
  by (simp add: rd_def read_at_def drop_take min_def)

lemma rd_take_cong: "take k q = take k p \<Longrightarrow> off + n \<le> k \<Longrightarrow> rd n off q = rd n off p"
  by (metis rd_take)

lemma take_wr: "off + n \<le> length p \<Longrightarrow> k \<le> off \<Longrightarrow> take k (wr n off v p) = take k p"
  by (simp add: wr_def write_at_def)

lemma drop_wr: "off + n \<le> length p \<Longrightarrow> off + n \<le> k \<Longrightarrow> drop k (wr n off v p) = drop k p"
  by (simp add: wr_def write_at_def)

lemma read_list_update [window_simps]:
  "i < off \<or> off + n \<le> i \<Longrightarrow> read_at off n (p[i := b]) = read_at off n p"
  by (auto simp: read_at_def drop_update_swap take_update_cancel)

lemma rd_list_update [window_simps]:
  "i < off \<or> off + n \<le> i \<Longrightarrow> rd n off (p[i := b]) = rd n off p"
  by (simp add: rd_def read_list_update)

section \<open>Input and output\<close>

text \<open>The kinds of \<open>std::io::Error\<close> the modelled operations return.\<close>

datatype io_error = InvalidData | InvalidInput | UnexpectedEof | WriteZero

section \<open>Codecs\<close>

text \<open>The contract every encoding of the source has: what was encoded decodes to itself.
  Decoding may fail on other inputs. \<open>cell_cas\<close> is \<open>compare_exchange\<close> on an atomic that stores
  encoded values: it compares and stores raw representations, and hands the raw previous value
  back, as \<open>Inr\<close> (\<open>Ok\<close>) when it swapped and as \<open>Inl\<close> (\<open>Err\<close>) when it did not.\<close>

definition cell_cas :: "'b \<Rightarrow> 'b \<Rightarrow> 'b \<Rightarrow> ('b + 'b) \<times> 'b" where
  "cell_cas current new cell = (if cell = current then (Inr cell, new) else (Inl cell, cell))"

locale codec =
  fixes enc :: "'a \<Rightarrow> 'b" and dec :: "'b \<Rightarrow> 'a option"
  assumes dec_enc: "dec (enc x) = Some x"
begin

lemma enc_inject: "enc x = enc y \<longleftrightarrow> x = y"
  using dec_enc by (metis option.inject)

lemma dec_cas:
  "map_prod (map_sum dec dec) dec (cell_cas (enc x) (enc y) (enc z)) =
    (if z = x then (Inr (Some z), Some y) else (Inl (Some z), Some z))"
  by (simp add: cell_cas_def dec_enc enc_inject)

lemma map_dec_enc: "map dec (map enc xs) = map Some xs"
  by (simp add: dec_enc)

end

section \<open>Words\<close>

lemma word_bits_eq: "(a :: 'a::len word) = b \<longleftrightarrow> (\<forall>n < LENGTH('a). bit a n = bit b n)"
  by (auto intro: bit_word_eqI)

lemma u64_of_nat_unat [simp]: "(word_of_nat (unat w) :: u64) = w"
  by simp

lemma unat_u64_less: "unat (w :: u64) < 256 ^ 8"
  using unsigned_less [of w, where 'a = nat] by simp

lemma unat_u32_less: "unat (w :: u32) < 256 ^ 4"
  using unsigned_less [of w, where 'a = nat] by simp

end
