(* ===== verification/Frame_Kernel.thy ===== *)
theory Frame_Kernel
  imports Prelude
begin

text \<open>
  The frame kernel, \<open>crates/frame-kernel\<close>: page identifiers (\<open>page_id.rs\<close>), the lifecycle of a
  buffer frame as a tagged atomic byte, the padded pin counter and the frame header
  (\<open>frame.rs\<close>). The page size is the one of the default build (feature \<open>page-4k\<close> off).
\<close>

section \<open>Page identifiers\<close>

type_synonym PageId = u64
type_synonym Lsn = u64

definition PAGE_SIZE :: nat where
  "PAGE_SIZE = 64 * 1024"

record InnerParentLink =
  parent_pid :: PageId
  slot_index :: "16 word"
  is_upper :: bool
  dt_id :: "16 word"

definition decode_page_id :: "PageId \<Rightarrow> (unit \<times> u64) option" where
  "decode_page_id pid = (if pid = 0 then None else Some ((), pid))"

definition physical_page_number :: "PageId \<Rightarrow> u64" where
  "physical_page_number pid = pid"

definition decoded_page_number :: "PageId \<Rightarrow> u64 option" where
  "decoded_page_number pid = do { ensure (pid > 0); Some pid }"

definition page_base_span :: "PageId \<Rightarrow> nat" where
  "page_base_span pid = 1"

definition page_size :: "PageId \<Rightarrow> nat" where
  "page_size pid = PAGE_SIZE"

definition page_end_base_page :: "PageId \<Rightarrow> u64" where
  "page_end_base_page pid = pid"

section \<open>Frame states\<close>

datatype FrameState = Free | Loading | Resident | Evicting

primrec frame_state_tag :: "FrameState \<Rightarrow> byte" where
  "frame_state_tag Free = 0"
| "frame_state_tag Loading = 1"
| "frame_state_tag Resident = 2"
| "frame_state_tag Evicting = 3"

definition is_valid_frame_state_tag :: "byte \<Rightarrow> bool" where
  "is_valid_frame_state_tag v = (v = 0 \<or> v = 1 \<or> v = 2 \<or> v = 3)"

definition frame_state_from_u8 :: "byte \<Rightarrow> FrameState option" where
  "frame_state_from_u8 v = do {
     ensure (is_valid_frame_state_tag v);
     if v = 0 then Some Free
     else if v = 1 then Some Loading
     else if v = 2 then Some Resident
     else if v = 3 then Some Evicting
     else None }"

definition is_valid_transition :: "FrameState \<Rightarrow> FrameState \<Rightarrow> bool" where
  "is_valid_transition from to = ((from, to) \<in>
     {(Free, Loading), (Free, Resident), (Loading, Resident), (Loading, Free),
      (Resident, Evicting), (Evicting, Free), (Evicting, Resident)})"

section \<open>The atomic frame state\<close>

text \<open>The cell holds the tag byte. \<open>Result<FrameState, FrameState>\<close> is a sum with \<open>Inl\<close> for
  \<open>Err\<close>; the outer option is the panic of the debug assertion or of \<open>from_u8\<close>.\<close>

definition afs_new :: "FrameState \<Rightarrow> byte" where
  "afs_new state = frame_state_tag state"

definition afs_load :: "byte \<Rightarrow> FrameState option" where
  "afs_load cell = frame_state_from_u8 cell"

definition afs_store :: "FrameState \<Rightarrow> byte \<Rightarrow> byte" where
  "afs_store state cell = frame_state_tag state"

definition afs_transition :: "FrameState \<Rightarrow> FrameState \<Rightarrow> byte \<Rightarrow> byte option" where
  "afs_transition from to cell = do {
     ensure (is_valid_transition from to);
     Some (frame_state_tag to) }"

definition afs_compare_exchange ::
    "FrameState \<Rightarrow> FrameState \<Rightarrow> byte \<Rightarrow> ((FrameState + FrameState) \<times> byte) option" where
  "afs_compare_exchange expected new cell =
     (case cell_cas (frame_state_tag expected) (frame_state_tag new) cell of
        (Inr old, cell') \<Rightarrow> do { s \<leftarrow> frame_state_from_u8 old; Some (Inr s, cell') }
      | (Inl old, cell') \<Rightarrow> do { s \<leftarrow> frame_state_from_u8 old; Some (Inl s, cell') })"

definition afs_compare_exchange_transition ::
    "FrameState \<Rightarrow> FrameState \<Rightarrow> byte \<Rightarrow> ((FrameState + FrameState) \<times> byte) option" where
  "afs_compare_exchange_transition from to cell = do {
     ensure (is_valid_transition from to);
     afs_compare_exchange from to cell }"

section \<open>Pin counter and frame header\<close>

definition padded_fetch_add :: "u32 \<Rightarrow> u32 \<Rightarrow> u32 \<times> u32" where
  "padded_fetch_add value cell = (cell, cell + value)"

definition padded_fetch_sub :: "u32 \<Rightarrow> u32 \<Rightarrow> u32 \<times> u32" where
  "padded_fetch_sub value cell = (cell, cell - value)"

record FrameCoreHeader =
  pin_count :: u32
  frame_pid :: PageId
  frame_dirty :: bool
  dirty_generation :: u64
  frame_referenced :: bool
  frame_state :: byte
  frame_page_lsn :: Lsn
  has_page_image_base :: bool
  wal_buffer_epoch :: u64
  wal_buffer_offset :: u32

definition new_free :: FrameCoreHeader where
  "new_free = \<lparr> pin_count = 0, frame_pid = 0, frame_dirty = False, dirty_generation = 0,
     frame_referenced = False, frame_state = afs_new Free, frame_page_lsn = 0,
     has_page_image_base = False, wal_buffer_epoch = 0, wal_buffer_offset = 0 \<rparr>"

section \<open>The tag byte is a codec\<close>

interpretation frame_tag: codec frame_state_tag frame_state_from_u8
proof unfold_locales
  fix x show "frame_state_from_u8 (frame_state_tag x) = Some x"
    by (cases x) (simp_all add: frame_state_from_u8_def is_valid_frame_state_tag_def)
qed

lemma frame_state_from_u8_None: "frame_state_from_u8 v = None \<longleftrightarrow> \<not> is_valid_frame_state_tag v"
  by (auto simp: frame_state_from_u8_def is_valid_frame_state_tag_def)

lemma afs_compare_exchange_tag:
  "afs_compare_exchange x y (frame_state_tag z) =
     Some (if z = x then (Inr z, frame_state_tag y) else (Inl z, frame_state_tag z))"
  by (simp add: afs_compare_exchange_def cell_cas_def frame_tag.dec_enc frame_tag.enc_inject)

section \<open>Life of a frame\<close>

text \<open>The moves threads make on one frame: a plain \<open>transition\<close>, by a thread that has verified
  the current state, or a compare-and-swap that may fail.\<close>

inductive frame_step :: "byte \<Rightarrow> byte \<Rightarrow> bool" where
  transition: "afs_load cell = Some from \<Longrightarrow> afs_transition from to cell = Some cell' \<Longrightarrow>
    frame_step cell cell'"
| cas: "afs_compare_exchange_transition from to cell = Some (r, cell') \<Longrightarrow> frame_step cell cell'"

inductive frame_run :: "byte \<Rightarrow> byte list \<Rightarrow> byte \<Rightarrow> bool" where
  refl: "frame_run c [c] c"
| step: "frame_step c c' \<Longrightarrow> frame_run c' cs d \<Longrightarrow> frame_run c (c # cs) d"

lemma frame_step_tag:
  "frame_step (frame_state_tag s) c' \<Longrightarrow>
    \<exists>t. c' = frame_state_tag t \<and> (t = s \<or> is_valid_transition s t)"
  by (erule frame_step.cases)
     (auto simp: afs_load_def frame_tag.dec_enc afs_transition_def
        afs_compare_exchange_transition_def afs_compare_exchange_tag split: if_splits)

lemma frame_run_hd: "frame_run c cs d \<Longrightarrow> hd cs = c \<and> last cs = d \<and> cs \<noteq> []"
  by (induction rule: frame_run.induct) auto

lemma frame_run_valid:
  "frame_run c cs d \<Longrightarrow> c = frame_state_tag s \<Longrightarrow> \<forall>x \<in> set cs. is_valid_frame_state_tag x"
proof (induction arbitrary: s rule: frame_run.induct)
  case (refl c)
  then show ?case by (cases s) (simp_all add: is_valid_frame_state_tag_def)
next
  case (step c c' cs d)
  then obtain t where "c' = frame_state_tag t" using frame_step_tag by blast
  with step show ?case
    by (cases s) (simp_all add: is_valid_frame_state_tag_def)
qed

lemma resident_run_avoiding_evicting:
  "frame_run c cs d \<Longrightarrow> c = frame_state_tag Resident \<Longrightarrow> frame_state_tag Evicting \<notin> set cs \<Longrightarrow>
    d = frame_state_tag Resident"
proof (induction rule: frame_run.induct)
  case (step c c' cs d)
  obtain t where t: "c' = frame_state_tag t" "t = Resident \<or> is_valid_transition Resident t"
    using frame_step_tag step.hyps(1) step.prems(1) by blast
  have "c' \<in> set cs" using frame_run_hd [OF step.hyps(2)] by (metis hd_in_set)
  then have "t \<noteq> Evicting" using step.prems(2) t(1) by auto
  then have "t = Resident" using t(2) by (auto simp: is_valid_transition_def)
  then show ?case using step t(1) by simp
qed simp



text \<open>C19: a state change by compare-and-swap has one winner. When one thread moves a frame out of
  state \<open>from\<close>, every thread that then attempts a transition out of \<open>from\<close> on the same cell is
  refused, is told the state the winner installed, and leaves the cell alone.\<close>

theorem cas_transition_single_winner:
  assumes "afs_compare_exchange_transition from to cell = Some (Inr old, cell')"
    and "is_valid_transition from to2"
  shows "old = from \<and> afs_load cell' = Some to \<and>
    afs_compare_exchange_transition from to2 cell' = Some (Inl to, cell')"
proof -
  have *: "is_valid_transition from to" "cell = frame_state_tag from" "cell' = frame_state_tag to"
    "old = from"
    using assms(1)
    by (auto simp: afs_compare_exchange_transition_def afs_compare_exchange_def cell_cas_def
        frame_tag.dec_enc bind_eq_Some_conv split: if_splits)
  moreover from *(1) have "to \<noteq> from" by (auto simp: is_valid_transition_def)
  ultimately show ?thesis
    using assms(2)
    by (simp add: afs_load_def frame_tag.dec_enc afs_compare_exchange_transition_def
        afs_compare_exchange_tag)
qed

theorem cas_transition_single_winner_witness:
  "afs_compare_exchange_transition Resident Evicting (frame_state_tag Evicting) =
    Some (Inl Evicting, frame_state_tag Evicting)"
  using cas_transition_single_winner
    [of Resident Evicting "frame_state_tag Resident" Resident "frame_state_tag Evicting" Evicting]
  by (simp add: afs_compare_exchange_transition_def afs_compare_exchange_tag
      is_valid_transition_def del: frame_state_tag.simps)

end
