(* ===== verification/Swip_Kernel.thy ===== *)
theory Swip_Kernel
  imports Prelude
begin

text \<open>
  The swip kernel, \<open>crates/swip-kernel\<close>: the tagged 64-bit word that is either a pointer to a
  buffer frame (hot or cool) or the identifier of an evicted page. The tag predicates are those
  of \<open>state.rs\<close>, the word operations and the methods of \<open>SwipWord\<close> those of \<open>word.rs\<close>, with the
  debug assertions as panics, and the atomic cell that of \<open>atomic.rs\<close>. The specification they are
  proved to implement is the datatype \<open>swip_ref\<close> of references.
\<close>

section \<open>Tags (\<open>state.rs\<close>)\<close>

definition EVICTED_BIT :: u64 where "EVICTED_BIT = push_bit 63 1"
definition COOL_BIT :: u64 where "COOL_BIT = push_bit 62 1"
definition STATE_MASK :: u64 where "STATE_MASK = push_bit 62 3"
definition PTR_MASK :: u64 where "PTR_MASK = NOT STATE_MASK"

datatype SwipState = Hot | Cool | Evicted

definition evicted_mask_is_set :: "u64 \<Rightarrow> bool" where
  "evicted_mask_is_set m = (m \<noteq> 0)"

definition evicted_mask :: "u64 \<Rightarrow> u64" where
  "evicted_mask raw = raw AND EVICTED_BIT"

definition raw_is_evicted :: "u64 \<Rightarrow> bool" where
  "raw_is_evicted raw = evicted_mask_is_set (evicted_mask raw)"

definition state_mask :: "u64 \<Rightarrow> u64" where
  "state_mask raw = raw AND STATE_MASK"

definition is_cool_mask :: "u64 \<Rightarrow> bool" where
  "is_cool_mask m = (m = COOL_BIT)"

definition raw_is_cool :: "u64 \<Rightarrow> bool" where
  "raw_is_cool raw = (\<not> raw_is_evicted raw \<and> is_cool_mask (state_mask raw))"

definition raw_is_hot :: "u64 \<Rightarrow> bool" where
  "raw_is_hot raw = (\<not> raw_is_evicted raw \<and> \<not> raw_is_cool raw)"

definition classify_raw :: "u64 \<Rightarrow> SwipState" where
  "classify_raw raw =
     (if raw_is_evicted raw then Evicted else if raw_is_cool raw then Cool else Hot)"

section \<open>Words (\<open>word.rs\<close>)\<close>

definition make_hot_ptr_word :: "u64 \<Rightarrow> u64" where
  "make_hot_ptr_word ptr = ptr"

definition make_evicted_page_word :: "u64 \<Rightarrow> u64" where
  "make_evicted_page_word page_id = page_id OR EVICTED_BIT"

definition pointer_bits_of :: "u64 \<Rightarrow> u64" where
  "pointer_bits_of raw = raw AND PTR_MASK"

definition page_id_of :: "u64 \<Rightarrow> u64" where
  "page_id_of raw = raw AND NOT EVICTED_BIT"

definition cool_word :: "u64 \<Rightarrow> u64" where
  "cool_word raw = raw OR COOL_BIT"

definition warm_word :: "u64 \<Rightarrow> u64" where
  "warm_word raw = raw AND NOT COOL_BIT"

definition evict_word :: "u64 \<Rightarrow> u64 \<Rightarrow> u64" where
  "evict_word raw page_id = page_id OR EVICTED_BIT"

definition resolve_ptr_word :: "u64 \<Rightarrow> u64 \<Rightarrow> u64" where
  "resolve_ptr_word raw ptr = ptr"

text \<open>\<open>SwipWord\<close> is a transparent wrapper of the raw word; \<open>&mut self\<close> methods return the new
  word.\<close>

definition swip_hot_ptr :: "u64 \<Rightarrow> u64 option" where
  "swip_hot_ptr ptr = do { ensure (ptr AND STATE_MASK = 0); Some (make_hot_ptr_word ptr) }"

definition swip_evicted_page :: "u64 \<Rightarrow> u64 option" where
  "swip_evicted_page page_id = do {
     ensure (page_id AND STATE_MASK = 0); Some (make_evicted_page_word page_id) }"

definition swip_pointer_bits :: "u64 \<Rightarrow> u64 option" where
  "swip_pointer_bits w = do { ensure (\<not> raw_is_evicted w); Some (pointer_bits_of w) }"

definition swip_page_id :: "u64 \<Rightarrow> u64 option" where
  "swip_page_id w = do { ensure (raw_is_evicted w); Some (page_id_of w) }"

definition swip_cool :: "u64 \<Rightarrow> u64 option" where
  "swip_cool w = do { ensure (raw_is_hot w); Some (cool_word w) }"

definition swip_warm :: "u64 \<Rightarrow> u64 option" where
  "swip_warm w = do { ensure (raw_is_cool w); Some (warm_word w) }"

definition swip_evict :: "u64 \<Rightarrow> u64 \<Rightarrow> u64 option" where
  "swip_evict page_id w = do {
     ensure (raw_is_cool w);
     ensure (page_id AND STATE_MASK = 0);
     Some (evict_word w page_id) }"

definition swip_resolve_ptr :: "u64 \<Rightarrow> u64 \<Rightarrow> u64 option" where
  "swip_resolve_ptr ptr w = do {
     ensure (raw_is_evicted w);
     ensure (ptr AND STATE_MASK = 0);
     Some (resolve_ptr_word w ptr) }"

text \<open>The atomic cell of \<open>atomic.rs\<close> stores the raw word.\<close>

definition atomic_swip_compare_exchange :: "u64 \<Rightarrow> u64 \<Rightarrow> u64 \<Rightarrow> (u64 + u64) \<times> u64" where
  "atomic_swip_compare_exchange current new cell = cell_cas current new cell"

section \<open>Tag bits\<close>

lemma bit3: "bit (3::64 word) n \<longleftrightarrow> n = 0 \<or> n = 1"
proof (cases n)
  case (Suc m)
  then show ?thesis by (cases m) simp_all
qed simp

lemma bit_EVICTED_BIT [simp]: "bit EVICTED_BIT n \<longleftrightarrow> n = 63"
  unfolding EVICTED_BIT_def bit_push_bit_iff by (auto simp: bit_1_iff)

lemma bit_COOL_BIT [simp]: "bit COOL_BIT n \<longleftrightarrow> n = 62"
  unfolding COOL_BIT_def bit_push_bit_iff by (auto simp: bit_1_iff)

lemma bit_STATE_MASK [simp]: "bit STATE_MASK n \<longleftrightarrow> n = 62 \<or> n = 63"
  unfolding STATE_MASK_def bit_push_bit_iff bit3 by auto

lemma untagged_iff: "p AND STATE_MASK = 0 \<longleftrightarrow> \<not> bit p 62 \<and> \<not> bit p 63"
proof
  assume "p AND STATE_MASK = 0"
  then have "\<not> bit (p AND STATE_MASK) 62" "\<not> bit (p AND STATE_MASK) 63" by simp_all
  then show "\<not> bit p 62 \<and> \<not> bit p 63" by (simp add: bit_and_iff)
qed (auto simp: word_bits_eq bit_and_iff)

lemma evicted_iff: "raw_is_evicted w \<longleftrightarrow> bit w 63"
  by (auto simp: raw_is_evicted_def evicted_mask_is_set_def evicted_mask_def word_bits_eq bit_and_iff)

lemma cool_iff: "raw_is_cool w \<longleftrightarrow> \<not> bit w 63 \<and> bit w 62"
proof
  assume "raw_is_cool w"
  then have "\<not> bit w 63" "bit (w AND STATE_MASK) 62"
    by (simp_all add: raw_is_cool_def evicted_iff is_cool_mask_def state_mask_def)
  then show "\<not> bit w 63 \<and> bit w 62" by (simp add: bit_and_iff)
qed (auto simp: raw_is_cool_def evicted_iff is_cool_mask_def state_mask_def word_bits_eq bit_and_iff)

lemma hot_iff: "raw_is_hot w \<longleftrightarrow> \<not> bit w 63 \<and> \<not> bit w 62"
  by (auto simp: raw_is_hot_def evicted_iff cool_iff)

lemmas swip_tag_simps = untagged_iff evicted_iff cool_iff hot_iff

lemmas swip_word_defs = make_hot_ptr_word_def make_evicted_page_word_def pointer_bits_of_def
  page_id_of_def cool_word_def warm_word_def evict_word_def resolve_ptr_word_def PTR_MASK_def

lemma warm_cool_word: "\<not> bit w 62 \<Longrightarrow> warm_word (cool_word w) = w"
  by (auto simp: swip_word_defs word_bits_eq bit_simps)

lemma pointer_bits_hot: "\<not> bit w 63 \<Longrightarrow> \<not> bit w 62 \<Longrightarrow> pointer_bits_of w = w"
  by (auto simp: swip_word_defs word_bits_eq bit_simps)

lemma pointer_bits_cool_word: "pointer_bits_of (cool_word w) = pointer_bits_of w"
  by (auto simp: swip_word_defs word_bits_eq bit_simps)

lemma warm_word_cool: "\<not> bit w 63 \<Longrightarrow> warm_word w = pointer_bits_of w"
  by (auto simp: swip_word_defs word_bits_eq bit_simps)

lemma page_id_evicted_word: "\<not> bit p 63 \<Longrightarrow> page_id_of (p OR EVICTED_BIT) = p"
  by (auto simp: swip_word_defs word_bits_eq bit_simps)

section \<open>References\<close>

text \<open>What a swip means, and what each method does to the meaning.\<close>

datatype swip_ref = Ref_hot u64 | Ref_cool u64 | Ref_page u64

definition swip_meaning :: "u64 \<Rightarrow> swip_ref" where
  "swip_meaning w = (case classify_raw w of
     Hot \<Rightarrow> Ref_hot (pointer_bits_of w)
   | Cool \<Rightarrow> Ref_cool (pointer_bits_of w)
   | Evicted \<Rightarrow> Ref_page (page_id_of w))"

fun ref_cool :: "swip_ref \<Rightarrow> swip_ref option" where
  "ref_cool (Ref_hot p) = Some (Ref_cool p)"
| "ref_cool _ = None"

fun ref_warm :: "swip_ref \<Rightarrow> swip_ref option" where
  "ref_warm (Ref_cool p) = Some (Ref_hot p)"
| "ref_warm _ = None"

fun ref_evict :: "u64 \<Rightarrow> swip_ref \<Rightarrow> swip_ref option" where
  "ref_evict pid (Ref_cool p) = Some (Ref_page pid)"
| "ref_evict pid _ = None"

fun ref_resolve :: "u64 \<Rightarrow> swip_ref \<Rightarrow> swip_ref option" where
  "ref_resolve p (Ref_page pid) = Some (Ref_hot p)"
| "ref_resolve p _ = None"

lemma swip_meaning_hot: "raw_is_hot w \<Longrightarrow> swip_meaning w = Ref_hot (pointer_bits_of w)"
  by (simp add: swip_meaning_def classify_raw_def swip_tag_simps)

lemma swip_meaning_cool: "raw_is_cool w \<Longrightarrow> swip_meaning w = Ref_cool (pointer_bits_of w)"
  by (simp add: swip_meaning_def classify_raw_def swip_tag_simps)

lemma swip_meaning_evicted: "raw_is_evicted w \<Longrightarrow> swip_meaning w = Ref_page (page_id_of w)"
  by (simp add: swip_meaning_def classify_raw_def)

lemmas swip_meaning_simps = swip_meaning_hot swip_meaning_cool swip_meaning_evicted

lemma swip_cases:
  obtains "raw_is_hot w" "\<not> raw_is_cool w" "\<not> raw_is_evicted w"
  | "raw_is_cool w" "\<not> raw_is_hot w" "\<not> raw_is_evicted w"
  | "raw_is_evicted w" "\<not> raw_is_hot w" "\<not> raw_is_cool w"
  by (cases "bit w 63"; cases "bit w 62") (auto simp: swip_tag_simps)

lemma swip_cool_refines: "map_option swip_meaning (swip_cool w) = ref_cool (swip_meaning w)"
proof (cases w rule: swip_cases)
  case 1
  then have "raw_is_cool (cool_word w)"
    by (simp add: swip_tag_simps cool_word_def bit_simps)
  with 1 show ?thesis
    by (simp add: swip_cool_def swip_meaning_simps pointer_bits_cool_word)
qed (simp_all add: swip_cool_def swip_meaning_simps)

lemma swip_warm_refines: "map_option swip_meaning (swip_warm w) = ref_warm (swip_meaning w)"
proof (cases w rule: swip_cases)
  case 2
  then have h: "raw_is_hot (warm_word w)"
    by (simp add: swip_tag_simps warm_word_def bit_simps)
  then have "pointer_bits_of (warm_word w) = warm_word w"
    by (simp add: hot_iff pointer_bits_hot)
  with 2 h show ?thesis
    by (simp add: swip_warm_def swip_meaning_simps warm_word_cool evicted_iff)
qed (simp_all add: swip_warm_def swip_meaning_simps)

lemma swip_evict_refines:
  "pid AND STATE_MASK = 0 \<Longrightarrow>
    map_option swip_meaning (swip_evict pid w) = ref_evict pid (swip_meaning w)"
proof (cases w rule: swip_cases)
  case 2
  assume pid: "pid AND STATE_MASK = 0"
  then have "raw_is_evicted (pid OR EVICTED_BIT)"
    by (simp add: evicted_iff bit_simps)
  with 2 pid show ?thesis
    by (simp add: swip_evict_def swip_meaning_simps evict_word_def page_id_evicted_word
        untagged_iff)
qed (simp_all add: swip_evict_def swip_meaning_simps)

lemma swip_resolve_refines:
  "p AND STATE_MASK = 0 \<Longrightarrow>
    map_option swip_meaning (swip_resolve_ptr p w) = ref_resolve p (swip_meaning w)"
proof (cases w rule: swip_cases)
  case 3
  assume p: "p AND STATE_MASK = 0"
  then have "raw_is_hot p" by (simp add: swip_tag_simps)
  with 3 p show ?thesis
    by (simp add: swip_resolve_ptr_def swip_meaning_simps resolve_ptr_word_def pointer_bits_hot
        untagged_iff)
qed (simp_all add: swip_resolve_ptr_def swip_meaning_simps)

lemma swip_hot_ptr_meaning: "swip_hot_ptr p = Some w \<Longrightarrow> swip_meaning w = Ref_hot p"
  by (auto simp: swip_hot_ptr_def untagged_iff make_hot_ptr_word_def swip_meaning_hot hot_iff
      pointer_bits_hot)

lemma swip_evicted_page_meaning: "swip_evicted_page pid = Some w \<Longrightarrow> swip_meaning w = Ref_page pid"
  by (auto simp: swip_evicted_page_def untagged_iff make_evicted_page_word_def
      swip_meaning_evicted evicted_iff page_id_evicted_word bit_simps)

interpretation swip_page: codec "\<lambda>pid :: 62 word. make_evicted_page_word (ucast pid)"
  "\<lambda>w. map_option ucast (swip_page_id w)"
proof unfold_locales
  fix x :: "62 word"
  let ?p = "ucast x :: u64"
  have "\<not> bit ?p 63" by (auto simp: bit_simps dest: bit_imp_le_length)
  moreover have "ucast ?p = x" by (simp add: word_bits_eq bit_simps)
  ultimately show "map_option ucast (swip_page_id (make_evicted_page_word ?p)) = Some x"
    by (simp add: swip_page_id_def make_evicted_page_word_def evicted_iff page_id_evicted_word
        bit_simps)
qed

text \<open>C20: the tagged word implements references. Reading every word as the reference it stands for,
  each method of \<open>SwipWord\<close> does to the reference what its name says, and panics exactly when the
  reference is in the wrong state: cooling needs a hot pointer, warming and evicting a cool one,
  resolving an evicted page; the accessors return the pointer or the page id of the reference. Pointers and page ids
  are those the constructors accept, with the two tag bits clear.\<close>

theorem swip_word_refines_references:
  assumes "ptr AND STATE_MASK = 0" "pid AND STATE_MASK = 0"
  shows "map_option swip_meaning (swip_hot_ptr ptr) = Some (Ref_hot ptr) \<and>
    map_option swip_meaning (swip_evicted_page pid) = Some (Ref_page pid) \<and>
    map_option swip_meaning (swip_cool w) = ref_cool (swip_meaning w) \<and>
    map_option swip_meaning (swip_warm w) = ref_warm (swip_meaning w) \<and>
    map_option swip_meaning (swip_evict pid w) = ref_evict pid (swip_meaning w) \<and>
    map_option swip_meaning (swip_resolve_ptr ptr w) = ref_resolve ptr (swip_meaning w) \<and>
    swip_page_id w = (case swip_meaning w of Ref_page p \<Rightarrow> Some p | _ \<Rightarrow> None) \<and>
    swip_pointer_bits w =
      (case swip_meaning w of Ref_page p \<Rightarrow> None | Ref_hot p \<Rightarrow> Some p | Ref_cool p \<Rightarrow> Some p)"
proof (intro conjI)
  show "map_option swip_meaning (swip_hot_ptr ptr) = Some (Ref_hot ptr)"
    using swip_hot_ptr_meaning [of ptr ptr] assms(1)
    by (simp add: swip_hot_ptr_def make_hot_ptr_word_def)
  show "map_option swip_meaning (swip_evicted_page pid) = Some (Ref_page pid)"
    using swip_evicted_page_meaning [of pid "make_evicted_page_word pid"] assms(2)
    by (simp add: swip_evicted_page_def)
  show "swip_page_id w = (case swip_meaning w of Ref_page p \<Rightarrow> Some p | _ \<Rightarrow> None)"
    by (cases w rule: swip_cases) (simp_all add: swip_page_id_def swip_meaning_simps)
  show "swip_pointer_bits w =
      (case swip_meaning w of Ref_page p \<Rightarrow> None | Ref_hot p \<Rightarrow> Some p | Ref_cool p \<Rightarrow> Some p)"
    by (cases w rule: swip_cases) (simp_all add: swip_pointer_bits_def swip_meaning_simps)
qed (simp_all only: swip_cool_refines swip_warm_refines swip_evict_refines [OF assms(2)]
    swip_resolve_refines [OF assms(1)])

theorem swip_word_refines_references_witness:
  "map_option swip_meaning (swip_evict 7 (cool_word 4096)) =
    ref_evict 7 (swip_meaning (cool_word 4096))"
  using swip_word_refines_references [of 4096 7 "cool_word 4096"]
  by (simp add: STATE_MASK_def)

end
