(* ===== verification/Hybrid_Latch.thy ===== *)
theory Hybrid_Latch
  imports Prelude
begin

text \<open>
  The hybrid latch, \<open>crates/hybrid-latch\<close>: the version word (\<open>helpers.rs\<close>) and the methods of
  \<open>HybridLatch\<close>, \<open>OptimisticGuard\<close>, \<open>SharedGuard\<close> and \<open>ExclusiveGuard\<close> (\<open>latch.rs\<close>). A method is a
  relation of atomic steps on the latch and on the program point of the thread that runs it, and
  \<open>latch_step\<close> interleaves the threads. The blocking reader/writer lock below the latch is
  \<open>parking_lot\<close>, whose operations are a parameter \<open>L\<close>; what the latch needs of it is
  \<open>rw_lock_laws\<close>. The data the latch protects is part of the latch state, and every program point
  of a reader remembers the values the reader has seen in its section.
\<close>

section \<open>The version word (\<open>helpers.rs\<close>)\<close>

definition EXCLUSIVE_BIT :: u64 where "EXCLUSIVE_BIT = 1"
definition CLEAR_EXCLUSIVE_BIT :: u64 where "CLEAR_EXCLUSIVE_BIT = NOT EXCLUSIVE_BIT"
definition VERSION_STEP :: u64 where "VERSION_STEP = 2"

definition exclusive_mask :: "u64 \<Rightarrow> u64" where
  "exclusive_mask w = w AND EXCLUSIVE_BIT"

definition exclusive_mask_is_set :: "u64 \<Rightarrow> bool" where
  "exclusive_mask_is_set m = (m \<noteq> 0)"

definition version_is_exclusive :: "u64 \<Rightarrow> bool" where
  "version_is_exclusive w = exclusive_mask_is_set (exclusive_mask w)"

definition optimistic_snapshot_still_valid :: "u64 \<Rightarrow> u64 \<Rightarrow> bool" where
  "optimistic_snapshot_still_valid current snapshot = (current = snapshot)"

definition optimistic_restart_required :: "u64 \<Rightarrow> u64 \<Rightarrow> bool" where
  "optimistic_restart_required current snapshot =
     (\<not> optimistic_snapshot_still_valid current snapshot)"

definition enter_exclusive_version :: "u64 \<Rightarrow> u64" where
  "enter_exclusive_version current = current OR EXCLUSIVE_BIT"

definition exclusive_base_version :: "u64 \<Rightarrow> u64" where
  "exclusive_base_version exclusive_version = exclusive_version AND CLEAR_EXCLUSIVE_BIT"

definition can_advance_readable_version :: "u64 \<Rightarrow> bool" where
  "can_advance_readable_version version = (version \<le> 18446744073709551613)"

definition advance_readable_version_checked :: "u64 \<Rightarrow> u64 option" where
  "advance_readable_version_checked version =
     (if unat version + unat VERSION_STEP < 2 ^ 64 then Some (version + VERSION_STEP) else None)"

definition advance_readable_version :: "u64 \<Rightarrow> u64 option" where
  "advance_readable_version version = do {
     ensure (can_advance_readable_version version);
     advance_readable_version_checked version }"

definition exit_exclusive_version :: "u64 \<Rightarrow> u64 option" where
  "exit_exclusive_version exclusive_version = do {
     ensure (version_is_exclusive exclusive_version);
     let base_version = exclusive_base_version exclusive_version;
     advance_readable_version base_version }"

definition optimistic_read_allowed :: "u64 \<Rightarrow> bool" where
  "optimistic_read_allowed version = (\<not> version_is_exclusive version)"

definition entered_version_disallows_optimistic_read :: "u64 \<Rightarrow> bool" where
  "entered_version_disallows_optimistic_read current =
     optimistic_read_allowed (enter_exclusive_version current)"

definition optimistic_snapshot :: "u64 \<Rightarrow> u64 option" where
  "optimistic_snapshot version =
     (if \<not> optimistic_read_allowed version then None else Some version)"

section \<open>The latch\<close>

text \<open>The operations of \<open>parking_lot::RawRwLock\<close>: a \<open>try_\<close> operation returns the lock with the
  access granted or \<^const>\<open>None\<close>, a blocking acquisition is a \<open>try_\<close> that is repeated until
  granted.\<close>

record 'l raw_rw_lock =
  rw_try_lock_exclusive :: "'l \<Rightarrow> 'l option"
  rw_try_lock_shared :: "'l \<Rightarrow> 'l option"
  rw_unlock_exclusive :: "'l \<Rightarrow> 'l"
  rw_unlock_shared :: "'l \<Rightarrow> 'l"

record ('l, 'd) HybridLatch =
  version :: u64
  mutex :: 'l
  protected :: 'd

text \<open>Where a thread is: outside, in an optimistic section that has seen some values of the
  protected data, holding the lock on the way into an exclusive or a shared section, inside one,
  or about to release the lock.\<close>

datatype 'd latch_pc =
    Idle
  | Optimistic u64 "'d list"
  | Exclusive_locked
  | Exclusive_loaded u64
  | Upgrade_exclusive_locked u64 "'d list"
  | Exclusive u64
  | Exclusive_release
  | Shared_locked
  | Upgrade_shared_locked u64 "'d list"
  | Shared u64 "'d list"
  | Shared_release

type_synonym ('l, 'd) local_state = "('l, 'd) HybridLatch \<times> 'd latch_pc"

definition new_latch :: "'l \<Rightarrow> 'd \<Rightarrow> ('l, 'd) HybridLatch" where
  "new_latch unlocked d = \<lparr> version = 0, mutex = unlocked, protected = d \<rparr>"

text \<open>\<open>HybridLatch::optimistic_or_restart\<close>; \<open>optimistic_spin\<close> repeats the load until it
  succeeds.\<close>

inductive optimistic_or_restart_step ::
    "('l, 'd) local_state \<Rightarrow> ('l, 'd) local_state \<Rightarrow> bool" where
  begin_section: "optimistic_snapshot (version h) = Some snapshot \<Longrightarrow>
    optimistic_or_restart_step (h, Idle) (h, Optimistic snapshot [])"

inductive optimistic_spin_step ::
    "('l, 'd) local_state \<Rightarrow> ('l, 'd) local_state \<Rightarrow> bool" where
  begin_section: "\<not> version_is_exclusive (version h) \<Longrightarrow>
    optimistic_spin_step (h, Idle) (h, Optimistic (version h) [])"

text \<open>\<open>HybridLatch::lock_exclusive\<close> and \<open>try_lock_exclusive\<close>: the same steps, the second gives up
  where the first waits. A failed assertion unwinds, which drops the inner guard.\<close>

inductive lock_exclusive_step ::
    "'l raw_rw_lock \<Rightarrow> ('l, 'd) local_state \<Rightarrow> ('l, 'd) local_state \<Rightarrow> bool"
  for L :: "'l raw_rw_lock" where
  acquire: "rw_try_lock_exclusive L (mutex h) = Some l' \<Longrightarrow>
    lock_exclusive_step L (h, Idle) (h\<lparr>mutex := l'\<rparr>, Exclusive_locked)"
| load: "lock_exclusive_step L (h, Exclusive_locked) (h, Exclusive_loaded (version h))"
| enter: "can_advance_readable_version current \<Longrightarrow> v = enter_exclusive_version current \<Longrightarrow>
    lock_exclusive_step L (h, Exclusive_loaded current) (h\<lparr>version := v\<rparr>, Exclusive v)"
| overflow: "\<not> can_advance_readable_version current \<Longrightarrow>
    lock_exclusive_step L (h, Exclusive_loaded current) (h, Exclusive_release)"
| unlock: "lock_exclusive_step L (h, Exclusive_release)
    (h\<lparr>mutex := rw_unlock_exclusive L (mutex h)\<rparr>, Idle)"

text \<open>\<open>HybridLatch::lock_shared\<close> and \<open>try_lock_shared\<close>, and the drop of a \<open>SharedGuard\<close>.\<close>

inductive lock_shared_step ::
    "'l raw_rw_lock \<Rightarrow> ('l, 'd) local_state \<Rightarrow> ('l, 'd) local_state \<Rightarrow> bool"
  for L :: "'l raw_rw_lock" where
  acquire: "rw_try_lock_shared L (mutex h) = Some l' \<Longrightarrow>
    lock_shared_step L (h, Idle) (h\<lparr>mutex := l'\<rparr>, Shared_locked)"
| load: "lock_shared_step L (h, Shared_locked) (h, Shared (version h) [])"
| leave: "lock_shared_step L (h, Shared v seen) (h, Shared_release)"
| unlock: "lock_shared_step L (h, Shared_release)
    (h\<lparr>mutex := rw_unlock_shared L (mutex h)\<rparr>, Idle)"

text \<open>\<open>OptimisticGuard::validate\<close>.\<close>

definition optimistic_validate :: "('l, 'd) HybridLatch \<Rightarrow> u64 \<Rightarrow> bool" where
  "optimistic_validate h snapshot =
     (if optimistic_restart_required (version h) snapshot then False else True)"

text \<open>\<open>OptimisticGuard::upgrade_to_exclusive\<close> and \<open>try_upgrade_to_exclusive\<close>.\<close>

inductive upgrade_to_exclusive_step ::
    "'l raw_rw_lock \<Rightarrow> ('l, 'd) local_state \<Rightarrow> ('l, 'd) local_state \<Rightarrow> bool"
  for L :: "'l raw_rw_lock" where
  acquire: "rw_try_lock_exclusive L (mutex h) = Some l' \<Longrightarrow>
    upgrade_to_exclusive_step L (h, Optimistic snapshot seen)
      (h\<lparr>mutex := l'\<rparr>, Upgrade_exclusive_locked snapshot seen)"
| overflow: "\<not> can_advance_readable_version snapshot \<Longrightarrow>
    upgrade_to_exclusive_step L (h, Upgrade_exclusive_locked snapshot seen) (h, Exclusive_release)"
| swapped: "can_advance_readable_version snapshot \<Longrightarrow>
    new_version = enter_exclusive_version snapshot \<Longrightarrow>
    cell_cas snapshot new_version (version h) = (Inr old, v') \<Longrightarrow>
    upgrade_to_exclusive_step L (h, Upgrade_exclusive_locked snapshot seen)
      (h\<lparr>version := v'\<rparr>, Exclusive new_version)"
| refused: "can_advance_readable_version snapshot \<Longrightarrow>
    new_version = enter_exclusive_version snapshot \<Longrightarrow>
    cell_cas snapshot new_version (version h) = (Inl old, v') \<Longrightarrow>
    upgrade_to_exclusive_step L (h, Upgrade_exclusive_locked snapshot seen)
      (h\<lparr>version := v'\<rparr>, Exclusive_release)"
| restart: "upgrade_to_exclusive_step L (h, Optimistic snapshot seen) (h, Idle)"

text \<open>\<open>OptimisticGuard::upgrade_to_shared\<close> and \<open>try_upgrade_to_shared\<close>.\<close>

inductive upgrade_to_shared_step ::
    "'l raw_rw_lock \<Rightarrow> ('l, 'd) local_state \<Rightarrow> ('l, 'd) local_state \<Rightarrow> bool"
  for L :: "'l raw_rw_lock" where
  acquire: "rw_try_lock_shared L (mutex h) = Some l' \<Longrightarrow>
    upgrade_to_shared_step L (h, Optimistic snapshot seen)
      (h\<lparr>mutex := l'\<rparr>, Upgrade_shared_locked snapshot seen)"
| recheck: "optimistic_snapshot_still_valid (version h) snapshot \<Longrightarrow>
    upgrade_to_shared_step L (h, Upgrade_shared_locked snapshot seen) (h, Shared snapshot seen)"
| moved: "\<not> optimistic_snapshot_still_valid (version h) snapshot \<Longrightarrow>
    upgrade_to_shared_step L (h, Upgrade_shared_locked snapshot seen) (h, Shared_release)"

text \<open>\<open>Drop for ExclusiveGuard\<close>: the version is stored before the inner guard is dropped. The
  second rule is the panic of \<open>exit_exclusive_version\<close>.\<close>

inductive exclusive_drop_step ::
    "('l, 'd) local_state \<Rightarrow> ('l, 'd) local_state \<Rightarrow> bool" where
  publish: "exit_exclusive_version v = Some new_version \<Longrightarrow>
    exclusive_drop_step (h, Exclusive v) (h\<lparr>version := new_version\<rparr>, Exclusive_release)"
| overflow: "exit_exclusive_version v = None \<Longrightarrow>
    exclusive_drop_step (h, Exclusive v) (h, Exclusive_release)"

text \<open>What the holder of a guard does with the protected data: a writer changes it, a reader
  looks at it.\<close>

inductive access_step :: "('l, 'd) local_state \<Rightarrow> ('l, 'd) local_state \<Rightarrow> bool" where
  write_data: "access_step (h, Exclusive v) (h\<lparr>protected := d\<rparr>, Exclusive v)"
| read_optimistic: "access_step (h, Optimistic v seen) (h, Optimistic v (protected h # seen))"
| read_shared: "access_step (h, Shared v seen) (h, Shared v (protected h # seen))"
| leave_optimistic: "access_step (h, Optimistic v seen) (h, Idle)"

definition thread_step ::
    "'l raw_rw_lock \<Rightarrow> ('l, 'd) local_state \<Rightarrow> ('l, 'd) local_state \<Rightarrow> bool" where
  "thread_step L s s' =
     (optimistic_or_restart_step s s' \<or> optimistic_spin_step s s' \<or> lock_exclusive_step L s s' \<or>
      lock_shared_step L s s' \<or> upgrade_to_exclusive_step L s s' \<or> upgrade_to_shared_step L s s' \<or>
      exclusive_drop_step s s' \<or> access_step s s')"

inductive latch_reachable ::
    "'l raw_rw_lock \<Rightarrow> 'l \<Rightarrow> 'd \<Rightarrow> ('l, 'd) HybridLatch \<Rightarrow> (nat \<Rightarrow> 'd latch_pc) \<Rightarrow> bool"
  for L :: "'l raw_rw_lock" and unlocked :: 'l and d :: 'd where
  init: "latch_reachable L unlocked d (new_latch unlocked d) (\<lambda>_. Idle)"
| step: "latch_reachable L unlocked d h pcs \<Longrightarrow> thread_step L (h, pcs t) (h', pc') \<Longrightarrow>
    latch_reachable L unlocked d h' (pcs(t := pc'))"

section \<open>The contract of the inner lock\<close>

text \<open>\<open>writer\<close> and \<open>readers\<close> say who holds the lock. Granting exclusive access needs a free lock,
  granting shared access needs that no writer holds it, and a release undoes the grant. Nothing is
  said about when a request is granted.\<close>

definition rw_lock_laws ::
    "'l raw_rw_lock \<Rightarrow> 'l \<Rightarrow> ('l \<Rightarrow> bool) \<Rightarrow> ('l \<Rightarrow> nat) \<Rightarrow> bool" where
  "rw_lock_laws L unlocked writer readers = (
     (\<not> writer unlocked \<and> readers unlocked = 0) \<and>
     (\<forall>l l'. rw_try_lock_exclusive L l = Some l' \<longrightarrow>
        \<not> writer l \<and> readers l = 0 \<and> writer l' \<and> readers l' = 0) \<and>
     (\<forall>l l'. rw_try_lock_shared L l = Some l' \<longrightarrow>
        \<not> writer l \<and> \<not> writer l' \<and> readers l' = Suc (readers l)) \<and>
     (\<forall>l. writer l \<longrightarrow> \<not> writer (rw_unlock_exclusive L l) \<and>
        readers (rw_unlock_exclusive L l) = readers l) \<and>
     (\<forall>l. readers l > 0 \<longrightarrow> writer (rw_unlock_shared L l) = writer l \<and>
        readers (rw_unlock_shared L l) = readers l - 1))"

section \<open>Version words\<close>

lemma version_is_exclusive_odd: "version_is_exclusive w \<longleftrightarrow> odd w"
  by (simp add: version_is_exclusive_def exclusive_mask_is_set_def exclusive_mask_def
      EXCLUSIVE_BIT_def and_one_eq odd_iff_mod_2_eq_one)

lemma enter_even: "even c \<Longrightarrow> enter_exclusive_version c = c + 1"
  by (simp add: enter_exclusive_version_def EXCLUSIVE_BIT_def or_one_eq)

lemma base_of_entered: "even c \<Longrightarrow> exclusive_base_version (c + 1) = c"
proof -
  assume "even c"
  then have "c + 1 = c OR 1" by (simp add: or_one_eq)
  moreover have "(c OR 1) AND NOT 1 = c"
    using \<open>even c\<close> by (auto simp: word_bits_eq bit_simps bit_0 gr0_conv_Suc)
  ultimately show ?thesis
    by (simp add: exclusive_base_version_def CLEAR_EXCLUSIVE_BIT_def EXCLUSIVE_BIT_def)
qed

lemma even_le_max: "even (c :: u64) \<Longrightarrow> can_advance_readable_version c \<Longrightarrow> unat c + 2 < 2 ^ 64"
  by (simp add: can_advance_readable_version_def word_le_nat_alt)

lemma exit_entered:
  assumes "even c" "can_advance_readable_version c"
  shows "exit_exclusive_version (c + 1) = Some (c + 2)"
  using assms even_le_max [OF assms]
  by (simp add: exit_exclusive_version_def version_is_exclusive_odd base_of_entered
      advance_readable_version_def advance_readable_version_checked_def VERSION_STEP_def Let_def)

lemma version_lt_entered:
  assumes "even c" "can_advance_readable_version c"
  shows "c < c + 1" "c + 1 < c + 2"
  using even_le_max [OF assms]
  by (simp_all add: word_less_nat_alt unat_word_ariths)

section \<open>The invariant of the latch\<close>

fun holds_exclusive :: "'d latch_pc \<Rightarrow> bool" where
  "holds_exclusive Exclusive_locked = True"
| "holds_exclusive (Exclusive_loaded c) = True"
| "holds_exclusive (Upgrade_exclusive_locked v seen) = True"
| "holds_exclusive (Exclusive v) = True"
| "holds_exclusive Exclusive_release = True"
| "holds_exclusive _ = False"

fun holds_shared :: "'d latch_pc \<Rightarrow> bool" where
  "holds_shared Shared_locked = True"
| "holds_shared (Upgrade_shared_locked v seen) = True"
| "holds_shared (Shared v seen) = True"
| "holds_shared Shared_release = True"
| "holds_shared _ = False"

text \<open>A snapshot is even, not from the future, and if it is still current then everything seen
  since is the protected data of now.\<close>

definition snapshot_ok :: "('l, 'd) HybridLatch \<Rightarrow> u64 \<Rightarrow> 'd list \<Rightarrow> bool" where
  "snapshot_ok h v seen =
     (even v \<and> v \<le> version h \<and> (version h = v \<longrightarrow> (\<forall>d \<in> set seen. d = protected h)))"

fun pc_ok :: "('l, 'd) HybridLatch \<Rightarrow> 'd latch_pc \<Rightarrow> bool" where
  "pc_ok h (Optimistic v seen) = snapshot_ok h v seen"
| "pc_ok h (Upgrade_exclusive_locked v seen) = snapshot_ok h v seen"
| "pc_ok h (Upgrade_shared_locked v seen) = snapshot_ok h v seen"
| "pc_ok h (Shared v seen) = (version h = v \<and> snapshot_ok h v seen)"
| "pc_ok h (Exclusive_loaded c) = (version h = c)"
| "pc_ok h (Exclusive v) = (version h = v \<and>
     (\<exists>c. even c \<and> can_advance_readable_version c \<and> v = c + 1))"
| "pc_ok h _ = True"

definition lock_inv :: "('l \<Rightarrow> bool) \<Rightarrow> ('l \<Rightarrow> nat) \<Rightarrow> 'l \<Rightarrow> (nat \<Rightarrow> 'd latch_pc) \<Rightarrow> bool" where
  "lock_inv writer readers l pcs =
     ((writer l \<longleftrightarrow> (\<exists>t. holds_exclusive (pcs t))) \<and>
      (\<forall>t u. holds_exclusive (pcs t) \<longrightarrow> holds_exclusive (pcs u) \<longrightarrow> t = u) \<and>
      finite {t. holds_shared (pcs t)} \<and> readers l = card {t. holds_shared (pcs t)} \<and>
      (writer l \<longrightarrow> readers l = 0))"

definition version_inv :: "('l, 'd) HybridLatch \<Rightarrow> (nat \<Rightarrow> 'd latch_pc) \<Rightarrow> bool" where
  "version_inv h pcs =
     ((\<forall>t. pc_ok h (pcs t)) \<and> (odd (version h) \<longrightarrow> (\<exists>t v. pcs t = Exclusive v)))"

lemma holders_update:
  "{u. holds_shared ((pcs(t := pc)) u)} =
     (if holds_shared pc then insert t {u. holds_shared (pcs u)}
      else {u. holds_shared (pcs u)} - {t})"
  by auto

lemma lock_inv_same:
  "lock_inv writer readers l pcs \<Longrightarrow> holds_exclusive pc' = holds_exclusive (pcs t) \<Longrightarrow>
    holds_shared pc' = holds_shared (pcs t) \<Longrightarrow> lock_inv writer readers l (pcs(t := pc'))"
proof -
  assume a: "lock_inv writer readers l pcs" "holds_exclusive pc' = holds_exclusive (pcs t)"
    "holds_shared pc' = holds_shared (pcs t)"
  have "\<And>u. holds_shared ((pcs(t := pc')) u) = holds_shared (pcs u)"
    "\<And>u. holds_exclusive ((pcs(t := pc')) u) = holds_exclusive (pcs u)"
    using a by auto
  then show ?thesis using a(1) by (simp only: lock_inv_def) auto
qed

lemma lock_inv_others:
  assumes "lock_inv writer readers l pcs" "holds_exclusive (pcs t)" "u \<noteq> t"
  shows "\<not> holds_exclusive (pcs u)" "\<not> holds_shared (pcs u)"
  using assms by (auto simp: lock_inv_def)

lemma lock_inv_acquire_exclusive:
  assumes "rw_lock_laws L unlocked writer readers" "lock_inv writer readers l pcs"
    and "rw_try_lock_exclusive L l = Some l'" "holds_exclusive pc'"
  shows "lock_inv writer readers l' (pcs(t := pc'))"
proof -
  have l: "\<not> writer l" "readers l = 0" "writer l'" "readers l' = 0"
    using assms(1,3) unfolding rw_lock_laws_def by blast+
  then have none: "\<And>u. \<not> holds_exclusive (pcs u)" "\<And>u. \<not> holds_shared (pcs u)"
    using assms(2) by (auto simp: lock_inv_def)
  have "\<not> holds_shared pc'" using assms(4) by (cases pc') auto
  with none l assms(4) show ?thesis by (auto simp: lock_inv_def)
qed

lemma lock_inv_release_exclusive:
  assumes "rw_lock_laws L unlocked writer readers" "lock_inv writer readers l pcs"
    and "holds_exclusive (pcs t)"
  shows "lock_inv writer readers (rw_unlock_exclusive L l) (pcs(t := Idle))"
proof -
  have w: "writer l" "readers l = 0" using assms(2,3) by (auto simp: lock_inv_def)
  then have l: "\<not> writer (rw_unlock_exclusive L l)" "readers (rw_unlock_exclusive L l) = 0"
    using assms(1) unfolding rw_lock_laws_def by metis+
  have none: "\<And>u. u \<noteq> t \<Longrightarrow> \<not> holds_exclusive (pcs u)" "\<And>u. \<not> holds_shared (pcs u)"
    using assms(2,3) w by (auto simp: lock_inv_def)
  then show ?thesis using l by (auto simp: lock_inv_def)
qed

lemma lock_inv_acquire_shared:
  assumes "rw_lock_laws L unlocked writer readers" "lock_inv writer readers l pcs"
    and "rw_try_lock_shared L l = Some l'" "holds_shared pc'"
    and "\<not> holds_shared (pcs t)"
  shows "lock_inv writer readers l' (pcs(t := pc'))"
proof -
  have l: "\<not> writer l" "\<not> writer l'" "readers l' = Suc (readers l)"
    using assms(1,3) unfolding rw_lock_laws_def by blast+
  have "\<not> holds_exclusive pc'" using assms(4) by (cases pc') auto
  then have "\<And>u. \<not> holds_exclusive ((pcs(t := pc')) u)"
    using assms(2) l(1) by (auto simp: lock_inv_def)
  moreover have "{u. holds_shared ((pcs(t := pc')) u)} = insert t {u. holds_shared (pcs u)}"
    using assms(4) by auto
  ultimately show ?thesis
    using assms(2,5) l by (simp add: lock_inv_def del: fun_upd_apply)
qed

lemma lock_inv_release_shared:
  assumes "rw_lock_laws L unlocked writer readers" "lock_inv writer readers l pcs"
    and "holds_shared (pcs t)"
  shows "lock_inv writer readers (rw_unlock_shared L l) (pcs(t := Idle))"
proof -
  let ?S = "{u. holds_shared (pcs u)}"
  have fin: "finite ?S" "readers l = card ?S" "t \<in> ?S"
    using assms(2,3) by (auto simp: lock_inv_def)
  then have pos: "readers l > 0" by (metis card_gt_0_iff empty_iff)
  then have l: "writer (rw_unlock_shared L l) = writer l"
      "readers (rw_unlock_shared L l) = readers l - 1"
    using assms(1) unfolding rw_lock_laws_def by blast+
  have "\<not> writer l" using assms(2) pos by (auto simp: lock_inv_def)
  then have "\<And>u. \<not> holds_exclusive ((pcs(t := Idle)) u)"
    using assms(2) by (auto simp: lock_inv_def)
  moreover have "{u. holds_shared ((pcs(t := Idle)) u)} = ?S - {t}"
    by auto
  moreover have "card (?S - {t}) = readers l - 1" using fin by simp
  ultimately show ?thesis
    using fin(1) l \<open>\<not> writer l\<close> by (simp add: lock_inv_def del: fun_upd_apply)
qed

lemma pc_ok_quiet:
  assumes "pc_ok h pc" "\<not> holds_exclusive pc" "\<not> holds_shared pc"
    and "version h < version h' \<or> version h' = version h \<and> odd (version h)"
  shows "pc_ok h' pc"
  using assms by (cases pc) (auto simp: snapshot_ok_def)

lemma version_inv_update:
  assumes "lock_inv writer readers l pcs" "version_inv h pcs" "holds_exclusive (pcs t)"
    and "version h < version h' \<or> version h' = version h \<and> odd (version h)"
    and "pc_ok h' pc'" "odd (version h') \<longrightarrow> (\<exists>v. pc' = Exclusive v)"
  shows "version_inv h' (pcs(t := pc'))"
proof -
  have "pc_ok h' (pcs u)" if "u \<noteq> t" for u
    using lock_inv_others [OF assms(1,3) that] assms(2,4) pc_ok_quiet
    by (metis version_inv_def)
  then show ?thesis using assms(5,6) by (auto simp: version_inv_def)
qed

lemma version_inv_keep:
  assumes "version_inv h pcs" "\<forall>v. pcs t \<noteq> Exclusive v" "pc_ok h pc'"
    and "version h' = version h" "protected h' = protected h"
  shows "version_inv h' (pcs(t := pc'))"
proof -
  have "pc_ok h' pc = pc_ok h pc" for pc
    using assms(4,5) by (cases pc) (auto simp: snapshot_ok_def)
  then show ?thesis
    using assms(1-3) unfolding version_inv_def by (auto simp: assms(4)) metis
qed

lemma latch_inv_init:
  "rw_lock_laws L unlocked writer readers \<Longrightarrow>
    lock_inv writer readers unlocked (\<lambda>_. Idle) \<and> version_inv (new_latch unlocked d) (\<lambda>_. Idle)"
  by (simp add: lock_inv_def version_inv_def new_latch_def rw_lock_laws_def)

definition latch_inv ::
    "('l \<Rightarrow> bool) \<Rightarrow> ('l \<Rightarrow> nat) \<Rightarrow> ('l, 'd) HybridLatch \<Rightarrow> (nat \<Rightarrow> 'd latch_pc) \<Rightarrow> bool" where
  "latch_inv writer readers h pcs =
     (lock_inv writer readers (mutex h) pcs \<and> version_inv h pcs)"

lemma latch_invD:
  assumes "latch_inv writer readers h pcs"
  shows "pc_ok h (pcs t)"
    and "holds_exclusive (pcs t) \<Longrightarrow> \<forall>v. pcs t \<noteq> Exclusive v \<Longrightarrow> even (version h)"
    and "holds_shared (pcs t) \<Longrightarrow> even (version h)"
proof -
  show "pc_ok h (pcs t)" using assms by (simp add: latch_inv_def version_inv_def)
  have others: "u = t" if "holds_exclusive (pcs t)" "pcs u = Exclusive v" for u v
  proof (rule ccontr)
    assume "u \<noteq> t"
    with that show False
      using lock_inv_others(1) assms unfolding latch_inv_def by (metis holds_exclusive.simps(4))
  qed
  then show "holds_exclusive (pcs t) \<Longrightarrow> \<forall>v. pcs t \<noteq> Exclusive v \<Longrightarrow> even (version h)"
    using assms unfolding latch_inv_def version_inv_def by metis
  show "even (version h)" if "holds_shared (pcs t)"
  proof (rule ccontr)
    assume "odd (version h)"
    then obtain u v where u: "pcs u = Exclusive v"
      using assms unfolding latch_inv_def version_inv_def by blast
    then have "t \<noteq> u" using that by auto
    then show False
      using that u lock_inv_others(2) assms unfolding latch_inv_def
      by (metis holds_exclusive.simps(4))
  qed
qed

lemma latch_inv_lock_exclusive:
  assumes laws: "rw_lock_laws L unlocked writer readers"
    and step: "lock_exclusive_step L (h, pcs t) (h', pc')" and inv: "latch_inv writer readers h pcs"
  shows "latch_inv writer readers h' (pcs(t := pc'))"
  using step
proof cases
  case (acquire l')
  then show ?thesis
    using inv lock_inv_acquire_exclusive [OF laws, of "mutex h" pcs l' pc' t] version_inv_keep [of h pcs t pc' h']
    by (simp add: latch_inv_def)
next
  case load
  then show ?thesis
    using inv lock_inv_same [of writer readers "mutex h" pcs] version_inv_keep [of h pcs t pc' h']
    by (simp add: latch_inv_def)
next
  case (enter c v)
  have v: "version h = c" using latch_invD(1) [OF inv, of t] enter by simp
  have ev: "even c" using latch_invD(2) [OF inv, of t] enter v by simp
  show ?thesis
    using inv enter v ev lock_inv_same [of writer readers "mutex h" pcs "Exclusive v" t]
      version_inv_update [of writer readers "mutex h" pcs h t h' "Exclusive v"]
      version_lt_entered [of c]
    by (auto simp: latch_inv_def enter_even)
next
  case (overflow c)
  then show ?thesis
    using inv lock_inv_same [of writer readers "mutex h" pcs] version_inv_keep [of h pcs t pc' h']
    by (simp add: latch_inv_def)
next
  case unlock
  then show ?thesis
    using inv lock_inv_release_exclusive [OF laws, of "mutex h" pcs t] version_inv_keep [of h pcs t pc' h']
    by (simp add: latch_inv_def)
qed

lemma latch_inv_lock_shared:
  assumes laws: "rw_lock_laws L unlocked writer readers"
    and step: "lock_shared_step L (h, pcs t) (h', pc')" and inv: "latch_inv writer readers h pcs"
  shows "latch_inv writer readers h' (pcs(t := pc'))"
  using step
proof cases
  case (acquire l')
  then show ?thesis
    using inv lock_inv_acquire_shared [OF laws, of "mutex h" pcs l' pc' t] version_inv_keep [of h pcs t pc' h']
    by (simp add: latch_inv_def)
next
  case load
  then show ?thesis
    using inv lock_inv_same [of writer readers "mutex h" pcs] version_inv_keep [of h pcs t pc' h']
      latch_invD(3) [OF inv, of t]
    by (simp add: latch_inv_def snapshot_ok_def)
next
  case (leave v seen)
  then show ?thesis
    using inv lock_inv_same [of writer readers "mutex h" pcs] version_inv_keep [of h pcs t pc' h']
    by (simp add: latch_inv_def)
next
  case unlock
  then show ?thesis
    using inv lock_inv_release_shared [OF laws, of "mutex h" pcs t] version_inv_keep [of h pcs t pc' h']
    by (simp add: latch_inv_def)
qed

lemma latch_inv_upgrade_exclusive:
  assumes laws: "rw_lock_laws L unlocked writer readers"
    and step: "upgrade_to_exclusive_step L (h, pcs t) (h', pc')"
    and inv: "latch_inv writer readers h pcs"
  shows "latch_inv writer readers h' (pcs(t := pc'))"
  using step
proof cases
  case (acquire l' v seen)
  then show ?thesis
    using inv lock_inv_acquire_exclusive [OF laws, of "mutex h" pcs l' pc' t] version_inv_keep [of h pcs t pc' h']
      latch_invD(1) [OF inv, of t]
    by (simp add: latch_inv_def)
next
  case (swapped v new old v' seen)
  have v: "version h = v" "v' = new" using swapped by (auto simp: cell_cas_def split: if_splits)
  have ev: "even v" using latch_invD(2) [OF inv, of t] swapped v by simp
  show ?thesis
    using inv swapped v ev lock_inv_same [of writer readers "mutex h" pcs "Exclusive new" t]
      version_inv_update [of writer readers "mutex h" pcs h t h' "Exclusive new"]
      version_lt_entered [of v]
    by (auto simp: latch_inv_def enter_even)
next
  case (refused v new old v' seen)
  then have "v' = version h" by (auto simp: cell_cas_def split: if_splits)
  with refused show ?thesis
    using inv lock_inv_same [of writer readers "mutex h" pcs] version_inv_keep [of h pcs t pc' h']
    by (simp add: latch_inv_def)
qed (use inv lock_inv_same [of writer readers "mutex h" pcs] version_inv_keep [of h pcs t pc' h']
     in \<open>simp_all add: latch_inv_def\<close>)

lemma latch_inv_upgrade_shared:
  assumes laws: "rw_lock_laws L unlocked writer readers"
    and step: "upgrade_to_shared_step L (h, pcs t) (h', pc')"
    and inv: "latch_inv writer readers h pcs"
  shows "latch_inv writer readers h' (pcs(t := pc'))"
  using step
proof cases
  case (acquire l' v seen)
  then show ?thesis
    using inv lock_inv_acquire_shared [OF laws, of "mutex h" pcs l' pc' t] version_inv_keep [of h pcs t pc' h']
      latch_invD(1) [OF inv, of t]
    by (simp add: latch_inv_def)
qed (use inv lock_inv_same [of writer readers "mutex h" pcs] version_inv_keep [of h pcs t pc' h']
      latch_invD(1) [OF inv, of t]
     in \<open>simp_all add: latch_inv_def optimistic_snapshot_still_valid_def\<close>)

lemma latch_inv_drop:
  assumes step: "exclusive_drop_step (h, pcs t) (h', pc')" and inv: "latch_inv writer readers h pcs"
  shows "latch_inv writer readers h' (pcs(t := pc'))"
  using step
proof cases
  case (publish v nv)
  obtain c where c: "even c" "can_advance_readable_version c" "v = c + 1" "version h = v"
    using latch_invD(1) [OF inv, of t] publish by auto
  then have "nv = c + 2" using publish exit_entered by simp
  then show ?thesis
    using inv publish c lock_inv_same [of writer readers "mutex h" pcs "Exclusive_release" t]
      version_inv_update [of writer readers "mutex h" pcs h t h' "Exclusive_release"]
      version_lt_entered [of c]
    by (auto simp: latch_inv_def)
next
  case (overflow v)
  then show ?thesis using latch_invD(1) [OF inv, of t] exit_entered by auto
qed

lemma latch_inv_access:
  assumes step: "access_step (h, pcs t) (h', pc')" and inv: "latch_inv writer readers h pcs"
  shows "latch_inv writer readers h' (pcs(t := pc'))"
  using step
proof cases
  case (write_data v d)
  have "version h = v" "odd v" using latch_invD(1) [OF inv, of t] write_data by auto
  then show ?thesis
    using inv write_data lock_inv_same [of writer readers "mutex h" pcs "Exclusive v" t]
      version_inv_update [of writer readers "mutex h" pcs h t h' "Exclusive v"]
      latch_invD(1) [OF inv, of t]
    by (auto simp: latch_inv_def)
qed (use inv lock_inv_same [of writer readers "mutex h" pcs] version_inv_keep [of h pcs t pc' h']
      latch_invD(1) [OF inv, of t]
     in \<open>simp_all add: latch_inv_def snapshot_ok_def\<close>)

lemma latch_inv_thread_step:
  assumes "rw_lock_laws L unlocked writer readers" "thread_step L (h, pcs t) (h', pc')"
    and inv: "latch_inv writer readers h pcs"
  shows "latch_inv writer readers h' (pcs(t := pc'))"
proof -
  have begin_section: "latch_inv writer readers h' (pcs(t := pc'))"
    if "pcs t = Idle" "h' = h" "pc' = Optimistic (version h) []" "even (version h)"
    using that inv lock_inv_same [of writer readers "mutex h" pcs pc' t]
      version_inv_keep [of h pcs t pc' h']
    by (simp add: latch_inv_def snapshot_ok_def)
  from assms(2) consider
      "optimistic_or_restart_step (h, pcs t) (h', pc') \<or> optimistic_spin_step (h, pcs t) (h', pc')"
    | "lock_exclusive_step L (h, pcs t) (h', pc') \<or> lock_shared_step L (h, pcs t) (h', pc')"
    | "upgrade_to_exclusive_step L (h, pcs t) (h', pc') \<or>
        upgrade_to_shared_step L (h, pcs t) (h', pc')"
    | "exclusive_drop_step (h, pcs t) (h', pc') \<or> access_step (h, pcs t) (h', pc')"
    unfolding thread_step_def by blast
  then show ?thesis
  proof cases
    case 1
    then show ?thesis
      using begin_section
      by (auto elim!: optimistic_or_restart_step.cases optimistic_spin_step.cases
          simp: optimistic_snapshot_def optimistic_read_allowed_def version_is_exclusive_odd
          split: if_splits)
  qed (use assms latch_inv_lock_exclusive latch_inv_lock_shared latch_inv_upgrade_exclusive
        latch_inv_upgrade_shared latch_inv_drop latch_inv_access in metis)+
qed

lemma latch_inv_reachable:
  assumes "rw_lock_laws L unlocked writer readers" "latch_reachable L unlocked d h pcs"
  shows "latch_inv writer readers h pcs"
  using assms(2)
proof induction
  case init
  then show ?case using latch_inv_init [OF assms(1), of d] by (simp add: latch_inv_def new_latch_def)
next
  case (step h pcs t h' pc')
  then show ?case using latch_inv_thread_step [OF assms(1)] by blast
qed

section \<open>Correctness of the latch\<close>

text \<open>A concrete inner lock: a writer flag and a count of readers.\<close>

definition counting_lock :: "(bool \<times> nat) raw_rw_lock" where
  "counting_lock = \<lparr>
     rw_try_lock_exclusive = (\<lambda>(w, n). if \<not> w \<and> n = 0 then Some (True, 0) else None),
     rw_try_lock_shared = (\<lambda>(w, n). if \<not> w then Some (False, Suc n) else None),
     rw_unlock_exclusive = (\<lambda>(w, n). (False, n)),
     rw_unlock_shared = (\<lambda>(w, n). (w, n - 1)) \<rparr>"

lemma counting_lock_laws: "rw_lock_laws counting_lock (False, 0) fst snd"
  by (auto simp: rw_lock_laws_def counting_lock_def split: if_splits prod.splits)

text \<open>C8: readers see consistent data. In every interleaving of threads on a latch, when an
  optimistic reader's \<open>validate\<close> succeeds, everything it has read since it took its snapshot is
  the data the latch protects at that moment, and no thread is inside an exclusive section; the
  same holds at any time for a shared guard, whose recorded version is moreover still the live
  one.\<close>

theorem validated_reads_consistent:
  assumes "rw_lock_laws L unlocked writer readers" "latch_reachable L unlocked d h pcs"
    and "pcs t = Optimistic v seen \<and> optimistic_validate h v \<or> pcs t = Shared v seen"
  shows "(\<forall>x \<in> set seen. x = protected h) \<and> version h = v \<and> (\<forall>u w. pcs u \<noteq> Exclusive w)"
proof -
  have inv: "latch_inv writer readers h pcs" by (rule latch_inv_reachable [OF assms(1,2)])
  have v: "version h = v" "snapshot_ok h v seen"
    using assms(3) latch_invD(1) [OF inv, of t]
    by (auto simp: optimistic_validate_def optimistic_restart_required_def
        optimistic_snapshot_still_valid_def split: if_splits)
  then have "even (version h)" by (simp add: snapshot_ok_def)
  moreover have "pcs u = Exclusive w \<Longrightarrow> odd (version h)" for u w
    using latch_invD(1) [OF inv, of u] by auto
  ultimately show ?thesis using v by (auto simp: snapshot_ok_def)
qed

theorem validated_reads_consistent_witness:
  "\<exists>h pcs. latch_reachable counting_lock (False, 0) (5 :: nat) h pcs \<and>
     pcs 0 = Optimistic 0 [5] \<and> (\<forall>x \<in> set [5]. x = protected h)"
proof -
  let ?h = "new_latch (False, 0) (5 :: nat) :: (bool \<times> nat, nat) HybridLatch"
  have "thread_step counting_lock (?h, Idle) (?h, Optimistic 0 [])"
    by (simp add: thread_step_def optimistic_or_restart_step.simps new_latch_def
        optimistic_snapshot_def optimistic_read_allowed_def version_is_exclusive_odd)
  then have 1: "latch_reachable counting_lock (False, 0) 5 ?h ((\<lambda>_. Idle)(0 := Optimistic 0 []))"
    by (rule latch_reachable.step [OF latch_reachable.init, where t = 0])
  have "thread_step counting_lock (?h, ((\<lambda>_. Idle)(0 := Optimistic 0 [])) 0) (?h, Optimistic 0 [5])"
    using access_step.read_optimistic [of ?h 0 "[]"] by (simp add: thread_step_def new_latch_def)
  then have 2: "latch_reachable counting_lock (False, 0) 5 ?h
      ((\<lambda>_. Idle)(0 := Optimistic 0 [], 0 := Optimistic 0 [5]))"
    by (rule latch_reachable.step [OF 1])
  have "optimistic_validate ?h 0"
    by (simp add: optimistic_validate_def optimistic_restart_required_def
        optimistic_snapshot_still_valid_def new_latch_def)
  then have "\<forall>x \<in> set [5]. x = protected ?h"
    using validated_reads_consistent [OF counting_lock_laws 2, of 0 0 "[5]"] by simp
  with 2 show ?thesis by (intro exI [of _ ?h] exI) auto
qed

text \<open>C9: exclusive sections are exclusive and always end. While a thread holds an
  \<open>ExclusiveGuard\<close> no other thread holds the inner lock in any mode, a new optimistic section is
  refused and the snapshot of every optimistic section in progress fails to validate; and dropping
  the guard never panics but installs a readable version above every snapshot taken so far.\<close>

theorem exclusive_section_exclusive:
  assumes "rw_lock_laws L unlocked writer readers" "latch_reachable L unlocked d h pcs"
    and "pcs t = Exclusive v"
  shows "(\<forall>u. u \<noteq> t \<longrightarrow> \<not> holds_exclusive (pcs u) \<and> \<not> holds_shared (pcs u)) \<and>
    optimistic_snapshot (version h) = None \<and>
    (\<forall>u s seen. pcs u = Optimistic s seen \<longrightarrow> \<not> optimistic_validate h s) \<and>
    (\<exists>nv. exit_exclusive_version v = Some nv \<and> optimistic_snapshot nv = Some nv \<and>
      (\<forall>u s seen. pcs u = Optimistic s seen \<longrightarrow> s < nv))"
proof -
  have inv: "latch_inv writer readers h pcs" by (rule latch_inv_reachable [OF assms(1,2)])
  obtain c where c: "even c" "can_advance_readable_version c" "v = c + 1" "version h = v"
    using latch_invD(1) [OF inv, of t] assms(3) by auto
  have snap: "even s \<and> s \<le> v" if "pcs u = Optimistic s seen" for u s seen
    using latch_invD(1) [OF inv, of u] that c(4) by (simp add: snapshot_ok_def)
  have "\<forall>u. u \<noteq> t \<longrightarrow> \<not> holds_exclusive (pcs u) \<and> \<not> holds_shared (pcs u)"
    using lock_inv_others inv assms(3) unfolding latch_inv_def by (metis holds_exclusive.simps(4))
  moreover have "\<not> optimistic_validate h s" if "pcs u = Optimistic s seen" for u s seen
    using snap [OF that] c
    by (auto simp: optimistic_validate_def optimistic_restart_required_def
        optimistic_snapshot_still_valid_def)
  moreover have "s < c + 2" if "pcs u = Optimistic s seen" for u s seen
    using snap [OF that] version_lt_entered [OF c(1,2)] c(3)
    by (metis order_le_less_trans)
  moreover have "optimistic_snapshot (version h) = None" "optimistic_snapshot (c + 2) = Some (c + 2)"
    using c by (simp_all add: optimistic_snapshot_def optimistic_read_allowed_def
        version_is_exclusive_odd)
  ultimately show ?thesis using exit_entered [OF c(1,2)] c(3) by blast
qed

theorem exclusive_section_exclusive_witness:
  "\<exists>h pcs. latch_reachable counting_lock (False, 0) (5 :: nat) h pcs \<and> pcs 0 = Exclusive 1 \<and>
     exit_exclusive_version 1 = Some 2 \<and> optimistic_snapshot (version h) = None"
proof -
  let ?h0 = "new_latch (False, 0) (5 :: nat) :: (bool \<times> nat, nat) HybridLatch"
  let ?h1 = "?h0\<lparr>mutex := (True, 0)\<rparr>" and ?h2 = "?h0\<lparr>mutex := (True, 0), version := 1\<rparr>"
  let ?p1 = "(\<lambda>_. Idle)(0 := Exclusive_locked)" and ?p2 = "(\<lambda>_. Idle)(0 := Exclusive_loaded 0)"
  let ?p3 = "(\<lambda>_. Idle)(0 := Exclusive 1)"
  have "lock_exclusive_step counting_lock (?h0, Idle) (?h1, Exclusive_locked)"
    by (rule lock_exclusive_step.acquire) (simp add: counting_lock_def new_latch_def)
  then have "thread_step counting_lock (?h0, Idle) (?h1, Exclusive_locked)"
    by (simp only: thread_step_def simp_thms)
  then have 1: "latch_reachable counting_lock (False, 0) 5 ?h1 ?p1"
    by (rule latch_reachable.step [OF latch_reachable.init, where t = 0])
  have "thread_step counting_lock (?h1, ?p1 0) (?h1, Exclusive_loaded 0)"
    using lock_exclusive_step.load [of counting_lock ?h1] by (simp add: thread_step_def new_latch_def)
  from latch_reachable.step [OF 1 this]
  have 2: "latch_reachable counting_lock (False, 0) 5 ?h1 ?p2" by (simp only: fun_upd_upd)
  have "thread_step counting_lock (?h1, ?p2 0) (?h2, Exclusive 1)"
    using lock_exclusive_step.enter [of 0 1 counting_lock ?h1]
    by (simp add: thread_step_def enter_even can_advance_readable_version_def)
  from latch_reachable.step [OF 2 this]
  have 3: "latch_reachable counting_lock (False, 0) 5 ?h2 ?p3" by (simp only: fun_upd_upd)
  have "optimistic_snapshot (version ?h2) = None"
    using exclusive_section_exclusive [OF counting_lock_laws 3, of 0 1] by simp
  moreover have "exit_exclusive_version 1 = Some 2"
    using exit_entered [of 0] by (simp add: can_advance_readable_version_def)
  ultimately show ?thesis using 3 by (intro exI [of _ ?h2] exI [of _ ?p3]) simp
qed

end
