(* ===== verification/Page_Header.thy ===== *)
theory Page_Header
  imports Prelude Frame_Kernel
begin

text \<open>
  The common prefix of every page, \<open>crates/storage/src/page_header.rs\<close>: the recovery LSN in the
  first eight bytes and the flag word at offset 18, whose bits 8 to 11 hold the page type. All
  accessors are total on byte slices of any length, as in the source.
\<close>

datatype PageType =
  Unknown | Index | Tuple | Delta | Meta | RootMeta | BeTreeInternal | BeTreeLeaf

primrec page_type_tag :: "PageType \<Rightarrow> byte" where
  "page_type_tag Unknown = 0"
| "page_type_tag Index = 1"
| "page_type_tag Tuple = 2"
| "page_type_tag Delta = 3"
| "page_type_tag Meta = 4"
| "page_type_tag RootMeta = 5"
| "page_type_tag BeTreeInternal = 6"
| "page_type_tag BeTreeLeaf = 7"

definition page_type_from_u8 :: "byte \<Rightarrow> PageType" where
  "page_type_from_u8 v =
     (if v = 1 then Index else if v = 2 then Tuple else if v = 3 then Delta
      else if v = 4 then Meta else if v = 5 then RootMeta else if v = 6 then BeTreeInternal
      else if v = 7 then BeTreeLeaf else Unknown)"

definition FLAGS_OFF :: nat where "FLAGS_OFF = 18"
definition PAGE_LSN_OFF :: nat where "PAGE_LSN_OFF = 0"
definition PAGE_LSN_LEN :: nat where "PAGE_LSN_LEN = 8"
definition PAGE_TYPE_SHIFT :: nat where "PAGE_TYPE_SHIFT = 8"
definition PAGE_TYPE_MASK :: "16 word" where "PAGE_TYPE_MASK = 0x0F00"
definition INDEX_LEAF_FLAG :: "16 word" where "INDEX_LEAF_FLAG = 0x0002"

definition read_page_lsn :: "bytes \<Rightarrow> Lsn" where
  "read_page_lsn page =
     (if PAGE_LSN_OFF + PAGE_LSN_LEN \<le> length page
      then word_of_nat (rd PAGE_LSN_LEN PAGE_LSN_OFF page) else 0)"

definition write_page_lsn :: "Lsn \<Rightarrow> bytes \<Rightarrow> bytes" where
  "write_page_lsn lsn page =
     (if PAGE_LSN_OFF + PAGE_LSN_LEN \<le> length page
      then wr PAGE_LSN_LEN PAGE_LSN_OFF (unat lsn) page else page)"

definition read_page_type :: "bytes \<Rightarrow> PageType" where
  "read_page_type page =
     (if FLAGS_OFF + 2 \<le> length page then
        let flags = word_of_nat (rd 2 FLAGS_OFF page) :: 16 word in
        page_type_from_u8 (ucast (drop_bit PAGE_TYPE_SHIFT (flags AND PAGE_TYPE_MASK)))
      else Unknown)"

definition write_page_type :: "PageType \<Rightarrow> bytes \<Rightarrow> bytes" where
  "write_page_type pt page =
     (if FLAGS_OFF + 2 \<le> length page then
        let flags = word_of_nat (rd 2 FLAGS_OFF page) :: 16 word;
            flags = (flags AND NOT PAGE_TYPE_MASK) OR
              push_bit PAGE_TYPE_SHIFT (ucast (page_type_tag pt)) in
        wr 2 FLAGS_OFF (unat flags) page
      else page)"

definition is_inner_index_page :: "bytes \<Rightarrow> bool" where
  "is_inner_index_page page =
     (if FLAGS_OFF + 2 \<le> length page then
        let flags = word_of_nat (rd 2 FLAGS_OFF page) :: 16 word;
            pt = ucast (drop_bit PAGE_TYPE_SHIFT (flags AND PAGE_TYPE_MASK)) :: byte in
        pt = page_type_tag Index \<and> flags AND INDEX_LEAF_FLAG = 0
      else False)"

definition should_remain_resident :: "bytes \<Rightarrow> bool" where
  "should_remain_resident page =
     (case read_page_type page of Meta \<Rightarrow> True | RootMeta \<Rightarrow> True | _ \<Rightarrow> False)"

definition classify_loaded_page :: "bytes \<Rightarrow> PageType" where
  "classify_loaded_page page = read_page_type page"

section \<open>Round trips\<close>

interpretation page_type: codec page_type_tag "\<lambda>v. Some (page_type_from_u8 v)"
proof unfold_locales
  fix x show "Some (page_type_from_u8 (page_type_tag x)) = Some x"
    by (cases x) (simp_all add: page_type_from_u8_def)
qed

lemma unat_u16_less: "unat (w :: 16 word) < 256 ^ 2"
  using unsigned_less [of w, where 'a = nat] by simp

lemma length_write_page_lsn [simp]: "length (write_page_lsn lsn page) = length page"
  by (simp add: write_page_lsn_def)

lemma length_write_page_type [simp]: "length (write_page_type pt page) = length page"
  by (simp add: write_page_type_def Let_def)

lemma read_write_page_lsn [simp]:
  "8 \<le> length page \<Longrightarrow> read_page_lsn (write_page_lsn lsn page) = lsn"
  using unat_u64_less [of lsn]
  by (simp add: read_page_lsn_def write_page_lsn_def PAGE_LSN_OFF_def PAGE_LSN_LEN_def rd_wr_same)

lemma rd_write_page_lsn: "8 \<le> off \<Longrightarrow> rd n off (write_page_lsn lsn page) = rd n off page"
  by (simp add: write_page_lsn_def PAGE_LSN_OFF_def PAGE_LSN_LEN_def rd_wr_disjoint)

lemma read_page_lsn_take: "8 \<le> length page \<Longrightarrow> read_page_lsn page = word_of_nat (le_val (take 8 page))"
  by (simp add: read_page_lsn_def PAGE_LSN_OFF_def PAGE_LSN_LEN_def rd_def read_at_def)

lemma PAGE_TYPE_MASK_bits: "bit PAGE_TYPE_MASK n \<longleftrightarrow> 8 \<le> n \<and> n < 12"
proof -
  have m: "PAGE_TYPE_MASK = push_bit 8 (mask 4)"
    by (simp add: PAGE_TYPE_MASK_def mask_eq_exp_minus_1)
  show ?thesis unfolding m bit_push_bit_iff bit_mask_iff by auto
qed

lemma page_type_tag_bits: "bit (page_type_tag pt) n \<Longrightarrow> n < 3"
proof -
  have "page_type_tag pt = take_bit 3 (page_type_tag pt)" by (cases pt) simp_all
  then show "bit (page_type_tag pt) n \<Longrightarrow> n < 3" by (metis bit_take_bit_iff)
qed

lemma tagged_flags:
  fixes flags :: "16 word" and pt :: PageType
  defines "flags' \<equiv> (flags AND NOT PAGE_TYPE_MASK) OR push_bit 8 (ucast (page_type_tag pt))"
  shows "(ucast (drop_bit 8 (flags' AND PAGE_TYPE_MASK)) :: byte) = page_type_tag pt"
    and "flags' AND NOT PAGE_TYPE_MASK = flags AND NOT PAGE_TYPE_MASK"
  unfolding flags'_def
  by (simp add: word_bits_eq bit_simps PAGE_TYPE_MASK_bits; auto dest: page_type_tag_bits)+

definition page_flags :: "bytes \<Rightarrow> 16 word" where
  "page_flags page = word_of_nat (rd 2 FLAGS_OFF page)"

lemma page_flags_wr: "20 \<le> length page \<Longrightarrow> page_flags (wr 2 FLAGS_OFF (unat w) page) = w"
  using unat_u16_less [of w] by (simp add: page_flags_def FLAGS_OFF_def rd_wr_same)

lemma page_flags_write_page_type:
  "20 \<le> length page \<Longrightarrow> page_flags (write_page_type pt page) =
     (page_flags page AND NOT PAGE_TYPE_MASK) OR push_bit 8 (ucast (page_type_tag pt))"
  using page_flags_wr [of page]
  by (simp add: write_page_type_def page_flags_def FLAGS_OFF_def PAGE_TYPE_SHIFT_def Let_def)

lemma read_page_type_flags:
  "20 \<le> length page \<Longrightarrow> read_page_type page =
     page_type_from_u8 (ucast (drop_bit 8 (page_flags page AND PAGE_TYPE_MASK)))"
  by (simp add: read_page_type_def page_flags_def FLAGS_OFF_def PAGE_TYPE_SHIFT_def Let_def)

text \<open>C21: the fields of the page prefix are independent and read back. Writing a page type and an
  LSN into a page of at least 20 bytes, in this order, leaves a page that reads back exactly that
  type and that LSN; the flag bits outside the type field keep their value, and every byte outside
  the LSN and the flag word is untouched.\<close>

theorem page_prefix_round_trip:
  fixes lsn :: Lsn and pt :: PageType
  assumes "20 \<le> length page"
  defines "page' \<equiv> write_page_lsn lsn (write_page_type pt page)"
  shows "read_page_type page' = pt \<and> read_page_lsn page' = lsn \<and> length page' = length page \<and>
    page_flags page' AND NOT PAGE_TYPE_MASK = page_flags page AND NOT PAGE_TYPE_MASK \<and>
    (\<forall>i. 8 \<le> i \<and> i < 18 \<or> 20 \<le> i \<longrightarrow> page' ! i = page ! i)"
proof -
  have fl: "page_flags page' = page_flags (write_page_type pt page)"
    by (simp add: page'_def page_flags_def FLAGS_OFF_def rd_write_page_lsn)
  have "read_page_type page' = pt"
    using assms(1) page_type.dec_enc [of pt] tagged_flags(1) [of "page_flags page" pt]
    by (simp add: read_page_type_flags page'_def fl [unfolded page'_def]
        page_flags_write_page_type)
  moreover have "page_flags page' AND NOT PAGE_TYPE_MASK = page_flags page AND NOT PAGE_TYPE_MASK"
    using assms(1) tagged_flags(2) [of "page_flags page" pt]
    by (simp add: fl page_flags_write_page_type)
  moreover have "page' ! i = page ! i" if "8 \<le> i \<and> i < 18 \<or> 20 \<le> i" for i
    using assms(1) that
    by (auto simp: page'_def write_page_lsn_def write_page_type_def PAGE_LSN_OFF_def
        PAGE_LSN_LEN_def FLAGS_OFF_def Let_def nth_wr_outside)
  ultimately show ?thesis using assms(1) by (auto simp: page'_def)
qed

theorem page_prefix_round_trip_witness:
  "read_page_type (write_page_lsn 77 (write_page_type Index (replicate 24 0))) = Index"
  using page_prefix_round_trip [of "replicate 24 0" 77 Index] by simp

end
