(* ===== verification/Page_Mutation.thy ===== *)
theory Page_Mutation
  imports Prelude Frame_Kernel
begin

text \<open>
  \<open>PageMutation\<close> of \<open>crates/storage/src/buffer_pool.rs\<close>: the set of byte ranges one page mutation
  changed, at most eight of them, kept ordered and coalesced, with the full page image as the
  fallback. The inline array is represented by its initialised prefix, so \<open>len\<close> is the length of
  the list; elements past \<open>len\<close> are uninitialised in the source and never read.
\<close>

type_synonym range = "nat \<times> nat"

definition PAGE_MUTATION_MAX_RANGES :: nat where "PAGE_MUTATION_MAX_RANGES = 8"
definition PAGE_LSN_RANGE :: range where "PAGE_LSN_RANGE = (0, 8)"

record PageMutation =
  pm_ranges :: "range list"
  pm_full_image :: bool

definition new_mutation :: PageMutation where
  "new_mutation = \<lparr> pm_ranges = [], pm_full_image = False \<rparr>"

text \<open>The first loop of \<open>add_range\<close> counts the ranges that end before the new one starts.\<close>

fun skip_before :: "nat \<Rightarrow> range list \<Rightarrow> nat" where
  "skip_before start [] = 0"
| "skip_before start ((s, e) # rs) = (if e < start then Suc (skip_before start rs) else 0)"

text \<open>The second loop swallows the ranges the new one reaches: the grown range and their
  number.\<close>

fun absorb :: "nat \<Rightarrow> nat \<Rightarrow> range list \<Rightarrow> nat \<times> nat \<times> nat" where
  "absorb start end [] = (start, end, 0)"
| "absorb start end ((s, e) # rs) =
     (if s \<le> end then
        (case absorb (min start s) (max end e) rs of (a, b, n) \<Rightarrow> (a, b, Suc n))
      else (start, end, 0))"

definition add_range :: "range \<Rightarrow> PageMutation \<Rightarrow> PageMutation option" where
  "add_range r m = (case r of (start, end) \<Rightarrow> do {
     ensure (start < end);
     ensure (end \<le> PAGE_SIZE);
     ensure (start \<ge> snd PAGE_LSN_RANGE);
     if pm_full_image m then Some m
     else
       let rs = pm_ranges m; len = length rs in
       if len = 0 then Some (m\<lparr>pm_ranges := [(start, end)]\<rparr>)
       else
         let last = rs ! (len - 1) in
         if start \<ge> fst last then
           if start \<le> snd last then
             Some (m\<lparr>pm_ranges := rs[len - 1 := (fst last, max end (snd last))]\<rparr>)
           else if len = PAGE_MUTATION_MAX_RANGES then
             Some (m\<lparr>pm_ranges := [], pm_full_image := True\<rparr>)
           else Some (m\<lparr>pm_ranges := rs @ [(start, end)]\<rparr>)
         else
           let first = skip_before start rs;
               (start, end, absorbed) = absorb start end (drop first rs);
               after = first + absorbed in
           if first < after then
             Some (m\<lparr>pm_ranges := take (first + 1) (rs[first := (start, end)]) @ drop after rs\<rparr>)
           else if len = PAGE_MUTATION_MAX_RANGES then
             Some (m\<lparr>pm_ranges := [], pm_full_image := True\<rparr>)
           else Some (m\<lparr>pm_ranges := take first rs @ (start, end) # drop first rs\<rparr>) })"

definition mutation_is_empty :: "PageMutation \<Rightarrow> bool" where
  "mutation_is_empty m = (pm_ranges m = [] \<and> \<not> pm_full_image m)"

definition uses_full_image :: "PageMutation \<Rightarrow> bool" where
  "uses_full_image m = pm_full_image m"

definition mutation_ranges :: "PageMutation \<Rightarrow> range list" where
  "mutation_ranges m = pm_ranges m"

section \<open>The patch of a mutation\<close>

text \<open>\<open>patch_ranges\<close> of \<open>mark_dirty_ranges_raw\<close>: the new LSN, then the recorded ranges of the page
  that is logged.\<close>

definition patch_ranges :: "Lsn \<Rightarrow> bytes \<Rightarrow> PageMutation \<Rightarrow> (nat \<times> bytes) list" where
  "patch_ranges lsn source m =
     (fst PAGE_LSN_RANGE, le_bytes 8 (unat lsn)) #
     map (\<lambda>(start, end). (start, read_at start (end - start) source)) (mutation_ranges m)"

section \<open>Ordered, separated ranges\<close>

primrec separated :: "range list \<Rightarrow> bool" where
  "separated [] = True"
| "separated (r # rs) = (fst r < snd r \<and> (\<forall>q \<in> set rs. snd r < fst q) \<and> separated rs)"

definition covered :: "range list \<Rightarrow> nat set" where
  "covered rs = (\<Union>r \<in> set rs. {fst r ..< snd r})"

lemma covered_simps [simp]:
  "covered [] = {}"
  "covered (r # rs) = {fst r ..< snd r} \<union> covered rs"
  "covered (rs @ qs) = covered rs \<union> covered qs"
  by (auto simp: covered_def)

lemma separated_append:
  "separated (rs @ qs) \<longleftrightarrow> separated rs \<and> separated qs \<and>
    (\<forall>r \<in> set rs. \<forall>q \<in> set qs. snd r < fst q)"
  by (induction rs) auto

lemma separated_nonempty: "separated rs \<Longrightarrow> r \<in> set rs \<Longrightarrow> fst r < snd r"
  by (induction rs) auto

text \<open>What the caller of \<open>add_range\<close> may rely on at any time.\<close>

definition mutation_inv :: "PageMutation \<Rightarrow> bool" where
  "mutation_inv m =
     (separated (pm_ranges m) \<and> length (pm_ranges m) \<le> PAGE_MUTATION_MAX_RANGES \<and>
      (\<forall>r \<in> set (pm_ranges m). 8 \<le> fst r \<and> snd r \<le> PAGE_SIZE) \<and>
      (pm_full_image m \<longrightarrow> pm_ranges m = []))"

lemma skip_before_le: "skip_before start rs \<le> length rs"
  by (induction start rs rule: skip_before.induct) auto

lemma skip_before_taken: "r \<in> set (take (skip_before start rs) rs) \<Longrightarrow> snd r < start"
  by (induction start rs rule: skip_before.induct) (auto split: if_splits)

lemma skip_before_dropped:
  "separated rs \<Longrightarrow> r \<in> set (drop (skip_before start rs) rs) \<Longrightarrow> start \<le> snd r"
proof (induction start rs rule: skip_before.induct)
  case (2 start s e rs)
  then show ?case
  proof (cases "e < start")
    case False
    then have "r = (s, e) \<or> e < fst r \<and> fst r < snd r"
      using 2 separated_nonempty by auto
    then show ?thesis using False by auto
  qed auto
qed simp

lemma absorb_spec:
  assumes "absorb start end rs = (a, b, n)" "separated rs" "start < end"
    and "\<forall>r \<in> set rs. start \<le> snd r"
  shows "n \<le> length rs \<and> a \<le> start \<and> end \<le> b \<and> (\<forall>r \<in> set (drop n rs). b < fst r) \<and>
    (\<forall>x. (\<forall>r \<in> set rs. x < fst r) \<longrightarrow> x < start \<longrightarrow> x < a) \<and>
    {a ..< b} = {start ..< end} \<union> covered (take n rs) \<and>
    (n = 0 \<longrightarrow> a = start \<and> b = end)"
  using assms
proof (induction start "end" rs arbitrary: a b n rule: absorb.induct)
  case (1 start "end")
  then show ?case by simp
next
  case (2 start "end" s e rs)
  show ?case
  proof (cases "s \<le> end")
    case True
    obtain n' where n': "n = Suc n'" "absorb (min start s) (max end e) rs = (a, b, n')"
      using 2(2) True by (auto split: prod.splits)
    have sep: "separated rs" "s < e" "\<forall>q \<in> set rs. e < fst q" using 2(3) by auto
    have "\<forall>r \<in> set rs. min start s \<le> snd r"
      using 2(5) by (auto simp: min_le_iff_disj)
    then have IH: "n' \<le> length rs \<and> a \<le> min start s \<and> max end e \<le> b \<and>
      (\<forall>r \<in> set (drop n' rs). b < fst r) \<and>
      (\<forall>x. (\<forall>r \<in> set rs. x < fst r) \<longrightarrow> x < min start s \<longrightarrow> x < a) \<and>
      {a ..< b} = {min start s ..< max end e} \<union> covered (take n' rs)"
      using 2(1) [OF True n'(2) sep(1)] 2(4) by auto
    have "start \<le> e" using 2(5) by simp
    then have "{min start s ..< max end e} = {start ..< end} \<union> {s ..< e}"
      using True 2(4) sep(2) by auto
    then show ?thesis using IH n'(1) by auto
  next
    case False
    then have "a = start" "b = end" "n = 0" using 2(2) by auto
    then show ?thesis using False 2(3) by fastforce
  qed
qed

lemma separated_splice:
  assumes "separated rs" "start < end"
    and "absorb start end (drop (skip_before start rs) rs) = (a, b, n)"
  defines "f \<equiv> skip_before start rs"
  defines "rs' \<equiv> take f rs @ (a, b) # drop (f + n) rs"
  shows "separated rs'" "covered rs' = covered rs \<union> {start ..< end}"
    "f + n \<le> length rs" "a \<le> start" "end \<le> b"
proof -
  let ?pre = "take f rs" and ?post = "drop f rs"
  have split: "rs = ?pre @ ?post" by simp
  then have sep: "separated ?pre" "separated ?post" "\<forall>r \<in> set ?pre. \<forall>q \<in> set ?post. snd r < fst q"
    using assms(1) separated_append by metis+
  have after: "\<forall>r \<in> set ?post. start \<le> snd r"
    using skip_before_dropped [OF assms(1)] by (auto simp: f_def)
  have ab: "n \<le> length ?post \<and> a \<le> start \<and> end \<le> b \<and> (\<forall>r \<in> set (drop n ?post). b < fst r) \<and>
    (\<forall>x. (\<forall>r \<in> set ?post. x < fst r) \<longrightarrow> x < start \<longrightarrow> x < a) \<and>
    {a ..< b} = {start ..< end} \<union> covered (take n ?post) \<and> (n = 0 \<longrightarrow> a = start \<and> b = end)"
    using absorb_spec [OF assms(3) [folded f_def] sep(2) assms(2) after] .
  have pre: "\<forall>r \<in> set ?pre. snd r < a"
    using ab sep(3) skip_before_taken [of _ start rs] by (auto simp: f_def)
  have cat: "?post = take n ?post @ drop n ?post" by (rule append_take_drop_id [symmetric])
  have post: "separated (drop n ?post)" using sep(2) cat separated_append by metis
  have far: "snd r < fst q" if "r \<in> set ?pre" "q \<in> set (drop n ?post)" for r q
    using sep(3) that in_set_dropD by metis
  have "drop (f + n) rs = drop n ?post" by (simp add: add.commute)
  then have rs': "rs' = ?pre @ (a, b) # drop n ?post" by (simp add: rs'_def)
  show "separated rs'"
    unfolding rs' using sep(1) post pre ab assms(2) far
    by (auto simp: separated_append)
  have "covered rs = covered ?pre \<union> (covered (take n ?post) \<union> covered (drop n ?post))"
    using split cat covered_simps(3) by metis
  then show "covered rs' = covered rs \<union> {start ..< end}" unfolding rs' using ab by auto
  show "f + n \<le> length rs" using ab skip_before_le [of start rs] by (auto simp: f_def)
  show "a \<le> start" "end \<le> b" using ab by auto
qed

lemma bounded_covered:
  assumes "separated rs"
  shows "(\<forall>r \<in> set rs. lo \<le> fst r \<and> snd r \<le> hi) \<longleftrightarrow> covered rs \<subseteq> {lo ..< hi}"
proof
  assume "covered rs \<subseteq> {lo ..< hi}"
  moreover have "fst r < snd r" if "r \<in> set rs" for r
    by (rule separated_nonempty [OF assms that])
  moreover have "fst r \<in> covered rs" "snd r - 1 \<in> covered rs" if "r \<in> set rs" for r
    using separated_nonempty [OF assms that] that by (auto simp: covered_def intro!: bexI [of _ r])
  ultimately show "\<forall>r \<in> set rs. lo \<le> fst r \<and> snd r \<le> hi" by fastforce
qed (auto simp: covered_def)

text \<open>The list \<open>add_range\<close> installs when it does not fall back to the full image.\<close>

lemma mutation_inv_ranges:
  assumes "mutation_inv m" "\<not> pm_full_image m" "8 \<le> start" "start < end" "end \<le> PAGE_SIZE"
    and "separated rs'" "covered rs' = covered (pm_ranges m) \<union> {start ..< end}"
    and "length rs' \<le> PAGE_MUTATION_MAX_RANGES"
  shows "mutation_inv (m\<lparr>pm_ranges := rs'\<rparr>)"
proof -
  have "covered (pm_ranges m) \<subseteq> {8 ..< PAGE_SIZE}"
    using assms(1) bounded_covered unfolding mutation_inv_def by blast
  then have "covered rs' \<subseteq> {8 ..< PAGE_SIZE}" using assms(3-5,7) by auto
  then have "\<forall>r \<in> set rs'. 8 \<le> fst r \<and> snd r \<le> PAGE_SIZE"
    using bounded_covered [OF assms(6)] by blast
  then show ?thesis using assms by (simp add: mutation_inv_def)
qed

lemma separated_last:
  assumes "separated (rs @ [l])" "fst l \<le> start" "start < end"
  shows "start \<le> snd l \<Longrightarrow> separated (rs @ [(fst l, max end (snd l))]) \<and>
      covered (rs @ [(fst l, max end (snd l))]) = covered (rs @ [l]) \<union> {start ..< end}"
    and "snd l < start \<Longrightarrow> separated (rs @ [l] @ [(start, end)])"
proof -
  have l: "fst l < snd l" "\<forall>r \<in> set rs. snd r < fst l" "separated rs"
    using assms(1) by (auto simp: separated_append)
  show "separated (rs @ [(fst l, max end (snd l))]) \<and>
      covered (rs @ [(fst l, max end (snd l))]) = covered (rs @ [l]) \<union> {start ..< end}"
    if "start \<le> snd l"
    using l assms(2,3) that by (auto simp: separated_append)
  show "separated (rs @ [l] @ [(start, end)])" if "snd l < start"
    using l assms(2,3) that by (force simp: separated_append)
qed

text \<open>The two ways \<open>add_range\<close> can answer a legal range.\<close>

definition recorded :: "PageMutation \<Rightarrow> range \<Rightarrow> PageMutation \<Rightarrow> bool" where
  "recorded m r m' = (mutation_inv m' \<and> (pm_full_image m \<longrightarrow> pm_full_image m') \<and>
     (pm_full_image m' \<or> covered (pm_ranges m') = covered (pm_ranges m) \<union> {fst r ..< snd r}))"

lemma recordedI:
  assumes "mutation_inv m" "\<not> pm_full_image m" "8 \<le> start" "start < end" "end \<le> PAGE_SIZE"
    and "separated rs'" "covered rs' = covered (pm_ranges m) \<union> {start ..< end}"
    and "length rs' \<le> PAGE_MUTATION_MAX_RANGES"
  shows "recorded m (start, end) (m\<lparr>pm_ranges := rs'\<rparr>)"
  using mutation_inv_ranges [OF assms] assms(2,7) by (simp add: recorded_def)

lemma recorded_full_image: "recorded m r (m\<lparr>pm_ranges := [], pm_full_image := True\<rparr>)"
  by (simp add: recorded_def mutation_inv_def)

lemma add_range_recorded:
  assumes "mutation_inv m" and legal: "8 \<le> start" "start < end" "end \<le> PAGE_SIZE"
  shows "\<exists>m'. add_range (start, end) m = Some m' \<and> recorded m (start, end) m'"
proof (cases "pm_full_image m \<or> pm_ranges m = []")
  case True
  then show ?thesis
    using assms recordedI [OF assms(1) _ legal, of "[(start, end)]"]
    by (auto simp: add_range_def PAGE_LSN_RANGE_def recorded_def PAGE_MUTATION_MAX_RANGES_def)
next
  case False
  then have nf: "\<not> pm_full_image m" by simp
  define rs where "rs = pm_ranges m"
  note rec = recordedI [OF assms(1) nf legal, folded rs_def]
  obtain qs l where rs: "rs = qs @ [l]" using False rs_def by (metis rev_exhaust)
  have sep: "separated rs" and len: "length rs \<le> PAGE_MUTATION_MAX_RANGES"
    using assms(1) by (auto simp: mutation_inv_def rs_def)
  obtain a b n where ab: "absorb start end (drop (skip_before start rs) rs) = (a, b, n)"
    by (metis prod_cases3)
  define f where "f = skip_before start rs"
  note sp = separated_splice [OF sep legal(2) ab, folded f_def]
  have fn: "f + n \<le> length rs" by (rule sp(3))
  have take_set: "n > 0 \<Longrightarrow> take (f + 1) (rs[f := (a, b)]) = take f rs @ [(a, b)]"
    using fn by (simp add: take_Suc_conv_app_nth)
  have n0: "n = 0 \<Longrightarrow> a = start \<and> b = end"
    using absorb_spec [OF ab _ legal(2)] skip_before_dropped [OF sep] sep
    by (metis append_take_drop_id separated_append)
  have last: "rs ! (length rs - Suc 0) = l" "\<And>x. rs[length rs - Suc 0 := x] = qs @ [x]" "rs \<noteq> []"
    by (simp_all add: rs list_update_append)
  have m_eq: "add_range (start, end) m =
      (if start \<ge> fst l then
         if start \<le> snd l then Some (m\<lparr>pm_ranges := qs @ [(fst l, max end (snd l))]\<rparr>)
         else if length rs = PAGE_MUTATION_MAX_RANGES then
           Some (m\<lparr>pm_ranges := [], pm_full_image := True\<rparr>)
         else Some (m\<lparr>pm_ranges := rs @ [(start, end)]\<rparr>)
       else if n > 0 then Some (m\<lparr>pm_ranges := take f rs @ (a, b) # drop (f + n) rs\<rparr>)
       else if length rs = PAGE_MUTATION_MAX_RANGES then
         Some (m\<lparr>pm_ranges := [], pm_full_image := True\<rparr>)
       else Some (m\<lparr>pm_ranges := take f rs @ (a, b) # drop (f + n) rs\<rparr>))"
    using legal nf ab take_set n0 last
    by (simp add: add_range_def PAGE_LSN_RANGE_def Let_def flip: rs_def f_def)
  consider "start \<ge> fst l" "start \<le> snd l"
    | "start \<ge> fst l" "start > snd l" "length rs < PAGE_MUTATION_MAX_RANGES"
    | "start < fst l" "n > 0 \<or> length rs < PAGE_MUTATION_MAX_RANGES"
    | "add_range (start, end) m = Some (m\<lparr>pm_ranges := [], pm_full_image := True\<rparr>)"
    using len m_eq
    by (cases "fst l \<le> start"; cases "start \<le> snd l"; cases "n > 0";
        cases "length rs = PAGE_MUTATION_MAX_RANGES") auto
  then show ?thesis
  proof cases
    case 1
    then show ?thesis
      using m_eq rec [of "qs @ [(fst l, max end (snd l))]"] len
        separated_last(1) [of qs l start "end"] sep legal(2)
      by (simp add: rs)
  next
    case 2
    then show ?thesis
      using m_eq rec [of "rs @ [(start, end)]"] len
        separated_last(2) [of qs l start "end"] sep legal(2)
      by (simp add: rs Un_assoc)
  next
    case 3
    then show ?thesis using m_eq rec [OF sp(1,2)] fn len by auto
  next
    case 4
    then show ?thesis using recorded_full_image by auto
  qed
qed

section \<open>Recording a sequence of ranges\<close>

text \<open>The client's view: a mutation starts empty and ranges are added one after the other.\<close>

fun add_ranges :: "range list \<Rightarrow> PageMutation \<Rightarrow> PageMutation option" where
  "add_ranges [] m = Some m"
| "add_ranges (r # rs) m = do { m' \<leftarrow> add_range r m; add_ranges rs m' }"

definition legal_range :: "range \<Rightarrow> bool" where
  "legal_range r = (8 \<le> fst r \<and> fst r < snd r \<and> snd r \<le> PAGE_SIZE)"

lemma add_range_None: "\<not> legal_range r \<Longrightarrow> add_range r m = None"
  by (auto simp: legal_range_def add_range_def PAGE_LSN_RANGE_def split: prod.splits)

lemma add_range_legal:
  "mutation_inv m \<Longrightarrow> legal_range r \<Longrightarrow> \<exists>m'. add_range r m = Some m' \<and> recorded m r m'"
  using add_range_recorded [of m "fst r" "snd r"] by (simp add: legal_range_def)

lemma add_ranges_recorded:
  "mutation_inv m \<Longrightarrow> \<forall>r \<in> set rs. legal_range r \<Longrightarrow>
    \<exists>m'. add_ranges rs m = Some m' \<and> mutation_inv m' \<and> (pm_full_image m \<longrightarrow> pm_full_image m') \<and>
      (pm_full_image m' \<or> covered (pm_ranges m') = covered (pm_ranges m) \<union> covered rs)"
proof (induction rs arbitrary: m)
  case (Cons r rs)
  obtain m1 where m1: "add_range r m = Some m1" "recorded m r m1"
    using add_range_legal [of m r] Cons.prems by auto
  obtain m' where m': "add_ranges rs m1 = Some m'" "mutation_inv m'"
      "pm_full_image m1 \<longrightarrow> pm_full_image m'"
      "pm_full_image m' \<or> covered (pm_ranges m') = covered (pm_ranges m1) \<union> covered rs"
    using Cons.IH [of m1] Cons.prems m1(2) by (auto simp: recorded_def)
  then show ?case using m1 by (auto simp: recorded_def)
qed simp

lemma new_mutation_inv [simp]: "mutation_inv new_mutation"
  by (simp add: new_mutation_def mutation_inv_def)

text \<open>C15: a page mutation records exactly what it is told. Starting from an empty mutation, adding
  any sequence of ranges inside the page and clear of the LSN, in any order and however they
  overlap, never panics; the result holds at most eight ranges, ordered and separated by at least
  one byte, which cover exactly the bytes of the ranges that were added, unless the mutation has
  switched to a full page image. A range outside the page, empty or touching the LSN panics.\<close>

theorem mutation_records_exactly:
  "(\<forall>r. \<not> legal_range r \<longrightarrow> (\<forall>m. add_range r m = None)) \<and>
   ((\<forall>r \<in> set rs. legal_range r) \<longrightarrow>
     (\<exists>m. add_ranges rs new_mutation = Some m \<and> length (mutation_ranges m) \<le> 8 \<and>
       separated (mutation_ranges m) \<and>
       (uses_full_image m \<or> covered (mutation_ranges m) = covered rs)))"
proof (intro conjI impI)
  show "\<forall>r. \<not> legal_range r \<longrightarrow> (\<forall>m. add_range r m = None)" using add_range_None by blast
  assume "\<forall>r \<in> set rs. legal_range r"
  from add_ranges_recorded [OF new_mutation_inv this]
  obtain m where "add_ranges rs new_mutation = Some m" "mutation_inv m"
    "pm_full_image m \<or> covered (pm_ranges m) = covered rs"
    by (auto simp: new_mutation_def)
  then show "\<exists>m. add_ranges rs new_mutation = Some m \<and> length (mutation_ranges m) \<le> 8 \<and>
       separated (mutation_ranges m) \<and>
       (uses_full_image m \<or> covered (mutation_ranges m) = covered rs)"
    by (auto simp: mutation_inv_def mutation_ranges_def uses_full_image_def
        PAGE_MUTATION_MAX_RANGES_def)
qed

theorem mutation_records_exactly_witness:
  "\<exists>m. add_ranges [(100, 120), (40, 60), (60, 110)] new_mutation = Some m \<and>
     (uses_full_image m \<or> covered (mutation_ranges m) = {40 ..< 120})"
proof -
  have "\<forall>r \<in> set [(100, 120), (40, 60), (60, 110)]. legal_range r"
    by (simp add: legal_range_def PAGE_SIZE_def)
  moreover have "covered [(100, 120), (40, 60), (60, 110)] = {40 ..< 120}" by auto
  ultimately show ?thesis
    using mutation_records_exactly [of "[(100, 120), (40, 60), (60, 110)]"] by auto
qed

end
