(* ===== verification/Slotted_Page.thy ===== *)
theory Slotted_Page
  imports Prelude Frame_Kernel Page_Header Page_Mutation "HOL-Library.List_Lexorder"
begin

text \<open>
  The slotted page, \<open>crates/storage/src/slotted_page.rs\<close>: a sorted container of key/value entries
  in the bytes of one page. A page is the list of its bytes; header fields and slots are read and
  written at the offsets of the \<open>repr(C)\<close> structs, with the truncation of every \<open>as u16\<close> and
  \<open>as u32\<close> cast. An operation returns \<^const>\<open>None\<close> where the debug build of the source panics: a
  failed assertion, a slice out of bounds, an arithmetic overflow. A raw pointer access that would
  leave the page is undefined behaviour in the source and \<^const>\<open>None\<close> as well. Metric counters
  are not modelled.
\<close>

section \<open>Layout\<close>

definition HEADER_SIZE :: nat where "HEADER_SIZE = 24"
definition SLOT_SIZE :: nat where "SLOT_SIZE = 12"
definition FLAG_HAS_GARBAGE :: "16 word" where "FLAG_HAS_GARBAGE = 1"

record Slot =
  slot_off :: nat
  key_len :: nat
  val_len :: nat
  slot_head :: nat

abbreviation hdr_data_offset :: "bytes \<Rightarrow> nat" where "hdr_data_offset p \<equiv> rd 4 8 p"
abbreviation hdr_space_used :: "bytes \<Rightarrow> nat" where "hdr_space_used p \<equiv> rd 4 12 p"
abbreviation hdr_num_slots :: "bytes \<Rightarrow> nat" where "hdr_num_slots p \<equiv> rd 2 16 p"

definition set_data_offset :: "nat \<Rightarrow> bytes \<Rightarrow> bytes" where "set_data_offset v p = wr 4 8 v p"
definition set_space_used :: "nat \<Rightarrow> bytes \<Rightarrow> bytes" where "set_space_used v p = wr 4 12 v p"
definition set_num_slots :: "nat \<Rightarrow> bytes \<Rightarrow> bytes" where "set_num_slots v p = wr 2 16 v p"
definition set_flags :: "16 word \<Rightarrow> bytes \<Rightarrow> bytes" where "set_flags w p = wr 2 18 (unat w) p"

definition slot_pos :: "nat \<Rightarrow> nat" where
  "slot_pos i = HEADER_SIZE + i * SLOT_SIZE"

definition decode_slot :: "bytes \<Rightarrow> Slot" where
  "decode_slot bs = \<lparr> slot_off = rd 2 0 bs, key_len = rd 2 2 bs, val_len = rd 2 4 bs,
     slot_head = rd 4 8 bs \<rparr>"

definition encode_slot :: "Slot \<Rightarrow> bytes" where
  "encode_slot s = le_bytes 2 (slot_off s) @ le_bytes 2 (key_len s) @ le_bytes 2 (val_len s) @
     le_bytes 2 0 @ le_bytes 4 (slot_head s)"

definition slot_at :: "bytes \<Rightarrow> nat \<Rightarrow> Slot" where
  "slot_at p i = decode_slot (read_at (slot_pos i) SLOT_SIZE p)"

definition init :: "bytes \<Rightarrow> bytes" where
  "init page = set_data_offset PAGE_SIZE (replicate (length page) 0)"

definition slot :: "bytes \<Rightarrow> nat \<Rightarrow> Slot option" where
  "slot p slot_id = do {
     ensure (slot_id < hdr_num_slots p);
     ensure (slot_pos slot_id + SLOT_SIZE \<le> length p);
     Some (slot_at p slot_id) }"

definition slot_array_end :: "bytes \<Rightarrow> nat" where
  "slot_array_end p = HEADER_SIZE + hdr_num_slots p * SLOT_SIZE"

text \<open>The checked accessors for optimistic readers have a result of their own, so they cannot
  panic: the option is the one the source returns.\<close>

definition try_slot_copy :: "bytes \<Rightarrow> nat \<Rightarrow> Slot option" where
  "try_slot_copy p slot_id =
     (if slot_id \<ge> hdr_num_slots p then None
      else if slot_pos slot_id + SLOT_SIZE > PAGE_SIZE then None
      else Some (slot_at p slot_id))"

section \<open>Keys\<close>

definition make_head :: "bytes \<Rightarrow> nat" where
  "make_head key = be_val (take 4 key @ replicate (4 - length key) 0)"

definition read_be_u64 :: "bytes \<Rightarrow> nat option" where
  "read_be_u64 bs = do { ensure (length bs = 8); Some (be_val bs) }"

definition be_bytes_u64 :: "nat \<Rightarrow> bytes" where
  "be_bytes_u64 v = rev (le_bytes 8 v)"

text \<open>\<open>cmp_keys\<close> is the order of byte slices, which is the lexicographic order of lists.\<close>

datatype Ordering = Less | Equal | Greater

definition cmp_keys :: "bytes \<Rightarrow> bytes \<Rightarrow> Ordering" where
  "cmp_keys a b = (if a < b then Less else if a = b then Equal else Greater)"

section \<open>Read accessors\<close>

definition num_slots :: "bytes \<Rightarrow> nat" where
  "num_slots p = hdr_num_slots p"

definition free_space :: "bytes \<Rightarrow> nat" where
  "free_space p = hdr_data_offset p - slot_array_end p"

definition free_space_after_compaction :: "bytes \<Rightarrow> nat" where
  "free_space_after_compaction p = PAGE_SIZE - (slot_array_end p + hdr_space_used p)"

definition space_used :: "bytes \<Rightarrow> nat" where
  "space_used p = hdr_space_used p"

definition page_lsn :: "bytes \<Rightarrow> u64" where
  "page_lsn p = word_of_nat (rd 8 0 p)"

definition set_page_lsn :: "u64 \<Rightarrow> bytes \<Rightarrow> bytes" where
  "set_page_lsn lsn p = wr 8 0 (unat lsn) p"

definition has_garbage :: "bytes \<Rightarrow> bool" where
  "has_garbage p = (page_flags p AND FLAG_HAS_GARBAGE \<noteq> 0)"

definition has_custom_flag :: "16 word \<Rightarrow> bytes \<Rightarrow> bool" where
  "has_custom_flag flag p = (page_flags p AND flag \<noteq> 0)"

definition set_flag :: "16 word \<Rightarrow> bytes \<Rightarrow> bytes" where
  "set_flag flag p = set_flags (page_flags p OR flag) p"

definition reserve_suffix :: "nat \<Rightarrow> bytes \<Rightarrow> bytes option" where
  "reserve_suffix n p = do {
     ensure (hdr_num_slots p = 0);
     ensure (n mod 2 ^ 32 \<le> hdr_data_offset p);
     let p = set_data_offset (hdr_data_offset p - n mod 2 ^ 32) p;
     ensure (hdr_space_used p + n mod 2 ^ 32 < 2 ^ 32);
     Some (set_space_used (hdr_space_used p + n mod 2 ^ 32) p) }"

definition get_key :: "bytes \<Rightarrow> nat \<Rightarrow> bytes option" where
  "get_key p slot_id = do {
     s \<leftarrow> slot p slot_id;
     ensure (slot_off s + key_len s \<le> length p);
     Some (read_at (slot_off s) (key_len s) p) }"

definition get_value :: "bytes \<Rightarrow> nat \<Rightarrow> bytes option" where
  "get_value p slot_id = do {
     s \<leftarrow> slot p slot_id;
     let start = slot_off s + key_len s;
     ensure (start + val_len s \<le> length p);
     Some (read_at start (val_len s) p) }"

definition try_get_value :: "bytes \<Rightarrow> nat \<Rightarrow> bytes option" where
  "try_get_value p slot_id = do {
     s \<leftarrow> try_slot_copy p slot_id;
     let start = slot_off s + key_len s;
     if start + val_len s > PAGE_SIZE then None else Some (read_at start (val_len s) p) }"

definition try_get_key :: "bytes \<Rightarrow> nat \<Rightarrow> bytes option" where
  "try_get_key p slot_id = do {
     s \<leftarrow> try_slot_copy p slot_id;
     if slot_off s + key_len s > PAGE_SIZE then None
     else Some (read_at (slot_off s) (key_len s) p) }"

section \<open>Maintenance\<close>

text \<open>The loops of \<open>compactify\<close>. \<open>live_data_loop\<close> checks every slot and sums the data lengths,
  \<open>gather_loop\<close> copies the live data to the temporary page, \<open>data_lens\<close> collects the lengths,
  \<open>write_back_loop\<close> copies the data back and stores the new offsets.\<close>

fun live_data_loop :: "bytes \<Rightarrow> nat list \<Rightarrow> nat \<Rightarrow> nat option" where
  "live_data_loop p [] live = Some live"
| "live_data_loop p (i # is) live = do {
     s \<leftarrow> slot p i;
     let data_len = key_len s + val_len s;
     ensure (slot_off s + data_len \<le> PAGE_SIZE);
     live_data_loop p is (live + data_len) }"

fun gather_loop :: "bytes \<Rightarrow> nat list \<Rightarrow> nat \<Rightarrow> bytes \<Rightarrow> bytes option" where
  "gather_loop p [] write_offset tmp = Some tmp"
| "gather_loop p (i # is) write_offset tmp = do {
     s \<leftarrow> slot p i;
     let data_len = key_len s + val_len s;
     ensure (data_len \<le> write_offset);
     let write_offset = write_offset - data_len;
     ensure (write_offset + data_len \<le> length tmp);
     ensure (slot_off s + data_len \<le> length p);
     gather_loop p is write_offset
       (write_at write_offset (read_at (slot_off s) data_len p) tmp) }"

fun data_lens :: "bytes \<Rightarrow> nat list \<Rightarrow> nat list option" where
  "data_lens p [] = Some []"
| "data_lens p (i # is) = do {
     s \<leftarrow> slot p i;
     ensure (key_len s + val_len s < 2 ^ 16);
     ls \<leftarrow> data_lens p is;
     Some ((key_len s + val_len s) # ls) }"

fun write_back_loop :: "bytes \<Rightarrow> nat list \<Rightarrow> nat \<Rightarrow> nat \<Rightarrow> bytes \<Rightarrow> (nat \<times> bytes) option" where
  "write_back_loop tmp [] i off p = Some (off, p)"
| "write_back_loop tmp (l # ls) i off p = do {
     ensure (l \<le> off);
     let off = off - l;
     ensure (off + l \<le> length p);
     let p = write_at off (read_at off l tmp) p;
     ensure (i < hdr_num_slots p);
     ensure (slot_pos i + SLOT_SIZE \<le> length p);
     write_back_loop tmp ls (i + 1) off (wr 2 (slot_pos i) off p) }"

definition compactify :: "bytes \<Rightarrow> bytes option" where
  "compactify p =
     (let count = hdr_num_slots p in
      if count = 0 then do {
        let reserved_suffix = hdr_space_used p;
        ensure (reserved_suffix \<le> PAGE_SIZE);
        let p = set_data_offset (PAGE_SIZE - reserved_suffix) p;
        Some (set_flags (page_flags p AND NOT FLAG_HAS_GARBAGE) p) }
      else do {
        live_data \<leftarrow> live_data_loop p [0..<count] 0;
        ensure (live_data \<le> hdr_space_used p);
        let reserved_suffix = hdr_space_used p - live_data;
        ensure (reserved_suffix \<le> PAGE_SIZE);
        tmp \<leftarrow> gather_loop p [0..<count] (PAGE_SIZE - reserved_suffix) (replicate PAGE_SIZE 0);
        lens \<leftarrow> data_lens p (take ((PAGE_SIZE - HEADER_SIZE) div SLOT_SIZE) [0..<count]);
        (off, p) \<leftarrow> write_back_loop tmp lens 0 (PAGE_SIZE - reserved_suffix) p;
        let p = set_data_offset off p;
        Some (set_flags (page_flags p AND NOT FLAG_HAS_GARBAGE) p) })"

section \<open>Mutation\<close>

definition can_insert :: "nat \<Rightarrow> nat \<Rightarrow> bytes \<Rightarrow> bool" where
  "can_insert klen vlen p =
     (let needed = SLOT_SIZE + klen + vlen in
      free_space p \<ge> needed \<or> free_space_after_compaction p \<ge> needed)"

text \<open>The part of \<open>insert\<close> after the space has been made.\<close>

definition insert_body :: "nat \<Rightarrow> bytes \<Rightarrow> bytes \<Rightarrow> bytes \<Rightarrow> bytes option" where
  "insert_body slot_id key val p = do {
     let data_len = length key + length val;
     ensure (data_len \<le> hdr_data_offset p);
     let new_data_offset = hdr_data_offset p - data_len;
     ensure (new_data_offset + data_len \<le> length p);
     let p = write_at new_data_offset key p;
     let p = write_at (new_data_offset + length key) val p;
     let count = hdr_num_slots p;
     let n = (count - slot_id) * SLOT_SIZE;
     ensure (slot_id < count \<longrightarrow> slot_pos (slot_id + 1) + n \<le> length p);
     let p = (if slot_id < count
              then write_at (slot_pos (slot_id + 1)) (read_at (slot_pos slot_id) n p) p else p);
     ensure (count + 1 < 2 ^ 16);
     let p = set_num_slots (count + 1) p;
     ensure (slot_id < hdr_num_slots p);
     ensure (slot_pos slot_id + SLOT_SIZE \<le> length p);
     let p = write_at (slot_pos slot_id)
       (encode_slot \<lparr> slot_off = new_data_offset, key_len = length key, val_len = length val,
          slot_head = make_head key \<rparr>) p;
     let p = set_data_offset new_data_offset p;
     ensure (hdr_space_used p + data_len mod 2 ^ 32 < 2 ^ 32);
     Some (set_space_used (hdr_space_used p + data_len mod 2 ^ 32) p) }"

definition insert_entry :: "nat \<Rightarrow> bytes \<Rightarrow> bytes \<Rightarrow> bytes \<Rightarrow> bytes option" where
  "insert_entry slot_id key val p = do {
     let needed = SLOT_SIZE + (length key + length val);
     p \<leftarrow> (if free_space p < needed then do {
              ensure (free_space_after_compaction p \<ge> needed);
              compactify p }
            else Some p);
     insert_body slot_id key val p }"

definition insert_with_mutation ::
    "nat \<Rightarrow> bytes \<Rightarrow> bytes \<Rightarrow> bytes \<times> PageMutation \<Rightarrow> (bytes \<times> PageMutation) option" where
  "insert_with_mutation slot_id key val = (\<lambda>(p, m). do {
     let count = hdr_num_slots p;
     let data_len = length key + length val;
     let needed = SLOT_SIZE + data_len;
     let compacted = free_space p < needed;
     p \<leftarrow> insert_entry slot_id key val p;
     m \<leftarrow> add_range (8, HEADER_SIZE) m;
     let first_changed_slot = (if compacted then 0 else slot_id);
     m \<leftarrow> add_range (slot_pos first_changed_slot, slot_pos (count + 1)) m;
     let data_start = hdr_data_offset p;
     let data_end = (if compacted then PAGE_SIZE else data_start + data_len);
     m \<leftarrow> (if data_start < data_end then add_range (data_start, data_end) m else Some m);
     Some (p, m) })"

definition remove_entry :: "nat \<Rightarrow> bytes \<Rightarrow> bytes option" where
  "remove_entry slot_id p = do {
     let count = hdr_num_slots p;
     ensure (slot_id < count);
     s \<leftarrow> slot p slot_id;
     let data_len = key_len s + val_len s;
     ensure (data_len \<le> hdr_space_used p);
     let p = set_space_used (hdr_space_used p - data_len) p;
     let remaining = count - slot_id - 1;
     let shifted = remaining * SLOT_SIZE;
     ensure (remaining > 0 \<longrightarrow> slot_pos (slot_id + 1) + shifted \<le> length p);
     let p = (if remaining > 0
              then write_at (slot_pos slot_id) (read_at (slot_pos (slot_id + 1)) shifted p) p
              else p);
     let p = set_num_slots (count - 1) p;
     Some (set_flags (page_flags p OR FLAG_HAS_GARBAGE) p) }"

definition remove_with_mutation ::
    "nat \<Rightarrow> bytes \<times> PageMutation \<Rightarrow> (bytes \<times> PageMutation) option" where
  "remove_with_mutation slot_id = (\<lambda>(p, m). do {
     let count = hdr_num_slots p;
     p \<leftarrow> remove_entry slot_id p;
     m \<leftarrow> add_range (8, HEADER_SIZE) m;
     ensure (count \<ge> 1);
     let changed_slots_end = slot_pos (count - 1);
     let changed_slots_start = slot_pos slot_id;
     m \<leftarrow> (if changed_slots_start < changed_slots_end
           then add_range (changed_slots_start, changed_slots_end) m else Some m);
     Some (p, m) })"

definition update_value_if_same_length :: "nat \<Rightarrow> bytes \<Rightarrow> bytes \<Rightarrow> (bool \<times> bytes) option" where
  "update_value_if_same_length slot_id val p = do {
     s \<leftarrow> slot p slot_id;
     if length val \<noteq> val_len s then Some (False, p)
     else do {
       let start = slot_off s + key_len s;
       ensure (start + length val \<le> length p);
       Some (True, write_at start val p) } }"

definition value_range :: "bytes \<Rightarrow> nat \<Rightarrow> range option" where
  "value_range p slot_id = do {
     s \<leftarrow> slot p slot_id;
     let start = slot_off s + key_len s;
     Some (start, start + val_len s) }"

definition update_value_with_mutation ::
    "nat \<Rightarrow> bytes \<Rightarrow> bytes \<times> PageMutation \<Rightarrow> (bool \<times> bytes \<times> PageMutation) option" where
  "update_value_with_mutation slot_id val = (\<lambda>(p, m). do {
     range \<leftarrow> value_range p slot_id;
     (done, p') \<leftarrow> update_value_if_same_length slot_id val p;
     if \<not> done then Some (False, p, m)
     else do {
       m \<leftarrow> (if fst range < snd range then add_range range m else Some m);
       Some (True, p', m) } })"

section \<open>Bulk operations\<close>

fun copy_entries_loop :: "bytes \<Rightarrow> bytes \<Rightarrow> nat \<Rightarrow> nat \<Rightarrow> bytes option" where
  "copy_entries_loop src dst src_slot 0 = Some dst"
| "copy_entries_loop src dst src_slot (Suc count) = do {
     ensure (src_slot < 2 ^ 16);
     key \<leftarrow> get_key src src_slot;
     val \<leftarrow> get_value src src_slot;
     dst \<leftarrow> insert_entry (hdr_num_slots dst) key val dst;
     copy_entries_loop src dst (src_slot + 1) count }"

definition copy_key_value_range ::
    "bytes \<Rightarrow> bytes \<Rightarrow> nat \<Rightarrow> nat \<Rightarrow> nat \<Rightarrow> bytes option" where
  "copy_key_value_range src dst dst_slot src_slot count = do {
     ensure (dst_slot = num_slots dst);
     copy_entries_loop src dst src_slot count }"

fun drop_space_loop :: "nat list \<Rightarrow> bytes \<Rightarrow> bytes option" where
  "drop_space_loop [] p = Some p"
| "drop_space_loop (i # is) p = do {
     s \<leftarrow> slot p i;
     let data_len = key_len s + val_len s;
     ensure (data_len \<le> hdr_space_used p);
     drop_space_loop is (set_space_used (hdr_space_used p - data_len) p) }"

definition truncate :: "nat \<Rightarrow> bytes \<Rightarrow> bytes option" where
  "truncate new_count p = do {
     let old_count = hdr_num_slots p;
     ensure (new_count \<le> old_count);
     if new_count = old_count then Some p
     else do {
       p \<leftarrow> drop_space_loop [new_count..<old_count] p;
       let p = set_num_slots new_count p;
       let p = set_flags (page_flags p OR FLAG_HAS_GARBAGE) p;
       compactify p } }"

end
