(* ===== verification/Slotted_Page_Entries.thy ===== *)
theory Slotted_Page_Entries
  imports Slotted_Page
begin

text \<open>
  What a slotted page means: the list of its entries, and the well-formedness invariant of its
  bytes. The lemmas compute how slots, entries and header fields of a page change under writes to
  a window of its bytes; the theories on updates and search build on them.
\<close>

section \<open>Slots\<close>

lemma slot_pos_eq: "slot_pos i = 24 + 12 * i"
  by (simp add: slot_pos_def HEADER_SIZE_def SLOT_SIZE_def)

lemma slot_array_end_eq: "slot_array_end p = slot_pos (hdr_num_slots p)"
  by (simp add: slot_array_end_def slot_pos_def)

lemmas slot_layout = slot_pos_eq slot_array_end_eq HEADER_SIZE_def SLOT_SIZE_def

lemma length_encode_slot [simp]: "length (encode_slot s) = 12"
  by (simp add: encode_slot_def)

lemma decode_slot_less:
  "slot_off (decode_slot bs) < 65536" "key_len (decode_slot bs) < 65536"
  "val_len (decode_slot bs) < 65536"
  using rd_less [of 2 _ bs] by (simp_all add: decode_slot_def)

lemma slot_off_less [simp]: "slot_off (slot_at p i) < 65536"
  by (simp add: slot_at_def decode_slot_less)

definition slot_len :: "Slot \<Rightarrow> nat" where
  "slot_len s = key_len s + val_len s"

lemma decode_encode_slot:
  assumes "key_len s < 65536" "val_len s < 65536" "slot_head s < 2 ^ 32"
  shows "decode_slot (encode_slot s) = s\<lparr>slot_off := slot_off s mod 65536\<rparr>"
  using assms
  by (simp add: decode_slot_def encode_slot_def rd_def read_at_def le_val_le_bytes)

lemma make_head_less: "make_head key < 2 ^ 32"
proof -
  have "length (take 4 key @ replicate (4 - length key) 0) = 4" by simp
  then show ?thesis using be_val_less [of "take 4 key @ replicate (4 - length key) 0"]
    by (simp only: make_head_def) simp
qed

section \<open>Entries\<close>

definition slots :: "bytes \<Rightarrow> Slot list" where
  "slots p = map (slot_at p) [0..<hdr_num_slots p]"

definition entry_of :: "bytes \<Rightarrow> Slot \<Rightarrow> bytes \<times> bytes" where
  "entry_of p s =
     (read_at (slot_off s) (key_len s) p, read_at (slot_off s + key_len s) (val_len s) p)"

definition entries :: "bytes \<Rightarrow> (bytes \<times> bytes) list" where
  "entries p = map (entry_of p) (slots p)"

definition live :: "bytes \<Rightarrow> nat" where
  "live p = sum_list (map slot_len (slots p))"

definition reserved :: "bytes \<Rightarrow> nat" where
  "reserved p = hdr_space_used p - live p"

lemma length_slots [simp]: "length (slots p) = hdr_num_slots p"
  by (simp add: slots_def)

lemma length_entries [simp]: "length (entries p) = hdr_num_slots p"
  by (simp add: entries_def)

lemma nth_slots [simp]: "i < hdr_num_slots p \<Longrightarrow> slots p ! i = slot_at p i"
  by (simp add: slots_def)

lemma nth_entries: "i < hdr_num_slots p \<Longrightarrow> entries p ! i = entry_of p (slot_at p i)"
  by (simp add: entries_def)

lemma set_slots: "set (slots p) = slot_at p ` {i. i < hdr_num_slots p}"
  by (auto simp: slots_def)

text \<open>Two slots are apart when their data do not overlap.\<close>

definition apart :: "Slot \<Rightarrow> Slot \<Rightarrow> bool" where
  "apart s t = (slot_len s = 0 \<or> slot_len t = 0 \<or> slot_off s + slot_len s \<le> slot_off t \<or>
     slot_off t + slot_len t \<le> slot_off s)"

definition slot_ok :: "nat \<Rightarrow> nat \<Rightarrow> bytes \<Rightarrow> Slot \<Rightarrow> bool" where
  "slot_ok lo hi p s =
     ((slot_len s = 0 \<or> lo \<le> slot_off s \<and> slot_off s + slot_len s \<le> hi) \<and>
      slot_head s = make_head (fst (entry_of p s)))"

definition wf_page :: "bytes \<Rightarrow> bool" where
  "wf_page p =
     (length p = PAGE_SIZE \<and> slot_array_end p \<le> hdr_data_offset p \<and>
      hdr_data_offset p + hdr_space_used p \<le> PAGE_SIZE \<and> live p \<le> hdr_space_used p \<and>
      (\<forall>s \<in> set (slots p). slot_ok (hdr_data_offset p) (PAGE_SIZE - reserved p) p s) \<and>
      sorted_wrt apart (slots p))"

lemma wf_pageD:
  assumes "wf_page p"
  shows "length p = PAGE_SIZE" "slot_pos (hdr_num_slots p) \<le> hdr_data_offset p"
    "hdr_data_offset p + hdr_space_used p \<le> PAGE_SIZE" "live p \<le> hdr_space_used p"
    "sorted_wrt apart (slots p)"
    "s \<in> set (slots p) \<Longrightarrow> slot_ok (hdr_data_offset p) (PAGE_SIZE - reserved p) p s"
  using assms by (auto simp: wf_page_def slot_array_end_eq)

lemma PAGE_SIZE_le: "PAGE_SIZE \<le> 65536"
  by (simp add: PAGE_SIZE_def)

lemma wf_slot_bounds:
  assumes "wf_page p" "s \<in> set (slots p)"
  shows "slot_off s + slot_len s \<le> PAGE_SIZE" "slot_off s < 65536"
    "slot_head s = make_head (fst (entry_of p s))"
proof -
  show off: "slot_off s < 65536" using assms(2) by (auto simp: set_slots)
  show "slot_off s + slot_len s \<le> PAGE_SIZE" "slot_head s = make_head (fst (entry_of p s))"
    using wf_pageD(6) [OF assms] off by (auto simp: slot_ok_def PAGE_SIZE_def)
qed

lemma wf_num_slots: "wf_page p \<Longrightarrow> i < hdr_num_slots p \<Longrightarrow> slot_pos i + SLOT_SIZE \<le> length p"
  using wf_pageD(1-3) [of p] by (simp add: slot_layout)

lemma wf_slot: "wf_page p \<Longrightarrow> i < hdr_num_slots p \<Longrightarrow> slot p i = Some (slot_at p i)"
  using wf_num_slots [of p i] by (simp add: slot_def)

lemma wf_get_key: "wf_page p \<Longrightarrow> i < hdr_num_slots p \<Longrightarrow> get_key p i = Some (fst (entries p ! i))"
  using wf_slot_bounds(1) [of p "slot_at p i"] wf_pageD(1) [of p]
  by (simp add: get_key_def wf_slot nth_entries entry_of_def set_slots slot_len_def)

lemma wf_get_value:
  "wf_page p \<Longrightarrow> i < hdr_num_slots p \<Longrightarrow> get_value p i = Some (snd (entries p ! i))"
  using wf_slot_bounds(1) [of p "slot_at p i"] wf_pageD(1) [of p]
  by (simp add: get_value_def wf_slot nth_entries entry_of_def set_slots slot_len_def add.assoc)

section \<open>Pages that differ outside a window\<close>

lemma slots_cong:
  assumes "hdr_num_slots q = hdr_num_slots p"
    and "\<And>i. i < hdr_num_slots p \<Longrightarrow> read_at (slot_pos i) SLOT_SIZE q = read_at (slot_pos i) SLOT_SIZE p"
  shows "slots q = slots p"
  using assms by (simp add: slots_def slot_at_def)

lemma entry_of_cong:
  assumes "slot_len s = 0 \<or>
    read_at (slot_off s) (slot_len s) q = read_at (slot_off s) (slot_len s) p"
  shows "entry_of q s = entry_of p s"
proof (cases "slot_len s = 0")
  case True
  then show ?thesis by (simp add: entry_of_def slot_len_def)
next
  case False
  have split: "entry_of r s = (read_at 0 (key_len s) (read_at (slot_off s) (slot_len s) r),
      read_at (key_len s) (val_len s) (read_at (slot_off s) (slot_len s) r))" for r
    by (simp add: entry_of_def read_at_read_at slot_len_def)
  show ?thesis using assms False by (simp add: split)
qed

lemma read_at_agree:
  assumes "length q = length p" "\<And>i. off \<le> i \<Longrightarrow> i < off + n \<Longrightarrow> i < length p \<Longrightarrow> q ! i = p ! i"
  shows "read_at off n q = read_at off n p"
  by (rule nth_equalityI) (use assms in \<open>auto simp: read_at_def\<close>)

lemma rd_agree:
  assumes "length q = length p" "\<And>i. off \<le> i \<Longrightarrow> i < off + n \<Longrightarrow> i < length p \<Longrightarrow> q ! i = p ! i"
  shows "rd n off q = rd n off p"
  using read_at_agree [OF assms] by (simp add: rd_def)

section \<open>Slots under writes\<close>

lemma num_slots_write_data:
  "24 \<le> off \<Longrightarrow> off + length bs \<le> length p \<Longrightarrow> hdr_num_slots (write_at off bs p) = hdr_num_slots p"
  by (simp add: window_simps)

lemma slots_write_data:
  assumes "slot_pos (hdr_num_slots p) \<le> off" "off + length bs \<le> length p"
  shows "slots (write_at off bs p) = slots p"
  using assms by (intro slots_cong) (simp_all add: window_simps slot_layout)

lemma slots_wr_header:
  assumes "off + m \<le> 16 \<or> 18 \<le> off \<and> off + m \<le> 24" "24 \<le> length p"
  shows "slots (wr m off v p) = slots p"
  using assms by (intro slots_cong) (auto simp: window_simps slot_layout)

lemma length_setters [simp]:
  "24 \<le> length p \<Longrightarrow> length (set_data_offset v p) = length p"
  "24 \<le> length p \<Longrightarrow> length (set_space_used v p) = length p"
  "24 \<le> length p \<Longrightarrow> length (set_num_slots v p) = length p"
  "24 \<le> length p \<Longrightarrow> length (set_flags w p) = length p"
  by (simp_all add: set_data_offset_def set_space_used_def set_num_slots_def set_flags_def)

lemma slots_setters [simp]:
  "24 \<le> length p \<Longrightarrow> slots (set_data_offset v p) = slots p"
  "24 \<le> length p \<Longrightarrow> slots (set_space_used v p) = slots p"
  "24 \<le> length p \<Longrightarrow> slots (set_flags w p) = slots p"
  by (simp_all add: set_data_offset_def set_space_used_def set_flags_def slots_wr_header)

lemma header_setters [simp]:
  assumes "24 \<le> length p"
  shows "hdr_data_offset (set_data_offset v p) = v mod 2 ^ 32"
    "hdr_data_offset (set_space_used v p) = hdr_data_offset p"
    "hdr_data_offset (set_num_slots v p) = hdr_data_offset p"
    "hdr_data_offset (set_flags w p) = hdr_data_offset p"
    "hdr_space_used (set_data_offset v p) = hdr_space_used p"
    "hdr_space_used (set_space_used v p) = v mod 2 ^ 32"
    "hdr_space_used (set_num_slots v p) = hdr_space_used p"
    "hdr_space_used (set_flags w p) = hdr_space_used p"
    "hdr_num_slots (set_data_offset v p) = hdr_num_slots p"
    "hdr_num_slots (set_space_used v p) = hdr_num_slots p"
    "hdr_num_slots (set_num_slots v p) = v mod 2 ^ 16"
    "hdr_num_slots (set_flags w p) = hdr_num_slots p"
  using assms
  by (simp_all add: set_data_offset_def set_space_used_def set_num_slots_def set_flags_def
      window_simps)

lemma read_setters [simp]:
  assumes "24 \<le> off" "24 \<le> length p"
  shows "read_at off n (set_data_offset v p) = read_at off n p"
    "read_at off n (set_space_used v p) = read_at off n p"
    "read_at off n (set_num_slots v p) = read_at off n p"
    "read_at off n (set_flags w p) = read_at off n p"
  using assms
  by (simp_all add: set_data_offset_def set_space_used_def set_num_slots_def set_flags_def
      window_simps)

lemma nth_setters:
  assumes "24 \<le> length p" "x < 8 \<or> 24 \<le> x"
  shows "set_data_offset v p ! x = p ! x" "set_space_used v p ! x = p ! x"
    "set_num_slots v p ! x = p ! x" "set_flags w p ! x = p ! x"
  using assms
  by (auto simp: set_data_offset_def set_space_used_def set_num_slots_def set_flags_def
      nth_wr_outside)

lemma page_flags_setters [simp]:
  assumes "24 \<le> length p"
  shows "page_flags (set_data_offset v p) = page_flags p" "page_flags (set_space_used v p) = page_flags p"
    "page_flags (set_num_slots v p) = page_flags p" "page_flags (set_flags w p) = w"
  using assms page_flags_wr [of p w]
  by (simp_all add: set_data_offset_def set_space_used_def set_num_slots_def set_flags_def
      page_flags_def FLAGS_OFF_def window_simps)

text \<open>Entries depend on the slots and on the data below them only.\<close>

lemma entries_agree:
  assumes "slots q = slots p" "length q = length p" "lo \<le> length p"
    and "\<And>x. lo \<le> x \<Longrightarrow> x < hi \<Longrightarrow> q ! x = p ! x"
    and "\<And>s. s \<in> set (slots p) \<Longrightarrow> slot_len s = 0 \<or> lo \<le> slot_off s \<and> slot_off s + slot_len s \<le> hi"
  shows "entries q = entries p"
proof -
  have "entry_of q s = entry_of p s" if s: "s \<in> set (slots p)" for s
  proof (rule entry_of_cong)
    show "slot_len s = 0 \<or>
        read_at (slot_off s) (slot_len s) q = read_at (slot_off s) (slot_len s) p"
    proof (cases "slot_len s = 0")
      case False
      then have "lo \<le> slot_off s" "slot_off s + slot_len s \<le> hi" using assms(5) [OF s] by auto
      then show ?thesis using assms(2,4) by (intro disjI2 read_at_agree) auto
    qed simp
  qed
  then show ?thesis using assms(1) by (simp add: entries_def)
qed

end
