(* ===== verification/Slotted_Page_Insert.thy ===== *)
theory Slotted_Page_Insert
  imports Slotted_Page_Entries
begin

text \<open>
  Insertion without compaction: opening a gap in the slot array, writing the new slot, and the
  data of the new entry below the data region. The result is a well-formed page whose entries are
  the old ones with the new entry at the requested position.
\<close>

section \<open>The slot array\<close>

definition open_slot :: "nat \<Rightarrow> nat \<Rightarrow> bytes \<Rightarrow> bytes" where
  "open_slot i n p = (if i < n
     then write_at (slot_pos (i + 1)) (read_at (slot_pos i) ((n - i) * SLOT_SIZE) p) p else p)"

definition put_slot :: "nat \<Rightarrow> Slot \<Rightarrow> nat \<Rightarrow> bytes \<Rightarrow> bytes" where
  "put_slot i s n p = write_at (slot_pos i) (encode_slot s) (set_num_slots (n + 1) (open_slot i n p))"

lemma gap_end: "i < n \<Longrightarrow> slot_pos (i + 1) + (n - i) * SLOT_SIZE = slot_pos (n + 1)"
  by (simp add: slot_layout)

lemma length_open_slot: "slot_pos (n + 1) \<le> length p \<Longrightarrow> length (open_slot i n p) = length p"
  by (simp add: open_slot_def slot_layout)

lemma read_open_slot:
  assumes "slot_pos (n + 1) \<le> length p" "i < j" "j \<le> n"
  shows "read_at (slot_pos j) SLOT_SIZE (open_slot i n p) = read_at (slot_pos (j - 1)) SLOT_SIZE p"
proof -
  let ?gap = "read_at (slot_pos i) ((n - i) * SLOT_SIZE) p"
  have len: "length ?gap = (n - i) * SLOT_SIZE" using assms by (simp add: slot_layout)
  have "read_at (slot_pos j) SLOT_SIZE (open_slot i n p) =
      read_at (slot_pos j - slot_pos (i + 1)) SLOT_SIZE ?gap"
    using assms len gap_end [of i n] by (simp add: open_slot_def slot_layout read_at_write_inside)
  also have "\<dots> = read_at (slot_pos i + (slot_pos j - slot_pos (i + 1))) SLOT_SIZE p"
    using assms by (intro read_at_read_at) (simp add: slot_layout)
  also have "slot_pos i + (slot_pos j - slot_pos (i + 1)) = slot_pos (j - 1)"
    using assms by (simp add: slot_layout)
  finally show ?thesis .
qed

lemma nth_open_slot:
  assumes "slot_pos (n + 1) \<le> length p" "x < slot_pos (i + 1) \<or> slot_pos (n + 1) \<le> x"
  shows "open_slot i n p ! x = p ! x"
  using assms by (auto simp: open_slot_def nth_write_at slot_layout)

lemma read_open_slot_outside:
  assumes "slot_pos (n + 1) \<le> length p" "off + m \<le> slot_pos (i + 1) \<or> slot_pos (n + 1) \<le> off"
  shows "read_at off m (open_slot i n p) = read_at off m p"
  using assms nth_open_slot [OF assms(1)] length_open_slot [OF assms(1)]
  by (intro read_at_agree) auto

lemma num_slots_put_slot:
  assumes "slot_pos (n + 1) \<le> length p" "i \<le> n" "n + 1 < 65536"
  shows "hdr_num_slots (put_slot i s n p) = n + 1"
  using assms length_open_slot [OF assms(1), of i]
  by (simp add: put_slot_def window_simps slot_layout)

lemma nth_put_slot:
  assumes "slot_pos (n + 1) \<le> length p" "i \<le> n"
    and "x < 8 \<or> 24 \<le> x \<and> x < slot_pos i \<or> slot_pos (n + 1) \<le> x"
  shows "put_slot i s n p ! x = p ! x"
  using assms length_open_slot [OF assms(1), of i] nth_open_slot [OF assms(1), of x i]
  by (auto simp: put_slot_def nth_write_at nth_setters slot_layout)

lemma read_put_slot:
  assumes "slot_pos (n + 1) \<le> length p" "i \<le> n" "j \<le> n"
  shows "read_at (slot_pos j) SLOT_SIZE (put_slot i s n p) =
    (if j < i then read_at (slot_pos j) SLOT_SIZE p
     else if j = i then encode_slot s else read_at (slot_pos (j - 1)) SLOT_SIZE p)"
proof -
  note len = length_open_slot [OF assms(1), of i]
  consider "j < i" | "j = i" | "i < j" by linarith
  then show ?thesis
  proof cases
    case 1
    then show ?thesis
      using assms len read_open_slot_outside [OF assms(1), of "slot_pos j" SLOT_SIZE i]
      by (simp add: put_slot_def window_simps slot_layout)
  next
    case 2
    then show ?thesis
      using assms len by (simp add: put_slot_def window_simps slot_layout)
  next
    case 3
    then have "read_at (slot_pos j) SLOT_SIZE (put_slot i s n p) =
        read_at (slot_pos j) SLOT_SIZE (open_slot i n p)"
      using assms len by (simp add: put_slot_def window_simps slot_layout)
    then show ?thesis using 3 read_open_slot [OF assms(1) 3 assms(3)] by simp
  qed
qed

lemma slots_put_slot:
  assumes "slot_pos (hdr_num_slots p + 1) \<le> length p" "i \<le> hdr_num_slots p"
    and "hdr_num_slots p + 1 < 65536"
  shows "slots (put_slot i s (hdr_num_slots p) p) =
    take i (slots p) @ decode_slot (encode_slot s) # drop i (slots p)"
proof (rule nth_equalityI)
  let ?n = "hdr_num_slots p" and ?q = "put_slot i s (hdr_num_slots p) p"
  have n: "hdr_num_slots ?q = ?n + 1" by (rule num_slots_put_slot [OF assms])
  then show "length (slots ?q) = length (take i (slots p) @ decode_slot (encode_slot s) # drop i (slots p))"
    using assms by simp
  fix j assume "j < length (slots ?q)"
  then have j: "j \<le> ?n" using n by simp
  then show "slots ?q ! j = (take i (slots p) @ decode_slot (encode_slot s) # drop i (slots p)) ! j"
    using read_put_slot [OF assms(1,2) j, of s] assms(2) n
    by (auto simp: nth_append slot_at_def nth_Cons' min_def)
qed

section \<open>The data of the new entry\<close>

definition put_data :: "nat \<Rightarrow> bytes \<Rightarrow> bytes \<Rightarrow> bytes \<Rightarrow> bytes" where
  "put_data off key val p = write_at (off + length key) val (write_at off key p)"

lemma put_data_eq: "off + (length key + length val) \<le> length p \<Longrightarrow>
    put_data off key val p = write_at off (key @ val) p"
  by (rule nth_equalityI) (auto simp: put_data_def nth_write_at nth_append)

definition insert_page :: "nat \<Rightarrow> bytes \<Rightarrow> bytes \<Rightarrow> bytes \<Rightarrow> bytes" where
  "insert_page i key val p =
     (let dl = length key + length val; ndo = hdr_data_offset p - dl in
      set_space_used (hdr_space_used p + dl)
       (set_data_offset ndo
         (put_slot i \<lparr> slot_off = ndo, key_len = length key, val_len = length val,
            slot_head = make_head key \<rparr> (hdr_num_slots p) (put_data ndo key val p))))"

text \<open>Room for the entry: the facts of a well-formed page that has the space \<open>insert\<close> needs.\<close>

definition insert_room :: "nat \<Rightarrow> bytes \<Rightarrow> bytes \<Rightarrow> bytes \<Rightarrow> bool" where
  "insert_room i key val p =
     (wf_page p \<and> i \<le> hdr_num_slots p \<and>
      SLOT_SIZE + (length key + length val) \<le> free_space p)"

lemma insert_roomD:
  assumes "insert_room i key val p"
  shows "wf_page p" "i \<le> hdr_num_slots p" "length p = 65536"
    "slot_pos (hdr_num_slots p + 1) + (length key + length val) \<le> hdr_data_offset p"
    "hdr_data_offset p \<le> 65536" "hdr_num_slots p + 1 < 65536"
    "hdr_space_used p + (length key + length val) \<le> 65536"
  using assms wf_pageD(1-4) [of p]
  by (auto simp: insert_room_def free_space_def slot_layout PAGE_SIZE_def)

lemma insert_body_run:
  assumes "insert_room i key val p"
  shows "insert_body i key val p = Some (insert_page i key val p)"
proof -
  note r = insert_roomD [OF assms]
  define n where "n = hdr_num_slots p"
  define dl where "dl = length key + length val"
  define ndo where "ndo = hdr_data_offset p - dl"
  define q where "q = put_data ndo key val p"
  define s where "s = \<lparr> slot_off = ndo, key_len = length key, val_len = length val,
    slot_head = make_head key \<rparr>"
  have b: "slot_pos (n + 1) \<le> ndo" "ndo + dl = hdr_data_offset p" "dl mod 2 ^ 32 = dl"
    "ndo + dl \<le> 65536" "i \<le> n" "n + 1 < 65536"
    using r by (auto simp: ndo_def dl_def n_def)
  have q: "length q = 65536" "hdr_num_slots q = n" "hdr_space_used q = hdr_space_used p"
    using b r(3) by (simp_all add: q_def put_data_eq dl_def n_def window_simps slot_layout)
  have gap: "i < n \<longrightarrow> slot_pos (i + 1) + (n - i) * SLOT_SIZE \<le> length q"
    using gap_end [of i n] b q by simp
  have lo: "length (open_slot i n q) = 65536" using length_open_slot [of n q i] b q by simp
  have su: "hdr_space_used (open_slot i n q) = hdr_space_used p"
    using read_open_slot_outside [of n q 12 4 i] b q by (simp add: rd_def slot_layout)
  have ps: "length (put_slot i s n q) = 65536" "hdr_space_used (put_slot i s n q) = hdr_space_used p"
    using lo su b by (simp_all add: put_slot_def window_simps slot_layout)
  have si: "i < hdr_num_slots (set_num_slots (n + 1) (open_slot i n q))"
    "slot_pos i + SLOT_SIZE \<le> length (set_num_slots (n + 1) (open_slot i n q))"
    using b lo by (simp_all add: slot_layout)
  show ?thesis
    unfolding insert_body_def insert_page_def Let_def
    apply (fold dl_def, fold ndo_def, fold put_data_def, fold q_def, fold s_def)
    apply (simp only: q(2))
    apply (fold n_def, fold open_slot_def, fold put_slot_def)
    using b q gap si ps r by (simp add: dl_def)
qed

section \<open>The page after an insertion\<close>

definition new_slot :: "bytes \<Rightarrow> bytes \<Rightarrow> bytes \<Rightarrow> Slot" where
  "new_slot key val p =
     \<lparr> slot_off = (hdr_data_offset p - (length key + length val)) mod 65536,
       key_len = length key, val_len = length val, slot_head = make_head key \<rparr>"

lemma new_slot_off:
  assumes "insert_room i key val p" "length key + length val \<noteq> 0"
  shows "slot_off (new_slot key val p) = hdr_data_offset p - (length key + length val)"
proof -
  have "hdr_data_offset p - (length key + length val) < 65536"
    using insert_roomD(4,5) [OF assms(1)] assms(2) by linarith
  then show ?thesis by (simp add: new_slot_def)
qed

lemma insert_body_bad_slot:
  assumes "insert_room 0 key val p" "hdr_num_slots p < i"
  shows "insert_body i key val p = None"
proof -
  note r = insert_roomD [OF assms(1)]
  let ?q = "put_data (hdr_data_offset p - (length key + length val)) key val p"
  have q: "length ?q = 65536" "hdr_num_slots ?q = hdr_num_slots p"
    using r by (simp_all add: put_data_eq window_simps slot_layout)
  have "\<not> i < hdr_num_slots (set_num_slots (hdr_num_slots p + 1) ?q)"
    using q r assms(2) by simp
  then show ?thesis
    using assms(2) q unfolding insert_body_def Let_def
    by (fold put_data_def) (auto simp: bind_eq_None_conv)
qed

lemma insert_page_fields:
  assumes "insert_room i key val p"
  defines "q \<equiv> insert_page i key val p"
  shows "length q = 65536" "hdr_num_slots q = hdr_num_slots p + 1"
    "hdr_data_offset q = hdr_data_offset p - (length key + length val)"
    "hdr_space_used q = hdr_space_used p + (length key + length val)"
    "slots q = take i (slots p) @ new_slot key val p # drop i (slots p)"
proof -
  note r = insert_roomD [OF assms(1)]
  let ?ndo = "hdr_data_offset p - (length key + length val)"
  let ?d = "put_data ?ndo key val p"
  have d: "length ?d = 65536" "hdr_num_slots ?d = hdr_num_slots p" "slots ?d = slots p"
    using r by (simp_all add: put_data_eq window_simps slots_write_data slot_layout)
  define s where "s = \<lparr> slot_off = ?ndo, key_len = length key, val_len = length val,
    slot_head = make_head key \<rparr>"
  let ?s = "put_slot i s (hdr_num_slots p) ?d"
  have ps: "length ?s = 65536" "hdr_num_slots ?s = hdr_num_slots p + 1"
    "slots ?s = take i (slots p) @ decode_slot (encode_slot s) # drop i (slots p)"
    using r d num_slots_put_slot [of "hdr_num_slots p" ?d i s] slots_put_slot [of ?d i s]
      length_open_slot [of "hdr_num_slots p" ?d i]
    by (simp_all add: put_slot_def slot_layout)
  have "decode_slot (encode_slot s) = new_slot key val p"
    using decode_encode_slot [of s] r make_head_less [of key]
    by (simp add: s_def new_slot_def slot_layout)
  then show "length q = 65536" "hdr_num_slots q = hdr_num_slots p + 1"
    "hdr_data_offset q = ?ndo" "hdr_space_used q = hdr_space_used p + (length key + length val)"
    "slots q = take i (slots p) @ new_slot key val p # drop i (slots p)"
    using ps r by (simp_all add: q_def insert_page_def Let_def flip: s_def)
qed

lemma nth_insert_page:
  assumes "insert_room i key val p"
    and "x < 8 \<or> 24 \<le> x \<and> x < slot_pos i \<or> slot_pos (hdr_num_slots p + 1) \<le> x \<and>
      (x < hdr_data_offset p - (length key + length val) \<or> hdr_data_offset p \<le> x)"
  shows "insert_page i key val p ! x = p ! x"
proof -
  note r = insert_roomD [OF assms(1)]
  let ?ndo = "hdr_data_offset p - (length key + length val)"
  let ?d = "put_data ?ndo key val p"
  have "length ?d = 65536" "?d ! x = p ! x"
    using r assms(2) by (auto simp: put_data_eq nth_write_at slot_layout)
  then show ?thesis
    using r assms(2) nth_put_slot [of "hdr_num_slots p" ?d i x]
      length_open_slot [of "hdr_num_slots p" ?d i]
    by (auto simp: insert_page_def Let_def nth_setters put_slot_def slot_layout)
qed

lemma read_insert_page:
  assumes "insert_room i key val p" "slot_pos (hdr_num_slots p + 1) \<le> off"
  shows "read_at off m (insert_page i key val p) =
    read_at off m (put_data (hdr_data_offset p - (length key + length val)) key val p)"
proof -
  note r = insert_roomD [OF assms(1)]
  let ?d = "put_data (hdr_data_offset p - (length key + length val)) key val p"
  have "length ?d = 65536" using r by (simp add: put_data_eq)
  then show ?thesis
    using r assms(2) nth_put_slot [of "hdr_num_slots p" ?d i]
      length_open_slot [of "hdr_num_slots p" ?d i]
    by (intro read_at_agree)
       (auto simp: insert_page_def Let_def nth_setters put_slot_def slot_layout)
qed

lemma read_insert_page_old:
  assumes "insert_room i key val p" "hdr_data_offset p \<le> off"
  shows "read_at off m (insert_page i key val p) = read_at off m p"
proof -
  note r = insert_roomD [OF assms(1)]
  have "read_at off m (insert_page i key val p) =
      read_at off m (put_data (hdr_data_offset p - (length key + length val)) key val p)"
    using assms r by (intro read_insert_page) (auto simp: slot_layout)
  then show ?thesis using r assms(2) by (simp add: put_data_eq window_simps)
qed

lemma entry_of_new:
  assumes "insert_room i key val p"
  shows "entry_of (insert_page i key val p) (new_slot key val p) = (key, val)"
proof (cases "length key + length val = 0")
  case True
  then show ?thesis by (simp add: entry_of_def new_slot_def)
next
  case False
  note r = insert_roomD [OF assms]
  let ?ndo = "hdr_data_offset p - (length key + length val)"
  have "read_at off m (insert_page i key val p) = read_at off m (put_data ?ndo key val p)"
    if "?ndo \<le> off" for off m
    using read_insert_page [OF assms, of off m] r that by auto
  moreover have "key_len (new_slot key val p) = length key" "val_len (new_slot key val p) = length val"
    by (simp_all add: new_slot_def)
  ultimately show ?thesis
    using r new_slot_off [OF assms False] by (simp add: entry_of_def put_data_def window_simps)
qed

lemma entry_of_old:
  assumes "insert_room i key val p" "s \<in> set (slots p)"
  shows "entry_of (insert_page i key val p) s = entry_of p s"
  using wf_pageD(6) [OF insert_roomD(1) [OF assms(1)] assms(2)] read_insert_page_old [OF assms(1)]
  by (intro entry_of_cong) (auto simp: slot_ok_def)

lemma insert_page_entries:
  assumes "insert_room i key val p"
  shows "entries (insert_page i key val p) = take i (entries p) @ (key, val) # drop i (entries p)"
  using insert_page_fields(5) [OF assms] entry_of_new [OF assms] entry_of_old [OF assms]
  by (auto simp: entries_def take_map drop_map dest: in_set_takeD in_set_dropD)

lemma live_insert_page:
  assumes "insert_room i key val p"
  shows "live (insert_page i key val p) = live p + (length key + length val)"
  using insert_page_fields(5) [OF assms] sum_list_take_drop [of slot_len i "slots p"]
  by (simp add: live_def new_slot_def slot_len_def)

lemma apart_sym: "apart s t = apart t s"
  by (auto simp: apart_def)

lemma wf_insert_page:
  assumes "insert_room i key val p"
  shows "wf_page (insert_page i key val p)"
proof -
  let ?q = "insert_page i key val p" and ?s = "new_slot key val p"
  note r = insert_roomD [OF assms] and f = insert_page_fields [OF assms]
  note wf = wf_pageD [OF r(1)]
  let ?dl = "length key + length val"
  let ?ndo = "hdr_data_offset p - ?dl"
  have res: "reserved ?q = reserved p" using f(4) live_insert_page [OF assms] by (simp add: reserved_def)
  have rp: "reserved p \<le> hdr_space_used p" by (simp add: reserved_def)
  have off: "slot_off ?s = ?ndo \<or> ?dl = 0" using new_slot_off [OF assms] by blast
  have old: "slot_ok (hdr_data_offset ?q) (PAGE_SIZE - reserved ?q) ?q t" if "t \<in> set (slots p)" for t
    using wf(6) [OF that] entry_of_old [OF assms that] f(3) res by (auto simp: slot_ok_def)
  have new: "slot_ok (hdr_data_offset ?q) (PAGE_SIZE - reserved ?q) ?q ?s"
    using off r f(3) res rp wf(3) entry_of_new [OF assms]
    by (auto simp: slot_ok_def slot_len_def new_slot_def)
  have ap: "apart t ?s" if "t \<in> set (slots p)" for t
    using wf(6) [OF that] off r by (auto simp: slot_ok_def apart_def slot_len_def new_slot_def)
  have "sorted_wrt apart (slots ?q)"
    using wf(5) ap apart_sym unfolding f(5)
    by (auto simp: sorted_wrt_append dest: in_set_takeD in_set_dropD
        intro: sorted_wrt_take sorted_wrt_drop)
      (metis append_take_drop_id sorted_wrt_append)
  moreover have "\<forall>t \<in> set (slots ?q). slot_ok (hdr_data_offset ?q) (PAGE_SIZE - reserved ?q) ?q t"
    using old new f(5) by (auto dest: in_set_takeD in_set_dropD)
  ultimately show ?thesis
    using r f wf live_insert_page [OF assms]
    by (simp add: wf_page_def PAGE_SIZE_def slot_layout)
qed

end
