(* ===== verification/Slotted_Page_Remove.thy ===== *)
theory Slotted_Page_Remove
  imports Slotted_Page_Insert
begin

text \<open>
  Removal of an entry and in-place replacement of a value: closing the gap in the slot array, and
  writing a value of the same length over the old one. Both keep the page well-formed and do to
  the list of entries what their names say.
\<close>

section \<open>Closing a slot\<close>

definition close_slot :: "nat \<Rightarrow> nat \<Rightarrow> bytes \<Rightarrow> bytes" where
  "close_slot i n p = (if n - i - 1 > 0
     then write_at (slot_pos i) (read_at (slot_pos (i + 1)) ((n - i - 1) * SLOT_SIZE) p) p else p)"

lemma length_close_slot: "slot_pos n \<le> length p \<Longrightarrow> length (close_slot i n p) = length p"
  by (simp add: close_slot_def slot_layout)

lemma nth_close_slot:
  assumes "slot_pos n \<le> length p" "x < slot_pos i \<or> slot_pos (n - 1) \<le> x"
  shows "close_slot i n p ! x = p ! x"
  using assms by (auto simp: close_slot_def nth_write_at slot_layout)

lemma read_close_slot:
  assumes "slot_pos n \<le> length p" "i < n" "j < n - 1"
  shows "read_at (slot_pos j) SLOT_SIZE (close_slot i n p) =
    read_at (slot_pos (if j < i then j else j + 1)) SLOT_SIZE p"
proof (cases "j < i")
  case True
  then show ?thesis
    using assms nth_close_slot [OF assms(1)] length_close_slot [OF assms(1)]
    by (simp, intro read_at_agree) (auto simp: slot_layout)
next
  case False
  let ?t = "read_at (slot_pos (i + 1)) ((n - i - 1) * SLOT_SIZE) p"
  have len: "length ?t = (n - i - 1) * SLOT_SIZE" using assms by (simp add: slot_layout)
  have more: "Suc i < n" using assms False by linarith
  have "read_at (slot_pos j) SLOT_SIZE (close_slot i n p) =
      read_at (slot_pos j - slot_pos i) SLOT_SIZE ?t"
    using assms False len more by (simp add: close_slot_def slot_layout read_at_write_inside)
  also have "\<dots> = read_at (slot_pos (i + 1) + (slot_pos j - slot_pos i)) SLOT_SIZE p"
    using assms False by (intro read_at_read_at) (simp add: slot_layout)
  also have "slot_pos (i + 1) + (slot_pos j - slot_pos i) = slot_pos (j + 1)"
    using False by (simp add: slot_layout)
  finally show ?thesis using False by simp
qed

lemma slots_close_slot:
  assumes "slot_pos (hdr_num_slots p) \<le> length p" "i < hdr_num_slots p"
  shows "slots (set_num_slots (hdr_num_slots p - 1) (close_slot i (hdr_num_slots p) p)) =
    take i (slots p) @ drop (i + 1) (slots p)"
proof (rule nth_equalityI)
  let ?n = "hdr_num_slots p"
  let ?q = "set_num_slots (?n - 1) (close_slot i ?n p)"
  have len: "length (close_slot i ?n p) = length p" by (rule length_close_slot [OF assms(1)])
  have "?n < 65536" using rd_less [of 2 16 p] by simp
  then have n: "hdr_num_slots ?q = ?n - 1"
    using len assms by (simp add: slot_layout)
  show "length (slots ?q) = length (take i (slots p) @ drop (i + 1) (slots p))"
    using n assms by simp
  fix j assume "j < length (slots ?q)"
  then have j: "j < ?n - 1" using n by simp
  have "read_at (slot_pos j) SLOT_SIZE ?q = read_at (slot_pos j) SLOT_SIZE (close_slot i ?n p)"
    using len assms by (simp add: slot_layout)
  then show "slots ?q ! j = (take i (slots p) @ drop (i + 1) (slots p)) ! j"
    using read_close_slot [OF assms j] n j assms
    by (auto simp: nth_append slot_at_def min_def)
qed

section \<open>Removal\<close>

definition remove_page :: "nat \<Rightarrow> bytes \<Rightarrow> bytes" where
  "remove_page i p =
     (let n = hdr_num_slots p;
          q = set_space_used (hdr_space_used p - slot_len (slot_at p i)) p;
          q = set_num_slots (n - 1) (close_slot i n q) in
      set_flags (page_flags q OR FLAG_HAS_GARBAGE) q)"

lemma live_split:
  assumes "i < hdr_num_slots p"
  shows "live p = sum_list (map slot_len (take i (slots p) @ drop (i + 1) (slots p))) +
    slot_len (slot_at p i)"
proof -
  have "slots p = take i (slots p) @ slot_at p i # drop (i + 1) (slots p)"
    using id_take_nth_drop [of i "slots p"] assms by simp
  then have "sum_list (map slot_len (slots p)) =
      sum_list (map slot_len (take i (slots p) @ slot_at p i # drop (i + 1) (slots p)))"
    by metis
  then show ?thesis by (simp add: live_def)
qed

lemma remove_entry_run:
  assumes "wf_page p" "i < hdr_num_slots p"
  shows "remove_entry i p = Some (remove_page i p)"
proof -
  note wf = wf_pageD [OF assms(1)]
  have "slot_len (slot_at p i) \<le> hdr_space_used p" using live_split [OF assms(2)] wf(4) by simp
  moreover have "24 \<le> length p" "slot_pos (i + 1) + (hdr_num_slots p - i - 1) * SLOT_SIZE \<le> length p"
    using wf(1-3) assms(2) by (simp_all add: slot_layout PAGE_SIZE_def)
  ultimately show ?thesis
    using assms
    by (simp add: remove_entry_def remove_page_def wf_slot slot_len_def close_slot_def Let_def
        del: of_nat_diff)
qed

lemma remove_page_fields:
  assumes "wf_page p" "i < hdr_num_slots p"
  defines "q \<equiv> remove_page i p"
  shows "length q = PAGE_SIZE" "hdr_num_slots q = hdr_num_slots p - 1"
    "hdr_data_offset q = hdr_data_offset p"
    "hdr_space_used q = hdr_space_used p - slot_len (slot_at p i)"
    "slots q = take i (slots p) @ drop (i + 1) (slots p)"
    "\<And>x. x < 8 \<or> 24 \<le> x \<and> x < slot_pos i \<or> slot_pos (hdr_num_slots p - 1) \<le> x \<Longrightarrow> q ! x = p ! x"
proof -
  note wf = wf_pageD [OF assms(1)]
  let ?n = "hdr_num_slots p"
  let ?a = "set_space_used (hdr_space_used p - slot_len (slot_at p i)) p"
  let ?b = "close_slot i ?n ?a"
  have p: "24 \<le> length p" "slot_pos ?n \<le> length p" "?n < 65536" "hdr_space_used p < 2 ^ 32"
    using wf(1-3) rd_less [of 2 16 p] rd_less [of 4 12 p] by (simp_all add: slot_layout PAGE_SIZE_def)
  have a: "length ?a = length p" "hdr_num_slots ?a = ?n" "slots ?a = slots p"
    "hdr_data_offset ?a = hdr_data_offset p"
    "hdr_space_used ?a = hdr_space_used p - slot_len (slot_at p i)"
    using p by simp_all
  have b: "length ?b = length p" using length_close_slot [of ?n ?a i] a p by simp
  have fix_hdr: "rd m off ?b = rd m off ?a" if "off + m \<le> 24" for m off
    using that a b p nth_close_slot [of ?n ?a _ i] by (intro rd_agree) (auto simp: slot_layout)
  show "slots q = take i (slots p) @ drop (i + 1) (slots p)"
    using slots_close_slot [of ?a i] a b p assms(2) by (simp add: q_def remove_page_def Let_def)
  show "length q = PAGE_SIZE" using b p wf(1) by (simp add: q_def remove_page_def Let_def)
  show "hdr_num_slots q = ?n - 1" using b p by (simp add: q_def remove_page_def Let_def)
  show "hdr_data_offset q = hdr_data_offset p"
    "hdr_space_used q = hdr_space_used p - slot_len (slot_at p i)"
    using b p a fix_hdr [of 8 4] fix_hdr [of 12 4] by (simp_all add: q_def remove_page_def Let_def)
  show "q ! x = p ! x" if "x < 8 \<or> 24 \<le> x \<and> x < slot_pos i \<or> slot_pos (?n - 1) \<le> x" for x
    using that a b p nth_close_slot [of ?n ?a x i]
    by (auto simp: q_def remove_page_def Let_def nth_setters slot_layout)
qed

lemma remove_entries_sub: "s \<in> set (take i xs @ drop (i + 1) xs) \<Longrightarrow> s \<in> set xs"
  by (auto dest: in_set_takeD in_set_dropD)

lemma entry_of_remove:
  assumes "wf_page p" "i < hdr_num_slots p" "s \<in> set (slots p)"
  shows "entry_of (remove_page i p) s = entry_of p s"
proof (rule entry_of_cong)
  note f = remove_page_fields [OF assms(1,2)] and wf = wf_pageD [OF assms(1)]
  have "slot_len s = 0 \<or> slot_pos (hdr_num_slots p - 1) \<le> slot_off s"
    using wf(6) [OF assms(3)] wf(2) by (auto simp: slot_ok_def slot_layout)
  then show "slot_len s = 0 \<or> read_at (slot_off s) (slot_len s) (remove_page i p) =
      read_at (slot_off s) (slot_len s) p"
    using f(1,6) wf(1) by (auto intro!: read_at_agree)
qed

lemma remove_page_entries:
  assumes "wf_page p" "i < hdr_num_slots p"
  shows "entries (remove_page i p) = take i (entries p) @ drop (i + 1) (entries p)"
  using remove_page_fields(5) [OF assms] entry_of_remove [OF assms]
  by (auto simp: entries_def take_map drop_map dest: in_set_takeD in_set_dropD)

lemma sorted_wrt_remove:
  "sorted_wrt P xs \<Longrightarrow> sorted_wrt P (take i xs @ drop (i + 1) xs)"
proof (cases "i < length xs")
  case True
  assume "sorted_wrt P xs"
  then have "sorted_wrt P (take i xs @ xs ! i # drop (i + 1) xs)"
    using id_take_nth_drop [OF True] by simp
  then show ?thesis by (auto simp: sorted_wrt_append)
qed simp

lemma wf_remove_page:
  assumes "wf_page p" "i < hdr_num_slots p"
  shows "wf_page (remove_page i p)" "reserved (remove_page i p) = reserved p"
proof -
  note f = remove_page_fields [OF assms] and wf = wf_pageD [OF assms(1)]
  let ?q = "remove_page i p"
  have live: "live p = live ?q + slot_len (slot_at p i)"
    using live_split [OF assms(2)] by (simp only: f(5) live_def)
  then show res: "reserved ?q = reserved p" using f(4) by (simp add: reserved_def)
  have "slot_ok (hdr_data_offset ?q) (PAGE_SIZE - reserved ?q) ?q s" if "s \<in> set (slots ?q)" for s
  proof -
    have "s \<in> set (slots p)" using that remove_entries_sub unfolding f(5) by metis
    then show ?thesis using wf(6) entry_of_remove [OF assms] f(3) res by (simp add: slot_ok_def)
  qed
  then show "wf_page ?q"
    using f(1-4) wf live sorted_wrt_remove [OF wf(5), of i]
    by (auto simp: wf_page_def f(5) slot_layout)
qed

section \<open>Replacing a value\<close>

lemma update_value_run:
  assumes "wf_page p" "i < hdr_num_slots p" "length val = length (snd (entries p ! i))"
  defines "s \<equiv> slot_at p i"
  shows "update_value_if_same_length i val p = Some (True, write_at (slot_off s + key_len s) val p)"
    "length val = val_len s" "slot_off s + key_len s + length val \<le> PAGE_SIZE"
    "slot_len s = 0 \<or> slot_pos (hdr_num_slots p) \<le> slot_off s"
proof -
  note wf = wf_pageD [OF assms(1)]
  have s: "s \<in> set (slots p)" using assms(2) by (auto simp: s_def set_slots)
  note b = wf_slot_bounds [OF assms(1) s]
  show len: "length val = val_len s"
    using assms(3) b(1) wf(1) nth_entries [OF assms(2)]
    by (simp add: entry_of_def s_def slot_len_def)
  show bound: "slot_off s + key_len s + length val \<le> PAGE_SIZE" using b(1) len by (simp add: slot_len_def)
  show "update_value_if_same_length i val p = Some (True, write_at (slot_off s + key_len s) val p)"
    using wf_slot [OF assms(1,2)] len bound wf(1)
    by (simp add: update_value_if_same_length_def Let_def flip: s_def)
  show "slot_len s = 0 \<or> slot_pos (hdr_num_slots p) \<le> slot_off s"
    using wf(6) [OF s] wf(2) by (auto simp: slot_ok_def)
qed

lemma apart_nth:
  assumes "wf_page p" "i < hdr_num_slots p" "j < hdr_num_slots p" "i \<noteq> j"
  shows "apart (slot_at p i) (slot_at p j)"
proof (cases "i < j")
  case True
  then show ?thesis
    using sorted_wrt_nth_less [OF wf_pageD(5) [OF assms(1)], of i j] assms by simp
next
  case False
  then show ?thesis
    using sorted_wrt_nth_less [OF wf_pageD(5) [OF assms(1)], of j i] assms apart_sym by simp
qed

lemma write_value_agree:
  assumes "wf_page p" "i < hdr_num_slots p" "length val = length (snd (entries p ! i))"
  defines "s \<equiv> slot_at p i" and "q \<equiv> write_at (slot_off (slot_at p i) + key_len (slot_at p i)) val p"
  shows "length q = PAGE_SIZE" "rd m off p = rd m off q \<or> 24 < off + m" "slots q = slots p"
    "\<And>x. x < slot_off s + key_len s \<or> slot_off s + key_len s + length val \<le> x \<Longrightarrow> q ! x = p ! x"
proof -
  note wf = wf_pageD [OF assms(1)] and u = update_value_run [OF assms(1-3), folded s_def]
  have q: "q = write_at (slot_off s + key_len s) val p" by (simp add: q_def s_def)
  show len: "length q = PAGE_SIZE" using u(3) wf(1) by (simp add: q)
  show "\<And>x. x < slot_off s + key_len s \<or> slot_off s + key_len s + length val \<le> x \<Longrightarrow> q ! x = p ! x"
    using u(3) wf(1) by (auto simp: q nth_write_at)
  have high: "val = [] \<or> slot_pos (hdr_num_slots p) \<le> slot_off s + key_len s"
    using u(2,4) by (auto simp: slot_len_def)
  then show "rd m off p = rd m off q \<or> 24 < off + m"
    using u(3) wf(1) by (auto simp: q rd_write_disjoint slot_layout)
  show "slots q = slots p"
    using high u(3) wf(1) by (auto simp: q intro: slots_write_data)
qed

lemma write_value_entries:
  assumes "wf_page p" "i < hdr_num_slots p" "length val = length (snd (entries p ! i))"
  defines "q \<equiv> write_at (slot_off (slot_at p i) + key_len (slot_at p i)) val p"
  shows "entries q = (entries p)[i := (fst (entries p ! i), val)]"
proof (rule nth_equalityI)
  define s where "s = slot_at p i"
  note w = write_value_agree [OF assms(1-3), folded q_def s_def]
    and u = update_value_run [OF assms(1-3), folded s_def] and wf = wf_pageD [OF assms(1)]
  have len: "length (entries q) = hdr_num_slots p" using w(3) by (simp add: entries_def)
  then show "length (entries q) = length ((entries p)[i := (fst (entries p ! i), val)])" by simp
  fix j assume "j < length (entries q)"
  then have j: "j < hdr_num_slots p" using len by simp
  have q: "q = write_at (slot_off s + key_len s) val p" by (simp add: q_def s_def)
  have at: "entries q ! j = entry_of q (slot_at p j)"
    using j w(3) by (simp add: entries_def)
  show "entries q ! j = (entries p)[i := (fst (entries p ! i), val)] ! j"
  proof (cases "j = i")
    case True
    have "read_at (slot_off s) (key_len s) q = read_at (slot_off s) (key_len s) p"
      using w(1,4) wf(1) by (intro read_at_agree) auto
    moreover have "read_at (slot_off s + key_len s) (val_len s) q = val"
      using u(2,3) wf(1) by (simp add: q window_simps)
    ultimately show ?thesis
      using True at j by (simp add: nth_entries entry_of_def s_def)
  next
    case False
    have "apart s (slot_at p j)" unfolding s_def using apart_nth [OF assms(1,2) j] False by simp
    then have "slot_len (slot_at p j) = 0 \<or> read_at (slot_off (slot_at p j)) (slot_len (slot_at p j)) q =
        read_at (slot_off (slot_at p j)) (slot_len (slot_at p j)) p"
    proof (cases "val = []")
      case False
      then have "slot_len s \<noteq> 0" using u(2) by (auto simp: slot_len_def)
      with \<open>apart s (slot_at p j)\<close> show ?thesis
        using w(1,4) wf(1) u(2) by (auto simp: apart_def slot_len_def intro!: read_at_agree)
    qed (simp add: q)
    then show ?thesis using False j at entry_of_cong by (simp add: nth_entries)
  qed
qed

lemma wf_write_value:
  assumes "wf_page p" "i < hdr_num_slots p" "length val = length (snd (entries p ! i))"
  defines "q \<equiv> write_at (slot_off (slot_at p i) + key_len (slot_at p i)) val p"
  shows "wf_page q" "reserved q = reserved p"
proof -
  note w = write_value_agree [OF assms(1-3), folded q_def] and wf = wf_pageD [OF assms(1)]
  have h: "hdr_data_offset q = hdr_data_offset p" "hdr_space_used q = hdr_space_used p"
    "hdr_num_slots q = hdr_num_slots p"
    using w(2) [of 4 8] w(2) [of 4 12] w(2) [of 2 16] by simp_all
  have lv: "live q = live p" using w(3) by (simp add: live_def)
  then show res: "reserved q = reserved p" using h by (simp add: reserved_def)
  have keys: "fst (entries q ! j) = fst (entries p ! j)" if "j < hdr_num_slots p" for j
    using write_value_entries [OF assms(1-3), folded q_def] that assms(2) by (simp add: nth_list_update)
  have "slot_ok (hdr_data_offset q) (PAGE_SIZE - reserved q) q t" if t: "t \<in> set (slots p)" for t
  proof -
    obtain j where j: "j < hdr_num_slots p" "t = slot_at p j" using t by (auto simp: set_slots)
    then have "fst (entry_of q t) = fst (entry_of p t)"
      using keys [OF j(1)] h(3) w(3) by (simp add: entries_def)
    then show ?thesis using wf(6) [OF t] h(1) res by (simp add: slot_ok_def)
  qed
  then show "wf_page q" using w(1,3) h wf lv by (simp add: wf_page_def slot_layout)
qed

end
