(* ===== verification/Slotted_Page_Compact.thy ===== *)
theory Slotted_Page_Compact
  imports Slotted_Page_Remove
begin

text \<open>
  Compaction: \<open>compactify\<close> moves the data of the live entries to the end of the data region and
  loses nothing. Each loop gets one lemma by induction on the slots it still has to visit; the
  positions of the moved data are the partial sums of the data lengths below the reserved suffix.
\<close>

section \<open>Single slots\<close>

lemma slot_at_rd:
  "slot_at p i = \<lparr> slot_off = rd 2 (slot_pos i) p, key_len = rd 2 (slot_pos i + 2) p,
     val_len = rd 2 (slot_pos i + 4) p, slot_head = rd 4 (slot_pos i + 8) p \<rparr>"
  by (simp add: slot_at_def decode_slot_def rd_def read_at_read_at SLOT_SIZE_def)

lemma slot_at_set_offset:
  assumes "slot_pos i + SLOT_SIZE \<le> length p"
  shows "slot_at (wr 2 (slot_pos i) v p) j =
    (if j = i then (slot_at p i)\<lparr>slot_off := v mod 65536\<rparr> else slot_at p j)"
proof (cases "j = i")
  case False
  then have "slot_pos j + 12 \<le> slot_pos i \<or> slot_pos i + 12 \<le> slot_pos j"
    by (auto simp: slot_pos_eq)
  then show ?thesis using False assms by (auto simp: slot_at_rd window_simps SLOT_SIZE_def)
qed (use assms in \<open>simp add: slot_at_rd window_simps SLOT_SIZE_def\<close>)

lemma slot_at_write_data:
  "slot_pos i + SLOT_SIZE \<le> off \<Longrightarrow> off + length bs \<le> length p \<Longrightarrow>
    slot_at (write_at off bs p) i = slot_at p i"
  by (simp add: slot_at_def window_simps)

lemma wf_slot_len_less:
  assumes "wf_page p" "s \<in> set (slots p)"
  shows "slot_len s < 65536"
proof -
  have "slot_len s = 0 \<or> 24 \<le> slot_off s"
    using wf_pageD(6) [OF assms] wf_pageD(2) [OF assms(1)] by (auto simp: slot_ok_def slot_layout)
  then show ?thesis using wf_slot_bounds(1) [OF assms] by (auto simp: PAGE_SIZE_def)
qed

abbreviation lens_at :: "bytes \<Rightarrow> nat list \<Rightarrow> nat list" where
  "lens_at p is \<equiv> map (\<lambda>i. slot_len (slot_at p i)) is"

lemma lens_at_all: "lens_at p [0..<hdr_num_slots p] = map slot_len (slots p)"
  by (simp add: slots_def)

section \<open>The loops\<close>

lemma live_data_loop_run:
  assumes "wf_page p" "\<forall>i \<in> set is. i < hdr_num_slots p"
  shows "live_data_loop p is acc = Some (acc + sum_list (lens_at p is))"
  using assms(2)
proof (induction "is" arbitrary: acc)
  case (Cons i "is")
  then have "slot_off (slot_at p i) + slot_len (slot_at p i) \<le> PAGE_SIZE"
    using wf_slot_bounds(1) [OF assms(1), of "slot_at p i"] by (auto simp: set_slots)
  then show ?case
    using Cons wf_slot [OF assms(1), of i] by (simp add: slot_len_def add.assoc)
qed simp

lemma data_lens_run:
  assumes "wf_page p" "\<forall>i \<in> set is. i < hdr_num_slots p"
  shows "data_lens p is = Some (lens_at p is)"
  using assms(2)
proof (induction "is")
  case (Cons i "is")
  then have "slot_len (slot_at p i) < 65536"
    using wf_slot_len_less [OF assms(1), of "slot_at p i"] by (auto simp: set_slots)
  then show ?case
    using Cons wf_slot [OF assms(1), of i] by (simp add: slot_len_def)
qed simp

lemma gather_loop_run:
  assumes "wf_page p" "\<forall>i \<in> set is. i < hdr_num_slots p"
    and "sum_list (lens_at p is) \<le> wo" "wo \<le> length tmp"
  shows "\<exists>tmp'. gather_loop p is wo tmp = Some tmp' \<and> length tmp' = length tmp \<and>
    (\<forall>x. wo \<le> x \<longrightarrow> tmp' ! x = tmp ! x) \<and>
    (\<forall>k < length is.
      read_at (wo - sum_list (take (Suc k) (lens_at p is))) (slot_len (slot_at p (is ! k))) tmp' =
      read_at (slot_off (slot_at p (is ! k))) (slot_len (slot_at p (is ! k))) p)"
  using assms(2-)
proof (induction "is" arbitrary: wo tmp)
  case (Cons i "is")
  define s where "s = slot_at p i"
  define wo' where "wo' = wo - slot_len s"
  define tmp1 where "tmp1 = write_at wo' (read_at (slot_off s) (slot_len s) p) tmp"
  have i: "i < hdr_num_slots p" using Cons.prems(1) by simp
  have sb: "slot_off s + slot_len s \<le> length p"
    using wf_slot_bounds(1) [OF assms(1), of s] wf_pageD(1) [OF assms(1)] i
    by (auto simp: s_def set_slots)
  have wo: "slot_len s \<le> wo" "sum_list (lens_at p is) \<le> wo'" "wo' + slot_len s \<le> length tmp"
    using Cons.prems(2,3) by (auto simp: wo'_def s_def)
  have lr: "length (read_at (slot_off s) (slot_len s) p) = slot_len s" using sb by simp
  have t1: "length tmp1 = length tmp" using wo(3) lr by (simp add: tmp1_def)
  obtain tmp' where IH: "gather_loop p is wo' tmp1 = Some tmp'" "length tmp' = length tmp1"
    "\<forall>x. wo' \<le> x \<longrightarrow> tmp' ! x = tmp1 ! x"
    "\<forall>k < length is. read_at (wo' - sum_list (take (Suc k) (lens_at p is)))
        (slot_len (slot_at p (is ! k))) tmp' =
      read_at (slot_off (slot_at p (is ! k))) (slot_len (slot_at p (is ! k))) p"
    using Cons.IH [of wo' tmp1] Cons.prems wo t1 by auto
  have run: "gather_loop p (i # is) wo tmp = Some tmp'"
    using IH(1) wf_slot [OF assms(1) i] wo sb
    by (simp add: Let_def tmp1_def wo'_def slot_len_def flip: s_def)
  have first: "read_at wo' (slot_len s) tmp' = read_at (slot_off s) (slot_len s) p"
  proof -
    have "read_at wo' (slot_len s) tmp' = read_at wo' (slot_len s) tmp1"
      using IH(2,3) by (intro read_at_agree) auto
    also have "\<dots> = read_at (slot_off s) (slot_len s) p"
      unfolding tmp1_def using wo(3) lr by (intro read_write_same_n) auto
    finally show ?thesis .
  qed
  have above: "tmp' ! x = tmp ! x" if "wo \<le> x" for x
    using IH(3) that wo lr by (auto simp: tmp1_def nth_write_at wo'_def)
  have "read_at (wo - sum_list (take (Suc k) (lens_at p (i # is))))
        (slot_len (slot_at p ((i # is) ! k))) tmp' =
      read_at (slot_off (slot_at p ((i # is) ! k))) (slot_len (slot_at p ((i # is) ! k))) p"
    if "k < length (i # is)" for k
    using that IH(4) first by (cases k) (auto simp: wo'_def s_def)
  then show ?case using run IH(2) t1 above by auto
qed simp

lemma write_back_loop_run:
  assumes "i + length ls \<le> hdr_num_slots q" "sum_list ls \<le> off" "off \<le> length q"
    and "slot_pos (hdr_num_slots q) \<le> off - sum_list ls" "length tmp = length q"
  shows "\<exists>q'. write_back_loop tmp ls i off q = Some (off - sum_list ls, q') \<and> length q' = length q \<and>
    (\<forall>x. x < 24 \<or> slot_pos (hdr_num_slots q) \<le> x \<and> x < off - sum_list ls \<or> off \<le> x \<longrightarrow>
      q' ! x = q ! x) \<and>
    (\<forall>x. off - sum_list ls \<le> x \<and> x < off \<longrightarrow> q' ! x = tmp ! x) \<and>
    (\<forall>j < hdr_num_slots q. slot_at q' j =
      (if i \<le> j \<and> j < i + length ls
       then (slot_at q j)\<lparr>slot_off := (off - sum_list (take (Suc (j - i)) ls)) mod 65536\<rparr>
       else slot_at q j))"
  using assms
proof (induction ls arbitrary: i off q)
  case (Cons l ls)
  define off1 where "off1 = off - l"
  define q1 where "q1 = write_at off1 (read_at off1 l tmp) q"
  define q2 where "q2 = wr 2 (slot_pos i) off1 q1"
  let ?n = "hdr_num_slots q"
  have b: "l \<le> off" "sum_list ls \<le> off1" "off1 + l = off" "off \<le> length q"
    "slot_pos ?n \<le> off1 - sum_list ls" "i < ?n" "i + 1 + length ls \<le> ?n"
    using Cons.prems by (auto simp: off1_def)
  have lr: "length (read_at off1 l tmp) = l" using b Cons.prems(5) by simp
  have fit: "off1 + length (read_at off1 l tmp) \<le> length q" "24 \<le> off1"
    using b lr by (simp_all add: slot_pos_eq)
  then have q1: "length q1 = length q" "hdr_num_slots q1 = ?n"
    unfolding q1_def by (simp_all only: length_write_at num_slots_write_data)
  have pos: "slot_pos i + 12 \<le> slot_pos ?n" using b(6) by (simp add: slot_pos_eq)
  have q2: "length q2 = length q" "hdr_num_slots q2 = ?n"
    using q1 pos b by (simp_all add: q2_def window_simps slot_layout)
  obtain q' where IH: "write_back_loop tmp ls (i + 1) off1 q2 = Some (off1 - sum_list ls, q')"
    "length q' = length q2"
    "\<forall>x. x < 24 \<or> slot_pos ?n \<le> x \<and> x < off1 - sum_list ls \<or> off1 \<le> x \<longrightarrow> q' ! x = q2 ! x"
    "\<forall>x. off1 - sum_list ls \<le> x \<and> x < off1 \<longrightarrow> q' ! x = tmp ! x"
    "\<forall>j < ?n. slot_at q' j =
      (if i + 1 \<le> j \<and> j < i + 1 + length ls
       then (slot_at q2 j)\<lparr>slot_off := (off1 - sum_list (take (Suc (j - (i + 1))) ls)) mod 65536\<rparr>
       else slot_at q2 j)"
    using Cons.IH [of "i + 1" q2 off1] b q2 Cons.prems(5) by auto
  have run: "write_back_loop tmp (l # ls) i off q = Some (off - sum_list (l # ls), q')"
  proof -
    have "slot_pos i + SLOT_SIZE \<le> length q1" using pos b q1(1) by (simp add: SLOT_SIZE_def)
    then show ?thesis
      using IH(1) b(1,4,6) q1 by (simp add: Let_def off1_def q1_def q2_def)
  qed
  have sl: "slot_at q2 j = (if j = i then (slot_at q i)\<lparr>slot_off := off1 mod 65536\<rparr> else slot_at q j)"
    if "j < ?n" for j
  proof -
    have "slot_pos j + SLOT_SIZE \<le> off1" "slot_pos i + SLOT_SIZE \<le> off1"
      using that b by (simp_all add: slot_layout)
    then show ?thesis
      using slot_at_set_offset [of i q1 off1 j] slot_at_write_data [of _ off1 "read_at off1 l tmp" q]
        q1 lr b by (auto simp: q2_def q1_def)
  qed
  have hi: "slot_pos ?n \<le> off1" using b by simp
  have q21: "q2 ! x = q1 ! x" if "x < 24 \<or> slot_pos ?n \<le> x" for x
    using that pos q1 b by (auto simp: q2_def nth_wr_outside slot_pos_eq)
  have keep: "q' ! x = q ! x"
    if "x < 24 \<or> slot_pos ?n \<le> x \<and> x < off - sum_list (l # ls) \<or> off \<le> x" for x
  proof -
    have "q' ! x = q2 ! x" using IH(3) that b by (auto simp: off1_def)
    also have "\<dots> = q1 ! x" using q21 that b hi by auto
    also have "\<dots> = q ! x" using that b lr fit by (auto simp: q1_def nth_write_at off1_def)
    finally show ?thesis .
  qed
  have moved: "q' ! x = tmp ! x" if "off1 \<le> x" "x < off" for x
    using IH(3) q21 that b lr hi Cons.prems(5) by (auto simp: q1_def nth_write_at)
  have data: "q' ! x = tmp ! x" if "off - sum_list (l # ls) \<le> x \<and> x < off" for x
    using that IH(4) moved [of x] by (cases "off1 \<le> x") (auto simp: off1_def)
  have slots: "slot_at q' j = (if i \<le> j \<and> j < i + length (l # ls)
       then (slot_at q j)\<lparr>slot_off := (off - sum_list (take (Suc (j - i)) (l # ls))) mod 65536\<rparr>
       else slot_at q j)" if "j < ?n" for j
  proof (cases "i + 1 \<le> j \<and> j < i + 1 + length ls")
    case True
    then have "Suc (j - (i + 1)) = j - i" by linarith
    then show ?thesis using True IH(5) that sl [OF that] by (auto simp: off1_def)
  next
    case False
    then show ?thesis using IH(5) that sl [OF that] by (auto simp: off1_def)
  qed
  show ?case using run keep data slots IH(2) q2(1) by auto
qed auto

section \<open>Compaction\<close>

lemma wf_max_slots:
  assumes "wf_page p"
  shows "take ((PAGE_SIZE - HEADER_SIZE) div SLOT_SIZE) [0..<hdr_num_slots p] = [0..<hdr_num_slots p]"
  using wf_pageD(2,3) [OF assms] by (simp add: slot_layout PAGE_SIZE_def)

text \<open>The new offset of the data of slot \<open>k\<close>.\<close>

definition compact_off :: "bytes \<Rightarrow> nat \<Rightarrow> nat" where
  "compact_off p k = PAGE_SIZE - reserved p - sum_list (take (Suc k) (map slot_len (slots p)))"

lemma partial_sum:
  assumes "k < hdr_num_slots p"
  shows "sum_list (take (Suc k) (map slot_len (slots p))) \<le> live p"
    "sum_list (take (Suc k) (map slot_len (slots p))) =
      sum_list (take k (map slot_len (slots p))) + slot_len (slot_at p k)"
proof -
  show "sum_list (take (Suc k) (map slot_len (slots p))) \<le> live p"
    using append_take_drop_id [of "Suc k" "map slot_len (slots p)"]
    by (metis le_add1 live_def sum_list_append)
  show "sum_list (take (Suc k) (map slot_len (slots p))) =
      sum_list (take k (map slot_len (slots p))) + slot_len (slot_at p k)"
    using assms by (simp add: take_Suc_conv_app_nth)
qed

lemma compact_off_bounds:
  assumes "wf_page p" "k < hdr_num_slots p"
  shows "PAGE_SIZE - hdr_space_used p \<le> compact_off p k"
    "compact_off p k + slot_len (slot_at p k) \<le> PAGE_SIZE - reserved p"
  using partial_sum [OF assms(2)] wf_pageD(3,4) [OF assms(1)]
  by (auto simp: compact_off_def reserved_def)

lemma compactify_nonempty:
  assumes "wf_page p" "hdr_num_slots p > 0"
  shows "\<exists>q. compactify p = Some q \<and> length q = PAGE_SIZE \<and> hdr_num_slots q = hdr_num_slots p \<and>
    hdr_data_offset q = PAGE_SIZE - hdr_space_used p \<and> hdr_space_used q = hdr_space_used p \<and>
    (\<forall>x. x < 8 \<or> slot_pos (hdr_num_slots p) \<le> x \<and> x < PAGE_SIZE - hdr_space_used p \<or>
      PAGE_SIZE - reserved p \<le> x \<longrightarrow> q ! x = p ! x) \<and>
    page_flags q = page_flags p AND NOT FLAG_HAS_GARBAGE \<and>
    (\<forall>k < hdr_num_slots p.
       slot_at q k = (slot_at p k)\<lparr>slot_off := compact_off p k mod 65536\<rparr> \<and>
       read_at (compact_off p k) (slot_len (slot_at p k)) q =
         read_at (slot_off (slot_at p k)) (slot_len (slot_at p k)) p)"
proof -
  note wf = wf_pageD [OF assms(1)]
  let ?n = "hdr_num_slots p" and ?base = "PAGE_SIZE - reserved p" and ?ls = "map slot_len (slots p)"
  have base: "live p \<le> ?base" "?base - live p = PAGE_SIZE - hdr_space_used p"
    "slot_pos ?n \<le> ?base - live p" "?base \<le> PAGE_SIZE" "reserved p \<le> PAGE_SIZE"
    using wf(2-4) by (auto simp: reserved_def)
  have idx: "\<forall>i \<in> set [0..<?n]. i < ?n" by simp
  obtain tmp where tmp: "gather_loop p [0..<?n] ?base (replicate PAGE_SIZE 0) = Some tmp"
    "length tmp = PAGE_SIZE"
    "\<forall>k < ?n. read_at (compact_off p k) (slot_len (slot_at p k)) tmp =
      read_at (slot_off (slot_at p k)) (slot_len (slot_at p k)) p"
    using gather_loop_run [OF assms(1) idx, of ?base "replicate PAGE_SIZE 0"] base
    by (auto simp: lens_at_all compact_off_def live_def)
  obtain q where q: "write_back_loop tmp ?ls 0 ?base p = Some (?base - live p, q)"
    "length q = PAGE_SIZE"
    "\<forall>x. x < 24 \<or> slot_pos ?n \<le> x \<and> x < ?base - live p \<or> ?base \<le> x \<longrightarrow> q ! x = p ! x"
    "\<forall>x. ?base - live p \<le> x \<and> x < ?base \<longrightarrow> q ! x = tmp ! x"
    "\<forall>j < ?n. slot_at q j = (slot_at p j)\<lparr>slot_off := compact_off p j mod 65536\<rparr>"
    using write_back_loop_run [of 0 ?ls p ?base tmp] base wf(1) tmp(2)
    by (auto simp: live_def compact_off_def)
  let ?r = "set_data_offset (?base - live p) q"
  let ?s = "set_flags (page_flags ?r AND NOT FLAG_HAS_GARBAGE) ?r"
  have run: "compactify p = Some ?s"
    using live_data_loop_run [OF assms(1) idx, of 0] data_lens_run [OF assms(1) idx]
      wf_max_slots [OF assms(1)] tmp(1) q(1) assms(2) wf(4) base(5)
    by (simp add: compactify_def Let_def lens_at_all flip: live_def reserved_def)
  have q24: "24 \<le> length q" using q(2) by (simp add: PAGE_SIZE_def)
  have hq: "rd m off q = rd m off p" if "off + m \<le> 24" for m off
    using that q(2,3) wf(1) by (intro rd_agree) auto
  have pf: "page_flags q = page_flags p"
    using hq [of 18 2] by (simp add: page_flags_def FLAGS_OFF_def)
  have hdr: "hdr_num_slots ?s = ?n" "hdr_space_used ?s = hdr_space_used p"
    "hdr_data_offset ?s = PAGE_SIZE - hdr_space_used p"
    "page_flags ?s = page_flags p AND NOT FLAG_HAS_GARBAGE"
    using q24 hq base(2) pf by (simp_all add: PAGE_SIZE_def)
  have slot: "slot_at ?s k = slot_at q k" if "k < ?n" for k
    using q24 by (simp add: slot_at_def slot_layout)
  have out: "?s ! x = q ! x" if "x < 8 \<or> 24 \<le> x" for x
    using that q24 by (simp add: nth_setters)
  have data: "read_at (compact_off p k) (slot_len (slot_at p k)) ?s =
      read_at (slot_off (slot_at p k)) (slot_len (slot_at p k)) p" if "k < ?n" for k
  proof -
    have "24 \<le> compact_off p k"
      using compact_off_bounds [OF assms(1) that] base by (simp add: slot_pos_eq)
    moreover have "read_at (compact_off p k) (slot_len (slot_at p k)) q =
        read_at (compact_off p k) (slot_len (slot_at p k)) tmp"
      using q(2,4) tmp(2) compact_off_bounds [OF assms(1) that] base(2)
      by (intro read_at_agree) auto
    ultimately show ?thesis using tmp(3) that q24 by simp
  qed
  have b24: "24 \<le> ?base" using base(1,3) by (simp add: slot_pos_eq)
  have "?s ! x = p ! x"
    if x: "x < 8 \<or> slot_pos ?n \<le> x \<and> x < PAGE_SIZE - hdr_space_used p \<or> ?base \<le> x" for x
  proof (rule trans)
    show "?s ! x = q ! x" using x b24 by (intro out) (auto simp: slot_pos_eq)
    show "q ! x = p ! x" using q(3) x base(2) by auto
  qed
  then show ?thesis using run hdr slot q(2,5) q24 data by auto
qed

lemma entry_of_extent:
  assumes "key_len s = key_len t" "val_len s = val_len t"
    and "slot_len t = 0 \<or>
      read_at (slot_off s) (slot_len t) q = read_at (slot_off t) (slot_len t) p"
  shows "entry_of q s = entry_of p t"
proof (cases "slot_len t = 0")
  case True
  then show ?thesis using assms(1,2) by (simp add: entry_of_def slot_len_def)
next
  case False
  have split: "entry_of r u = (read_at 0 (key_len u) (read_at (slot_off u) (slot_len u) r),
      read_at (key_len u) (val_len u) (read_at (slot_off u) (slot_len u) r))" for r u
    by (simp add: entry_of_def read_at_read_at slot_len_def)
  have "slot_len s = slot_len t" using assms(1,2) by (simp add: slot_len_def)
  then show ?thesis using assms False by (simp add: split)
qed

text \<open>What \<open>compactify\<close> guarantees.\<close>

definition compacted :: "bytes \<Rightarrow> bytes \<Rightarrow> bool" where
  "compacted p q = (wf_page q \<and> entries q = entries p \<and> reserved q = reserved p \<and>
     hdr_num_slots q = hdr_num_slots p \<and> hdr_space_used q = hdr_space_used p \<and>
     hdr_data_offset q = PAGE_SIZE - hdr_space_used p \<and>
     page_flags q = page_flags p AND NOT FLAG_HAS_GARBAGE \<and>
     (\<forall>x. x < 8 \<or> slot_pos (hdr_num_slots p) \<le> x \<and> x < PAGE_SIZE - hdr_space_used p \<or>
        PAGE_SIZE - reserved p \<le> x \<longrightarrow> q ! x = p ! x))"

lemma compactify_empty:
  assumes "wf_page p" "hdr_num_slots p = 0"
  shows "\<exists>q. compactify p = Some q \<and> compacted p q"
proof -
  note wf = wf_pageD [OF assms(1)]
  let ?r = "set_data_offset (PAGE_SIZE - hdr_space_used p) p"
  let ?q = "set_flags (page_flags ?r AND NOT FLAG_HAS_GARBAGE) ?r"
  have p: "24 \<le> length p" "slots p = []" "live p = 0" using wf(1) assms(2)
    by (simp_all add: PAGE_SIZE_def slots_def live_def)
  have "24 \<le> PAGE_SIZE - hdr_space_used p" using wf(2,3) by (simp add: slot_pos_eq)
  moreover have "?q ! x = p ! x" if "x < 8 \<or> slot_pos (hdr_num_slots p) \<le> x \<and>
      x < PAGE_SIZE - hdr_space_used p \<or> PAGE_SIZE - reserved p \<le> x" for x
  proof -
    have "x < 8 \<or> 24 \<le> x" using that p calculation by (auto simp: reserved_def slot_pos_eq)
    then show ?thesis using p(1) by (simp add: nth_setters)
  qed
  moreover have "hdr_data_offset ?q = PAGE_SIZE - hdr_space_used p"
    using p(1) by (simp add: PAGE_SIZE_def)
  ultimately have "compacted p ?q"
    using wf p assms(2)
    by (simp add: compacted_def wf_page_def entries_def slots_setters live_def reserved_def slot_layout)
  moreover have "compactify p = Some ?q" using assms(2) wf(3) by (simp add: compactify_def Let_def)
  ultimately show ?thesis by blast
qed

lemma compactify_run:
  assumes "wf_page p"
  shows "\<exists>q. compactify p = Some q \<and> compacted p q"
proof (cases "hdr_num_slots p = 0")
  case True
  then show ?thesis by (rule compactify_empty [OF assms])
next
  case False
  note wf = wf_pageD [OF assms]
  let ?n = "hdr_num_slots p"
  obtain q where q: "compactify p = Some q" "length q = PAGE_SIZE" "hdr_num_slots q = ?n"
    "hdr_data_offset q = PAGE_SIZE - hdr_space_used p" "hdr_space_used q = hdr_space_used p"
    "\<forall>x. x < 8 \<or> slot_pos ?n \<le> x \<and> x < PAGE_SIZE - hdr_space_used p \<or>
      PAGE_SIZE - reserved p \<le> x \<longrightarrow> q ! x = p ! x"
    "page_flags q = page_flags p AND NOT FLAG_HAS_GARBAGE"
    and sl: "\<And>k. k < ?n \<Longrightarrow> slot_at q k = (slot_at p k)\<lparr>slot_off := compact_off p k mod 65536\<rparr>"
    and ext: "\<And>k. k < ?n \<Longrightarrow> read_at (compact_off p k) (slot_len (slot_at p k)) q =
         read_at (slot_off (slot_at p k)) (slot_len (slot_at p k)) p"
    using compactify_nonempty [OF assms] False by auto
  have len: "slot_len (slot_at q k) = slot_len (slot_at p k)" if "k < ?n" for k
    using sl [OF that] by (simp add: slot_len_def)
  have off: "slot_len (slot_at p k) = 0 \<or> slot_off (slot_at q k) = compact_off p k" if "k < ?n" for k
  proof -
    have "compact_off p k + slot_len (slot_at p k) \<le> 65536"
      using compact_off_bounds(2) [OF assms that] by (simp add: PAGE_SIZE_def)
    then have "slot_len (slot_at p k) = 0 \<or> compact_off p k < 65536" by linarith
    then show ?thesis using sl [OF that] by auto
  qed
  have ent: "entry_of q (slot_at q k) = entry_of p (slot_at p k)" if "k < ?n" for k
    using sl [OF that] off [OF that] ext [OF that] by (intro entry_of_extent) auto
  have "map slot_len (slots q) = map slot_len (slots p)"
    by (rule nth_equalityI) (use len q(3) in auto)
  then have lv: "live q = live p" by (simp add: live_def)
  then have res: "reserved q = reserved p" using q(5) by (simp add: reserved_def)
  have ents: "entries q = entries p"
    by (rule nth_equalityI) (use ent q(3) in \<open>auto simp: nth_entries\<close>)
  have ok: "slot_ok (hdr_data_offset q) (PAGE_SIZE - reserved q) q (slot_at q k)" if "k < ?n" for k
  proof -
    have "slot_head (slot_at p k) = make_head (fst (entry_of p (slot_at p k)))"
      using wf(6) [of "slot_at p k"] that by (auto simp: slot_ok_def set_slots)
    then show ?thesis
      using off [OF that] compact_off_bounds [OF assms that] len [OF that] ent [OF that] q(4) res
        sl [OF that]
      by (auto simp: slot_ok_def)
  qed
  have "apart (slot_at q i) (slot_at q j)" if "i < j" "j < ?n" for i j
  proof -
    have "sum_list (take (Suc i) (map slot_len (slots p))) \<le> sum_list (take j (map slot_len (slots p)))"
    proof -
      have "take (Suc i) (map slot_len (slots p)) = take (Suc i) (take j (map slot_len (slots p)))"
        using that by (simp add: min_def)
      then show ?thesis
        by (metis append_take_drop_id le_add1 sum_list_append)
    qed
    then have "compact_off p j + slot_len (slot_at p j) \<le> compact_off p i"
      using partial_sum [OF that(2)] wf(3,4) by (auto simp: compact_off_def reserved_def)
    then show ?thesis using off [of i] off [of j] len [of i] len [of j] that by (auto simp: apart_def)
  qed
  then have "sorted_wrt apart (slots q)" using q(3) by (simp add: sorted_wrt_iff_nth_less)
  moreover have "\<forall>s \<in> set (slots q). slot_ok (hdr_data_offset q) (PAGE_SIZE - reserved q) q s"
    using ok q(3) by (auto simp: set_slots)
  ultimately have "wf_page q"
    using q wf(2-4) lv by (auto simp: wf_page_def slot_array_end_eq)
  then show ?thesis using q ents res by (auto simp: compacted_def)
qed

end
