(* ===== verification/Slotted_Page_Update.thy ===== *)
theory Slotted_Page_Update
  imports Slotted_Page_Compact
begin

text \<open>
  The updates of a slotted page as operations on the list of its entries: every operation keeps
  the page well-formed, preserves the reserved suffix and the LSN, panics exactly when its
  documented precondition fails, and otherwise does to the entries what its name says. The
  contract is the locale \<open>entry_container\<close>, interpreted on the page; its client lemma is about
  whole sequences of updates.
\<close>

section \<open>Space\<close>

lemma free_space_le:
  assumes "wf_page p"
  shows "free_space p \<le> free_space_after_compaction p"
  using wf_pageD(3) [OF assms]
  by (simp add: free_space_def free_space_after_compaction_def)

lemma can_insert_iff:
  "wf_page p \<Longrightarrow> can_insert klen vlen p \<longleftrightarrow>
    SLOT_SIZE + (klen + vlen) \<le> free_space_after_compaction p"
  using free_space_le [of p] by (auto simp: can_insert_def Let_def)

text \<open>What an update leaves alone: the page LSN, the reserved suffix and the size of both.\<close>

definition same_frame :: "bytes \<Rightarrow> bytes \<Rightarrow> bool" where
  "same_frame p q = (reserved q = reserved p \<and>
     (\<forall>x. x < 8 \<or> PAGE_SIZE - reserved p \<le> x \<longrightarrow> q ! x = p ! x))"

lemma same_frame_trans: "same_frame p q \<Longrightarrow> same_frame q r \<Longrightarrow> same_frame p r"
  by (simp add: same_frame_def)

lemma same_frame_refl [simp]: "same_frame p p"
  by (simp add: same_frame_def)

lemma compacted_frame: "compacted p q \<Longrightarrow> same_frame p q"
  by (simp add: compacted_def same_frame_def)

lemma compacted_space:
  assumes "compacted p q"
  shows "free_space q = free_space_after_compaction p"
    "free_space_after_compaction q = free_space_after_compaction p"
  using assms
  by (auto simp: compacted_def free_space_def free_space_after_compaction_def slot_array_end_def)

section \<open>Insertion\<close>

lemma insert_page_frame:
  assumes "insert_room i key val p"
  shows "same_frame p (insert_page i key val p)"
proof -
  note r = insert_roomD [OF assms] and wf = wf_pageD [OF insert_roomD(1) [OF assms]]
  have "hdr_data_offset p \<le> PAGE_SIZE - reserved p" using wf(3) by (simp add: reserved_def)
  then have "insert_page i key val p ! x = p ! x" if "x < 8 \<or> PAGE_SIZE - reserved p \<le> x" for x
    using that r by (intro nth_insert_page [OF assms]) auto
  moreover have "reserved (insert_page i key val p) = reserved p"
    using insert_page_fields(4) [OF assms] live_insert_page [OF assms] by (simp add: reserved_def)
  ultimately show ?thesis by (simp add: same_frame_def)
qed

text \<open>The page \<open>insert\<close> works on: compacted first when the gap is too small.\<close>

lemma insert_entry_run:
  assumes "wf_page p" "i \<le> hdr_num_slots p" "can_insert (length key) (length val) p"
  shows "\<exists>c. (c = p \<and> SLOT_SIZE + (length key + length val) \<le> free_space p \<or>
      compactify p = Some c \<and> compacted p c \<and> free_space p < SLOT_SIZE + (length key + length val)) \<and>
    insert_room i key val c \<and> insert_entry i key val p = Some (insert_page i key val c)"
proof (cases "SLOT_SIZE + (length key + length val) \<le> free_space p")
  case True
  then have "insert_room i key val p" using assms by (simp add: insert_room_def)
  then show ?thesis using True insert_body_run by (auto simp: insert_entry_def)
next
  case False
  obtain c where c: "compactify p = Some c" "compacted p c" using compactify_run [OF assms(1)] by blast
  have "insert_room i key val c"
    using c(2) assms compacted_space(1) [OF c(2)] can_insert_iff [OF assms(1)]
    by (simp add: insert_room_def compacted_def)
  then show ?thesis
    using False c insert_body_run [of i key val c] can_insert_iff [OF assms(1)] assms(3)
    by (auto simp: insert_entry_def Let_def)
qed

lemma insert_entry_correct:
  assumes "wf_page p" "i \<le> hdr_num_slots p" "can_insert (length key) (length val) p"
  shows "\<exists>q. insert_entry i key val p = Some q \<and> wf_page q \<and> same_frame p q \<and>
    entries q = take i (entries p) @ (key, val) # drop i (entries p) \<and>
    free_space_after_compaction q =
      free_space_after_compaction p - (SLOT_SIZE + (length key + length val))"
proof -
  obtain c where c: "c = p \<or> compacted p c" "insert_room i key val c"
    "insert_entry i key val p = Some (insert_page i key val c)"
    using insert_entry_run [OF assms] by blast
  have pc: "entries c = entries p" "same_frame p c"
    "free_space_after_compaction c = free_space_after_compaction p"
    using c(1) compacted_frame compacted_space(2) by (auto simp: compacted_def)
  have "free_space_after_compaction (insert_page i key val c) =
      free_space_after_compaction c - (SLOT_SIZE + (length key + length val))"
    using insert_page_fields(2,4) [OF c(2)]
    by (simp add: free_space_after_compaction_def slot_layout)
  then show ?thesis
    using c(3) pc wf_insert_page [OF c(2)] insert_page_entries [OF c(2)]
      same_frame_trans [OF pc(2) insert_page_frame [OF c(2)]]
    by auto
qed

lemma insert_entry_full:
  assumes "wf_page p" "\<not> can_insert (length key) (length val) p"
  shows "insert_entry i key val p = None"
  using assms free_space_le [OF assms(1)] can_insert_iff [OF assms(1)]
  by (simp add: insert_entry_def Let_def)

lemma insert_entry_bad_slot:
  assumes "wf_page p" "hdr_num_slots p < i"
  shows "insert_entry i key val p = None"
proof (cases "can_insert (length key) (length val) p")
  case True
  obtain c where c: "c = p \<and> SLOT_SIZE + (length key + length val) \<le> free_space p \<or>
      compactify p = Some c \<and> compacted p c \<and> free_space p < SLOT_SIZE + (length key + length val)"
    "insert_room 0 key val c"
    using insert_entry_run [OF assms(1) _ True, of 0] by blast
  have "hdr_num_slots c < i" using c(1) assms(2) by (auto simp: compacted_def)
  from insert_body_bad_slot [OF c(2) this] c(1) show ?thesis by (auto simp: insert_entry_def)
next
  case False
  then show ?thesis by (rule insert_entry_full [OF assms(1)])
qed

section \<open>Removal and replacement\<close>

definition entry_size :: "bytes \<times> bytes \<Rightarrow> nat" where
  "entry_size e = SLOT_SIZE + (length (fst e) + length (snd e))"

lemma entry_size_slot:
  assumes "wf_page p" "i < hdr_num_slots p"
  shows "entry_size (entries p ! i) = SLOT_SIZE + slot_len (slot_at p i)"
proof -
  have "slot_at p i \<in> set (slots p)" using assms(2) by (auto simp: set_slots)
  from wf_slot_bounds(1) [OF assms(1) this] show ?thesis
    using nth_entries [OF assms(2)] wf_pageD(1) [OF assms(1)]
    by (simp add: entry_size_def entry_of_def slot_len_def)
qed

lemma remove_entry_correct:
  assumes "wf_page p" "i < hdr_num_slots p"
  shows "\<exists>q. remove_entry i p = Some q \<and> wf_page q \<and> same_frame p q \<and>
    entries q = take i (entries p) @ drop (i + 1) (entries p) \<and>
    free_space_after_compaction q = free_space_after_compaction p + entry_size (entries p ! i)"
proof -
  note f = remove_page_fields [OF assms] and wf = wf_pageD [OF assms(1)]
  have "slot_pos (hdr_num_slots p - 1) \<le> PAGE_SIZE - reserved p"
    using wf(2,3) by (simp add: reserved_def slot_pos_eq)
  then have "same_frame p (remove_page i p)"
    using f(6) wf_remove_page(2) [OF assms] by (auto simp: same_frame_def)
  moreover have "slot_len (slot_at p i) \<le> hdr_space_used p" using live_split [OF assms(2)] wf(4) by simp
  then have "free_space_after_compaction (remove_page i p) =
      free_space_after_compaction p + entry_size (entries p ! i)"
    using f(2,4) assms(2) wf(2,3) entry_size_slot [OF assms]
    by (simp add: free_space_after_compaction_def slot_layout)
  ultimately show ?thesis
    using remove_entry_run [OF assms] wf_remove_page(1) [OF assms] remove_page_entries [OF assms]
    by auto
qed

lemma remove_entry_bad_slot: "\<not> i < hdr_num_slots p \<Longrightarrow> remove_entry i p = None"
  by (simp add: remove_entry_def Let_def)

lemma update_value_correct:
  assumes "wf_page p" "i < hdr_num_slots p" "length val = length (snd (entries p ! i))"
  shows "\<exists>q. update_value_if_same_length i val p = Some (True, q) \<and> wf_page q \<and> same_frame p q \<and>
    entries q = (entries p)[i := (fst (entries p ! i), val)]"
proof -
  let ?s = "slot_at p i"
  let ?q = "write_at (slot_off ?s + key_len ?s) val p"
  note w = write_value_agree [OF assms] and u = update_value_run [OF assms]
  have s: "?s \<in> set (slots p)" using assms(2) by (auto simp: set_slots)
  have "val = [] \<or> slot_pos (hdr_num_slots p) \<le> slot_off ?s \<and>
      slot_off ?s + slot_len ?s \<le> PAGE_SIZE - reserved p"
    using wf_pageD(6) [OF assms(1) s] u(2,4) by (auto simp: slot_ok_def slot_len_def)
  then have "?q ! x = p ! x" if "x < 8 \<or> PAGE_SIZE - reserved p \<le> x" for x
  proof
    assume "slot_pos (hdr_num_slots p) \<le> slot_off ?s \<and>
      slot_off ?s + slot_len ?s \<le> PAGE_SIZE - reserved p"
    then show ?thesis using that u(2) by (intro w(4)) (auto simp: slot_pos_eq slot_len_def)
  qed simp
  then have "same_frame p ?q" using wf_write_value(2) [OF assms] by (simp add: same_frame_def)
  then show ?thesis
    using u(1) wf_write_value(1) [OF assms] write_value_entries [OF assms] by auto
qed

lemma update_value_other_length:
  assumes "wf_page p" "i < hdr_num_slots p" "length val \<noteq> length (snd (entries p ! i))"
  shows "update_value_if_same_length i val p = Some (False, p)"
proof -
  have "slot_at p i \<in> set (slots p)" using assms(2) by (auto simp: set_slots)
  from wf_slot_bounds(1) [OF assms(1) this]
  have "length (snd (entries p ! i)) = val_len (slot_at p i)"
    using nth_entries [OF assms(2)] wf_pageD(1) [OF assms(1)] by (simp add: entry_of_def slot_len_def)
  then have "length val \<noteq> val_len (slot_at p i)" using assms(3) by simp
  then show ?thesis using wf_slot [OF assms(1,2)] by (simp add: update_value_if_same_length_def)
qed

section \<open>Truncation\<close>

lemma drop_space_loop_run:
  assumes "24 \<le> length p" "\<forall>i \<in> set is. i < hdr_num_slots p \<and> slot_pos i + SLOT_SIZE \<le> length p"
    and "sum_list (lens_at p is) \<le> hdr_space_used p"
  shows "\<exists>q. drop_space_loop is p = Some q \<and> length q = length p \<and> slots q = slots p \<and>
    hdr_num_slots q = hdr_num_slots p \<and> hdr_data_offset q = hdr_data_offset p \<and>
    hdr_space_used q = hdr_space_used p - sum_list (lens_at p is) \<and>
    (\<forall>x. x < 8 \<or> 24 \<le> x \<longrightarrow> q ! x = p ! x)"
  using assms
proof (induction "is" arbitrary: p)
  case (Cons i "is")
  let ?l = "slot_len (slot_at p i)"
  let ?p1 = "set_space_used (hdr_space_used p - ?l) p"
  have "hdr_space_used p < 2 ^ 32" using rd_less [of 4 12 p] by simp
  then have p1: "length ?p1 = length p" "slots ?p1 = slots p" "hdr_num_slots ?p1 = hdr_num_slots p"
    "hdr_data_offset ?p1 = hdr_data_offset p" "hdr_space_used ?p1 = hdr_space_used p - ?l"
    "\<forall>x. x < 8 \<or> 24 \<le> x \<longrightarrow> ?p1 ! x = p ! x"
    using Cons.prems(1) by (simp_all add: nth_setters)
  have su: "sum_list (lens_at p is) \<le> hdr_space_used p - ?l" using Cons.prems(3) by simp
  have at: "slot_at ?p1 j = slot_at p j" for j
    using Cons.prems(1) by (simp add: slot_at_def slot_pos_eq)
  obtain q where q: "drop_space_loop is ?p1 = Some q" "length q = length ?p1" "slots q = slots ?p1"
    "hdr_num_slots q = hdr_num_slots ?p1" "hdr_data_offset q = hdr_data_offset ?p1"
    "hdr_space_used q = hdr_space_used ?p1 - sum_list (lens_at p is)"
    "\<forall>x. x < 8 \<or> 24 \<le> x \<longrightarrow> q ! x = ?p1 ! x"
    using Cons.IH [of ?p1] Cons.prems(1,2) p1 at su by auto
  have "drop_space_loop (i # is) p = Some q"
    using q(1) Cons.prems by (simp add: slot_def Let_def slot_len_def)
  then show ?case using q p1 by auto
qed simp

lemma sum_dropped_lens:
  assumes "m \<le> hdr_num_slots p"
  shows "sum_list (map slot_len (take m (slots p))) + sum_list (lens_at p [m..<hdr_num_slots p]) = live p"
proof -
  have "drop m (slots p) = map (slot_at p) [m..<hdr_num_slots p]"
    using assms by (simp add: slots_def drop_map)
  then have "lens_at p [m..<hdr_num_slots p] = map slot_len (drop m (slots p))" by simp
  moreover have "map slot_len (slots p) = map slot_len (take m (slots p)) @ map slot_len (drop m (slots p))"
    by (simp flip: map_append)
  ultimately show ?thesis by (simp only: live_def sum_list_append)
qed

lemma truncated_page:
  assumes "wf_page p" "m \<le> hdr_num_slots p"
  shows "\<exists>q. drop_space_loop [m..<hdr_num_slots p] p = Some q \<and>
    (let r = set_num_slots m q; r = set_flags (page_flags r OR FLAG_HAS_GARBAGE) r in
     wf_page r \<and> entries r = take m (entries p) \<and> same_frame p r)"
proof -
  note wf = wf_pageD [OF assms(1)]
  let ?n = "hdr_num_slots p" and ?d = "sum_list (lens_at p [m..<hdr_num_slots p])"
  have d: "sum_list (map slot_len (take m (slots p))) + ?d = live p" by (rule sum_dropped_lens [OF assms(2)])
  have p24: "24 \<le> length p" using wf(1) by (simp add: PAGE_SIZE_def)
  have ok: "\<forall>i \<in> set [m..<?n]. i < ?n \<and> slot_pos i + SLOT_SIZE \<le> length p"
    using wf_num_slots [OF assms(1)] by simp
  have "?d \<le> hdr_space_used p" using d wf(4) by linarith
  then obtain q where q: "drop_space_loop [m..<?n] p = Some q" "length q = length p" "slots q = slots p"
    "hdr_num_slots q = ?n" "hdr_data_offset q = hdr_data_offset p"
    "hdr_space_used q = hdr_space_used p - ?d" "\<forall>x. x < 8 \<or> 24 \<le> x \<longrightarrow> q ! x = p ! x"
    using drop_space_loop_run [OF p24 ok] by blast
  define r where "r = set_num_slots m q"
  define s where "s = set_flags (page_flags r OR FLAG_HAS_GARBAGE) r"
  have m: "m < 65536" using rd_less [of 2 16 p] assms(2) by simp
  have len: "24 \<le> length q" "24 \<le> length r" "length s = PAGE_SIZE"
    using p24 q(2) wf(1) by (simp_all add: r_def s_def)
  have hdr: "hdr_num_slots s = m" "hdr_data_offset s = hdr_data_offset p"
    "hdr_space_used s = hdr_space_used p - ?d"
    using len q m by (simp_all add: s_def r_def)
  have "slot_at s i = slot_at q i" for i
    using len by (simp add: slot_at_def slot_pos_eq s_def r_def)
  then have sl: "slots s = take m (slots p)"
    using q(3,4) assms(2) hdr(1) by (intro nth_equalityI) (auto simp flip: q(3))
  have out: "s ! x = p ! x" if "x < 8 \<or> 24 \<le> x" for x
    using that len q(7) by (auto simp: s_def r_def nth_setters)
  have lv: "live s + ?d = live p" using d by (simp add: live_def sl)
  then have res: "reserved s = reserved p" using hdr(3) by (simp add: reserved_def)
  have ent: "entry_of s t = entry_of p t" if "t \<in> set (slots p)" for t
    using wf(6) [OF that] wf(1,2) len(3) out
    by (intro entry_of_cong) (auto simp: slot_ok_def slot_pos_eq intro!: read_at_agree)
  have "entries s = take m (entries p)"
    using ent by (auto simp: entries_def sl take_map dest: in_set_takeD)
  moreover have "wf_page s"
  proof -
    have "slot_ok (hdr_data_offset s) (PAGE_SIZE - reserved s) s t" if "t \<in> set (slots s)" for t
    proof -
      have "t \<in> set (slots p)" using that sl in_set_takeD by metis
      then show ?thesis using wf(6) ent hdr(2) res by (simp add: slot_ok_def)
    qed
    moreover have "sorted_wrt apart (slots s)" using wf(5) sl by (simp add: sorted_wrt_take)
    ultimately show ?thesis
      using hdr len wf(2-4) lv assms(2) by (auto simp: wf_page_def slot_array_end_eq slot_pos_eq)
  qed
  moreover have "24 \<le> PAGE_SIZE - reserved p"
    using wf(2,3) by (simp add: slot_pos_eq reserved_def)
  then have "same_frame p s" using res out by (auto simp: same_frame_def)
  ultimately show ?thesis using q(1) by (simp add: Let_def r_def s_def)
qed

lemma truncate_correct:
  assumes "wf_page p" "m \<le> hdr_num_slots p"
  shows "\<exists>q. truncate m p = Some q \<and> wf_page q \<and> same_frame p q \<and> entries q = take m (entries p)"
proof (cases "m = hdr_num_slots p")
  case True
  then show ?thesis using assms by (simp add: truncate_def Let_def)
next
  case False
  obtain q where q: "drop_space_loop [m..<hdr_num_slots p] p = Some q"
    "let r = set_num_slots m q; r = set_flags (page_flags r OR FLAG_HAS_GARBAGE) r in
     wf_page r \<and> entries r = take m (entries p) \<and> same_frame p r"
    using truncated_page [OF assms] by blast
  define r where "r = set_flags (page_flags (set_num_slots m q) OR FLAG_HAS_GARBAGE) (set_num_slots m q)"
  have r: "wf_page r" "entries r = take m (entries p)" "same_frame p r"
    using q(2) by (simp_all add: r_def Let_def)
  obtain c where c: "compactify r = Some c" "compacted r c" using compactify_run [OF r(1)] by blast
  have "truncate m p = Some c"
    using False assms(2) q(1) c(1) by (simp add: truncate_def Let_def r_def)
  then show ?thesis
    using c(2) r same_frame_trans [OF r(3) compacted_frame [OF c(2)]] by (auto simp: compacted_def)
qed

section \<open>Copying a range of entries\<close>

lemma copy_entries_loop_correct:
  assumes "wf_page src"
  shows "wf_page dst \<Longrightarrow> i + count \<le> hdr_num_slots src \<Longrightarrow>
    sum_list (map entry_size (take count (drop i (entries src)))) \<le> free_space_after_compaction dst \<Longrightarrow>
    \<exists>q. copy_entries_loop src dst i count = Some q \<and> wf_page q \<and> same_frame dst q \<and>
      entries q = entries dst @ take count (drop i (entries src))"
proof (induction count arbitrary: dst i)
  case (Suc count)
  have i: "i < hdr_num_slots src" using Suc.prems(2) by simp
  then have i16: "i < 2 ^ 16" using rd_less [of 2 16 src] by simp
  let ?e = "entries src ! i"
  have split: "take (Suc count) (drop i (entries src)) = ?e # take count (drop (i + 1) (entries src))"
    using i by (simp flip: Cons_nth_drop_Suc)
  then have sz: "entry_size ?e + sum_list (map entry_size (take count (drop (i + 1) (entries src))))
      \<le> free_space_after_compaction dst"
    using Suc.prems(3) by (simp only: list.map sum_list.Cons)
  then have "can_insert (length (fst ?e)) (length (snd ?e)) dst"
    using can_insert_iff [OF Suc.prems(1)] by (simp add: entry_size_def)
  from insert_entry_correct [OF Suc.prems(1) order_refl this]
  obtain d where d: "insert_entry (hdr_num_slots dst) (fst ?e) (snd ?e) dst = Some d" "wf_page d"
    "same_frame dst d" "entries d = entries dst @ [?e]"
    "free_space_after_compaction d = free_space_after_compaction dst - entry_size ?e"
    by (auto simp: entry_size_def simp flip: length_entries)
  have "i + 1 + count \<le> hdr_num_slots src" using Suc.prems(2) by simp
  moreover have "sum_list (map entry_size (take count (drop (i + 1) (entries src))))
      \<le> free_space_after_compaction d" using sz d(5) by linarith
  ultimately obtain q where q: "copy_entries_loop src d (i + 1) count = Some q" "wf_page q"
    "same_frame d q" "entries q = entries d @ take count (drop (i + 1) (entries src))"
    using Suc.IH [OF d(2)] by blast
  have "copy_entries_loop src dst i (Suc count) = Some q"
    using i16 wf_get_key [OF assms i] wf_get_value [OF assms i] d(1) q(1) by simp
  then show ?case using q d(4) split same_frame_trans [OF d(3) q(3)] by simp
qed simp

section \<open>Fresh pages\<close>

lemma init_page:
  assumes "length page = PAGE_SIZE"
  shows "wf_page (init page)" "entries (init page) = []" "reserved (init page) = 0"
    "hdr_num_slots (init page) = 0" "hdr_data_offset (init page) = PAGE_SIZE"
    "hdr_space_used (init page) = 0"
proof -
  let ?z = "replicate PAGE_SIZE 0 :: bytes"
  have z: "24 \<le> length ?z" by (simp add: PAGE_SIZE_def)
  show h: "hdr_num_slots (init page) = 0" "hdr_data_offset (init page) = PAGE_SIZE"
    "hdr_space_used (init page) = 0"
    using z assms by (simp_all add: init_def PAGE_SIZE_def)
  then show "entries (init page) = []" "reserved (init page) = 0"
    by (simp_all add: entries_def slots_def reserved_def)
  show "wf_page (init page)"
    using h z assms by (simp add: wf_page_def slots_def live_def slot_array_end_def init_def
        HEADER_SIZE_def PAGE_SIZE_def)
qed

lemma reserve_suffix_correct:
  assumes "wf_page p" "hdr_num_slots p = 0" "slot_array_end p + n \<le> hdr_data_offset p"
  shows "\<exists>q. reserve_suffix n p = Some q \<and> wf_page q \<and> entries q = [] \<and> reserved q = reserved p + n \<and>
    hdr_num_slots q = 0"
proof -
  note wf = wf_pageD [OF assms(1)]
  have p: "24 \<le> length p" "n \<le> hdr_data_offset p" "hdr_data_offset p \<le> 65536" "n mod 2 ^ 32 = n"
    "hdr_space_used p + n \<le> 65536" "slots p = []"
    using wf(1-3) assms(2,3) by (simp_all add: PAGE_SIZE_def slots_def)
  let ?q = "set_space_used (hdr_space_used p + n) (set_data_offset (hdr_data_offset p - n) p)"
  have run: "reserve_suffix n p = Some ?q"
    using assms(2) p by (simp add: reserve_suffix_def Let_def)
  have h: "hdr_num_slots ?q = 0" "hdr_data_offset ?q = hdr_data_offset p - n"
    "hdr_space_used ?q = hdr_space_used p + n" "slots ?q = []" "length ?q = PAGE_SIZE"
    using p assms(2) wf(1) by simp_all
  then have "wf_page ?q" using wf assms p(2)
    by (simp add: wf_page_def live_def slot_array_end_def)
  then show ?thesis using run h p(6) by (simp add: entries_def reserved_def live_def)
qed

section \<open>The contract\<close>

text \<open>Updates of a list of entries.\<close>

datatype ('k, 'v) update = Insert_at nat 'k 'v | Remove_at nat

fun apply_update :: "('k, 'v) update \<Rightarrow> ('k \<times> 'v) list \<Rightarrow> ('k \<times> 'v) list option" where
  "apply_update (Insert_at i k v) es =
     (if i \<le> length es then Some (take i es @ (k, v) # drop i es) else None)"
| "apply_update (Remove_at i) es =
     (if i < length es then Some (take i es @ drop (i + 1) es) else None)"

fun apply_updates :: "('k, 'v) update list \<Rightarrow> ('k \<times> 'v) list \<Rightarrow> ('k \<times> 'v) list option" where
  "apply_updates [] es = Some es"
| "apply_updates (u # us) es = do { es' \<leftarrow> apply_update u es; apply_updates us es' }"

text \<open>The same updates on a container with the operations \<open>ins\<close> and \<open>rem\<close>.\<close>

fun run_updates ::
    "(nat \<Rightarrow> 'k \<Rightarrow> 'v \<Rightarrow> 'p \<Rightarrow> 'p option) \<Rightarrow> (nat \<Rightarrow> 'p \<Rightarrow> 'p option) \<Rightarrow> ('k, 'v) update list \<Rightarrow>
     'p \<Rightarrow> 'p option" where
  "run_updates ins rem [] p = Some p"
| "run_updates ins rem (Insert_at i k v # us) p = do { q \<leftarrow> ins i k v p; run_updates ins rem us q }"
| "run_updates ins rem (Remove_at i # us) p = do { q \<leftarrow> rem i p; run_updates ins rem us q }"

locale entry_container =
  fixes wf :: "'p \<Rightarrow> bool" and content :: "'p \<Rightarrow> ('k \<times> 'v) list"
    and room :: "'p \<Rightarrow> nat" and cost :: "'k \<times> 'v \<Rightarrow> nat"
    and ins :: "nat \<Rightarrow> 'k \<Rightarrow> 'v \<Rightarrow> 'p \<Rightarrow> 'p option" and rem :: "nat \<Rightarrow> 'p \<Rightarrow> 'p option"
  assumes ins_fits: "wf p \<Longrightarrow> i \<le> length (content p) \<Longrightarrow> cost (k, v) \<le> room p \<Longrightarrow>
      \<exists>q. ins i k v p = Some q \<and> wf q \<and> content q = take i (content p) @ (k, v) # drop i (content p) \<and>
        room q = room p - cost (k, v)"
    and ins_full: "wf p \<Longrightarrow> room p < cost (k, v) \<Longrightarrow> ins i k v p = None"
    and ins_miss: "wf p \<Longrightarrow> length (content p) < i \<Longrightarrow> ins i k v p = None"
    and rem_hit: "wf p \<Longrightarrow> i < length (content p) \<Longrightarrow>
      \<exists>q. rem i p = Some q \<and> wf q \<and> content q = take i (content p) @ drop (i + 1) (content p) \<and>
        room q = room p + cost (content p ! i)"
    and rem_miss: "wf p \<Longrightarrow> length (content p) \<le> i \<Longrightarrow> rem i p = None"
begin

lemma run_updates_refines:
  "wf p \<Longrightarrow> run_updates ins rem us p = Some q \<Longrightarrow>
    wf q \<and> apply_updates us (content p) = Some (content q) \<and>
    room q + sum_list (map cost (content q)) = room p + sum_list (map cost (content p))"
proof (induction us arbitrary: p)
  case (Cons u us)
  show ?case
  proof (cases u)
    case (Insert_at i k v)
    obtain r where r: "ins i k v p = Some r" "run_updates ins rem us r = Some q"
      using Cons.prems(2) Insert_at by (auto simp: bind_eq_Some_conv)
    have i: "i \<le> length (content p)" using ins_miss [OF Cons.prems(1), of i k v] r(1) by fastforce
    have fit: "cost (k, v) \<le> room p" using ins_full [OF Cons.prems(1), of k v i] r(1) by fastforce
    have r': "wf r" "content r = take i (content p) @ (k, v) # drop i (content p)"
      "room r = room p - cost (k, v)"
      using ins_fits [OF Cons.prems(1) i fit] r(1) by auto
    have "sum_list (map cost (content r)) = sum_list (map cost (content p)) + cost (k, v)"
      using r'(2) sum_list_take_drop [of cost i "content p"] by simp
    then show ?thesis
      using Cons.IH [OF r'(1) r(2)] Insert_at i r'(2,3) fit by auto
  next
    case (Remove_at i)
    obtain r where r: "rem i p = Some r" "run_updates ins rem us r = Some q"
      using Cons.prems(2) Remove_at by (auto simp: bind_eq_Some_conv)
    have i: "i < length (content p)" using rem_miss [OF Cons.prems(1), of i] r(1) by fastforce
    have r': "wf r" "content r = take i (content p) @ drop (i + 1) (content p)"
      "room r = room p + cost (content p ! i)"
      using rem_hit [OF Cons.prems(1) i] r(1) by auto
    have "sum_list (map cost (content p)) = sum_list (map cost (content r)) + cost (content p ! i)"
      using r'(2) arg_cong [OF id_take_nth_drop [OF i], of "\<lambda>xs. sum_list (map cost xs)"] by simp
    then show ?thesis
      using Cons.IH [OF r'(1) r(2)] Remove_at i r'(2,3) by auto
  qed
qed auto

end

section \<open>The slotted page implements the contract\<close>

interpretation slotted: entry_container wf_page entries free_space_after_compaction entry_size
  insert_entry remove_entry
proof unfold_locales
  fix p :: bytes and i k v assume wf: "wf_page p"
  show "i \<le> length (entries p) \<Longrightarrow> entry_size (k, v) \<le> free_space_after_compaction p \<Longrightarrow>
    \<exists>q. insert_entry i k v p = Some q \<and> wf_page q \<and>
      entries q = take i (entries p) @ (k, v) # drop i (entries p) \<and>
      free_space_after_compaction q = free_space_after_compaction p - entry_size (k, v)"
    using insert_entry_correct [OF wf, of i k v] can_insert_iff [OF wf, of "length k" "length v"]
    by (auto simp: entry_size_def)
  show "free_space_after_compaction p < entry_size (k, v) \<Longrightarrow> insert_entry i k v p = None"
    using insert_entry_full [OF wf, of k v i] can_insert_iff [OF wf, of "length k" "length v"]
    by (simp add: entry_size_def)
  show "length (entries p) < i \<Longrightarrow> insert_entry i k v p = None"
    using insert_entry_bad_slot [OF wf] by simp
  show "i < length (entries p) \<Longrightarrow> \<exists>q. remove_entry i p = Some q \<and> wf_page q \<and>
      entries q = take i (entries p) @ drop (i + 1) (entries p) \<and>
      free_space_after_compaction q = free_space_after_compaction p + entry_size (entries p ! i)"
    using remove_entry_correct [OF wf, of i] by auto
  show "length (entries p) \<le> i \<Longrightarrow> remove_entry i p = None"
    using remove_entry_bad_slot [of i p] by simp
qed

section \<open>Correctness of the updates\<close>

text \<open>C11: insertion into a slotted page. On a well-formed page \<open>insert\<close> succeeds exactly when the
  position is at most the number of entries and \<open>can_insert\<close> says so, compacting the page first when
  the gap is too small, and panics otherwise. The resulting page is well-formed, its entries are the
  old ones with the new entry at the requested position, the page LSN and the bytes of the reserved
  suffix are unchanged, and the space left shrinks by exactly the slot and the data.\<close>

theorem insert_refines_list_insert:
  assumes "wf_page p"
  shows "if i \<le> num_slots p \<and> can_insert (length key) (length val) p then
      \<exists>q. insert_entry i key val p = Some q \<and> wf_page q \<and> same_frame p q \<and>
        entries q = take i (entries p) @ (key, val) # drop i (entries p) \<and>
        free_space_after_compaction q =
          free_space_after_compaction p - (SLOT_SIZE + (length key + length val))
    else insert_entry i key val p = None"
  using insert_entry_correct [of p i key val] insert_entry_full [of p key val i]
    insert_entry_bad_slot [of p i key val] assms
  by (auto simp: num_slots_def)

lemma fresh_page_room:
  "wf_page (init (replicate PAGE_SIZE 0))" "num_slots (init (replicate PAGE_SIZE 0)) = 0"
  "entries (init (replicate PAGE_SIZE 0)) = []"
  "klen + vlen \<le> 60000 \<Longrightarrow> can_insert klen vlen (init (replicate PAGE_SIZE 0))"
proof -
  let ?p = "init (replicate PAGE_SIZE 0)"
  have len: "length (replicate PAGE_SIZE (0 :: byte)) = PAGE_SIZE" by simp
  note i = init_page [OF len]
  show wf: "wf_page ?p" "num_slots ?p = 0" "entries ?p = []" using i by (simp_all add: num_slots_def)
  show "can_insert klen vlen ?p" if "klen + vlen \<le> 60000"
    using can_insert_iff [OF wf(1)] i that
    by (simp add: free_space_after_compaction_def slot_array_end_def HEADER_SIZE_def SLOT_SIZE_def
        PAGE_SIZE_def)
qed

theorem insert_refines_list_insert_witness:
  "\<exists>q. insert_entry 0 [1, 2] [3] (init (replicate PAGE_SIZE 0)) = Some q \<and> wf_page q \<and>
    entries q = [([1, 2], [3])]"
  using insert_refines_list_insert [of "init (replicate PAGE_SIZE 0)" 0 "[1, 2]" "[3]"]
    fresh_page_room fresh_page_room(4) [of 2 1]
  by (auto simp: numeral_2_eq_2)

text \<open>C16: removal, in-place update, truncation and compaction. On a well-formed page, removing an
  existing entry, replacing its value by one of the same length, truncating to a prefix and
  compacting never panic, keep the page well-formed with its LSN and reserved suffix intact, and
  the entries become the old ones without the removed entry, with the value replaced, the prefix,
  and the same list. A removal or an update of a slot that does not exist panics, and an update
  with a value of another length reports \<open>false\<close> and changes nothing.\<close>

theorem updates_refine_list_updates:
  assumes "wf_page p"
  shows "(if i < num_slots p then
        \<exists>q. remove_entry i p = Some q \<and> wf_page q \<and> same_frame p q \<and>
          entries q = take i (entries p) @ drop (i + 1) (entries p)
      else remove_entry i p = None) \<and>
    (if i < num_slots p then
       if length val = length (snd (entries p ! i)) then
         \<exists>q. update_value_if_same_length i val p = Some (True, q) \<and> wf_page q \<and> same_frame p q \<and>
           entries q = (entries p)[i := (fst (entries p ! i), val)]
       else update_value_if_same_length i val p = Some (False, p)
     else update_value_if_same_length i val p = None) \<and>
    (if m \<le> num_slots p then
       \<exists>q. truncate m p = Some q \<and> wf_page q \<and> same_frame p q \<and> entries q = take m (entries p)
     else truncate m p = None) \<and>
    (\<exists>q. compactify p = Some q \<and> wf_page q \<and> same_frame p q \<and> entries q = entries p \<and>
      free_space q = free_space_after_compaction p)"
proof (intro conjI)
  show "if i < num_slots p then
        \<exists>q. remove_entry i p = Some q \<and> wf_page q \<and> same_frame p q \<and>
          entries q = take i (entries p) @ drop (i + 1) (entries p)
      else remove_entry i p = None"
    using remove_entry_correct [OF assms, of i] remove_entry_bad_slot [of i p]
    by (auto simp: num_slots_def)
  show "if i < num_slots p then
       if length val = length (snd (entries p ! i)) then
         \<exists>q. update_value_if_same_length i val p = Some (True, q) \<and> wf_page q \<and> same_frame p q \<and>
           entries q = (entries p)[i := (fst (entries p ! i), val)]
       else update_value_if_same_length i val p = Some (False, p)
     else update_value_if_same_length i val p = None"
    using update_value_correct [OF assms, of i val] update_value_other_length [OF assms, of i val]
    by (auto simp: num_slots_def update_value_if_same_length_def slot_def)
  show "if m \<le> num_slots p then
       \<exists>q. truncate m p = Some q \<and> wf_page q \<and> same_frame p q \<and> entries q = take m (entries p)
     else truncate m p = None"
    using truncate_correct [OF assms, of m] by (auto simp: num_slots_def truncate_def Let_def)
  obtain q where "compactify p = Some q" "compacted p q" using compactify_run [OF assms] by blast
  then show "\<exists>q. compactify p = Some q \<and> wf_page q \<and> same_frame p q \<and> entries q = entries p \<and>
      free_space q = free_space_after_compaction p"
    using compacted_frame [of p q] compacted_space(1) [of p q] by (auto simp: compacted_def)
qed

theorem updates_refine_list_updates_witness:
  "\<exists>q. compactify (init (replicate PAGE_SIZE 0)) = Some q \<and> wf_page q \<and> entries q = []"
  using updates_refine_list_updates [of "init (replicate PAGE_SIZE 0)" 0 "[]" 0] fresh_page_room
  by auto

text \<open>C17: splitting a page. Copying the entries \<open>i .. i + count\<close> of one well-formed page behind those
  of another that has room for them succeeds, and the target then holds its old entries followed
  by exactly the copied ones, with its LSN and reserved suffix intact.\<close>

theorem copy_range_appends:
  assumes "wf_page src" "wf_page dst" "i + count \<le> num_slots src"
    and "sum_list (map entry_size (take count (drop i (entries src)))) \<le> free_space_after_compaction dst"
  shows "\<exists>q. copy_key_value_range src dst (num_slots dst) i count = Some q \<and> wf_page q \<and>
    same_frame dst q \<and> entries q = entries dst @ take count (drop i (entries src))"
  using copy_entries_loop_correct [OF assms(1,2)] assms(3,4)
  by (simp add: copy_key_value_range_def num_slots_def)

theorem copy_range_appends_witness:
  "\<exists>src q. entries src = [([1, 2], [3])] \<and>
    copy_key_value_range src (init (replicate PAGE_SIZE 0)) 0 0 1 = Some q \<and>
    entries q = [([1, 2], [3])]"
proof -
  let ?p = "init (replicate PAGE_SIZE 0)"
  note fresh = fresh_page_room
  have ci: "can_insert (length [1 :: byte, 2]) (length [3 :: byte]) ?p"
    using fresh(4) [of 2 1] by (simp add: numeral_2_eq_2)
  obtain src where src: "wf_page src" "entries src = [([1, 2], [3])]"
    using insert_entry_correct [OF fresh(1), of 0 "[1, 2]" "[3]"] ci fresh(3) by auto
  have n: "num_slots src = 1" using length_entries [of src] src(2) by (simp add: num_slots_def)
  have "sum_list (map entry_size (take 1 (drop 0 (entries src)))) \<le> free_space_after_compaction ?p"
    using ci can_insert_iff [OF fresh(1)] src(2) by (simp add: entry_size_def)
  from copy_range_appends [OF src(1) fresh(1) _ this] n fresh(2,3) src(2)
  show ?thesis by auto
qed

text \<open>C10: whole sequences of updates. If a sequence of insertions and removals runs on a well-formed
  page without a panic, the same sequence is legal on the list of its entries, the final page is
  well-formed and holds exactly the list that results, and no space is lost: the space left plus
  the space of the entries is constant.\<close>

theorem update_sequences_refine_lists:
  assumes "wf_page p" "run_updates insert_entry remove_entry us p = Some q"
  shows "wf_page q \<and> apply_updates us (entries p) = Some (entries q) \<and>
    free_space_after_compaction q + sum_list (map entry_size (entries q)) =
      free_space_after_compaction p + sum_list (map entry_size (entries p))"
  by (rule slotted.run_updates_refines [OF assms])

theorem update_sequences_refine_lists_witness:
  "\<exists>q. run_updates insert_entry remove_entry [Insert_at 0 [1, 2] [3], Remove_at 0]
      (init (replicate PAGE_SIZE 0)) = Some q \<and> wf_page q \<and> entries q = []"
proof -
  let ?p = "init (replicate PAGE_SIZE 0)"
  let ?us = "[Insert_at 0 [1, 2] [3], Remove_at 0] :: (bytes, bytes) update list"
  note fresh = fresh_page_room
  have "can_insert (length [1 :: byte, 2]) (length [3 :: byte]) ?p"
    using fresh(4) [of 2 1] by (simp add: numeral_2_eq_2)
  then obtain r where r: "insert_entry 0 [1, 2] [3] ?p = Some r" "wf_page r" "entries r = [([1, 2], [3])]"
    using insert_entry_correct [OF fresh(1), of 0 "[1, 2]" "[3]"] fresh(3) by auto
  have "0 < hdr_num_slots r" using length_entries [of r] r(3) by simp
  then obtain q where "remove_entry 0 r = Some q" using remove_entry_correct [OF r(2)] by blast
  then have run: "run_updates insert_entry remove_entry ?us ?p = Some q" using r(1) by simp
  from update_sequences_refine_lists [OF fresh(1) run] run fresh(3) show ?thesis by auto
qed

end
