(* ===== verification/Slotted_Page_Search.thy ===== *)
theory Slotted_Page_Search
  imports Slotted_Page_Update
begin

text \<open>
  Searching a slotted page: the binary searches of \<open>crates/storage/src/slotted_page.rs\<close> with the
  comparison of four-byte key heads, the fast path for eight-byte keys, and the bounds-checked
  variants for optimistic readers. On a well-formed page with ascending keys every variant returns
  the position of the first key that is not smaller and whether it is equal; on arbitrary bytes
  the checked variants still return a position inside the slot array.
\<close>

section \<open>The searches\<close>

definition slot_key_u64 :: "bytes \<Rightarrow> nat \<Rightarrow> nat option option" where
  "slot_key_u64 p slot_id = do {
     s \<leftarrow> slot p slot_id;
     if key_len s \<noteq> 8 then Some None
     else if slot_off s + 8 > PAGE_SIZE then Some None
     else do { k \<leftarrow> read_be_u64 (read_at (slot_off s) 8 p); Some (Some k) } }"

definition try_slot_key_u64 :: "bytes \<Rightarrow> nat \<Rightarrow> nat option" where
  "try_slot_key_u64 p slot_id = do {
     s \<leftarrow> try_slot_copy p slot_id;
     if key_len s \<noteq> 8 then None
     else if slot_off s + 8 > PAGE_SIZE then None
     else Some (be_val (read_at (slot_off s) 8 p)) }"

function generic_loop :: "bytes \<Rightarrow> bytes \<Rightarrow> nat \<Rightarrow> nat \<Rightarrow> nat \<Rightarrow> (nat \<times> bool) option" where
  "generic_loop p key search_head lo hi =
     (if lo < hi then
        let mid = lo + (hi - lo) div 2 in do {
          s \<leftarrow> slot p mid;
          if slot_head s < search_head then generic_loop p key search_head (mid + 1) hi
          else if slot_head s > search_head then generic_loop p key search_head lo mid
          else do {
            slot_key \<leftarrow> get_key p mid;
            case cmp_keys slot_key key of
              Less \<Rightarrow> generic_loop p key search_head (mid + 1) hi
            | Greater \<Rightarrow> generic_loop p key search_head lo mid
            | Equal \<Rightarrow> Some (mid, True) } }
      else Some (lo, False))"
  by pat_completeness auto
termination
  by (relation "measure (\<lambda>(p, key, search_head, lo, hi). hi - lo)") auto

definition lower_bound_generic :: "bytes \<Rightarrow> bytes \<Rightarrow> (nat \<times> bool) option" where
  "lower_bound_generic p key =
     (let count = hdr_num_slots p in
      if count = 0 then Some (0, False) else generic_loop p key (make_head key) 0 count)"

function try_generic_loop :: "bytes \<Rightarrow> bytes \<Rightarrow> nat \<Rightarrow> nat \<Rightarrow> nat \<Rightarrow> (nat \<times> bool) option" where
  "try_generic_loop p key search_head lo hi =
     (if lo < hi then
        let mid = lo + (hi - lo) div 2 in do {
          s \<leftarrow> try_slot_copy p mid;
          if slot_head s < search_head then try_generic_loop p key search_head (mid + 1) hi
          else if slot_head s > search_head then try_generic_loop p key search_head lo mid
          else do {
            slot_key \<leftarrow> try_get_key p mid;
            case cmp_keys slot_key key of
              Less \<Rightarrow> try_generic_loop p key search_head (mid + 1) hi
            | Greater \<Rightarrow> try_generic_loop p key search_head lo mid
            | Equal \<Rightarrow> Some (mid, True) } }
      else Some (lo, False))"
  by pat_completeness auto
termination
  by (relation "measure (\<lambda>(p, key, search_head, lo, hi). hi - lo)") auto

definition try_lower_bound_generic :: "bytes \<Rightarrow> bytes \<Rightarrow> (nat \<times> bool) option" where
  "try_lower_bound_generic p key =
     (let count = hdr_num_slots p in
      if count = 0 then Some (0, False)
      else if count > PAGE_SIZE div 12 then None
      else try_generic_loop p key (make_head key) 0 count)"

function u64_loop :: "bytes \<Rightarrow> nat \<Rightarrow> nat \<Rightarrow> nat \<Rightarrow> (nat \<times> bool) option" where
  "u64_loop p search_key lo hi =
     (if lo < hi then
        let mid = lo + (hi - lo) div 2 in do {
          slot_key \<leftarrow> slot_key_u64 p mid;
          case slot_key of
            None \<Rightarrow> lower_bound_generic p (be_bytes_u64 search_key)
          | Some slot_key \<Rightarrow>
              if slot_key < search_key then u64_loop p search_key (mid + 1) hi
              else if slot_key > search_key then u64_loop p search_key lo mid
              else Some (mid, True) }
      else Some (lo, False))"
  by pat_completeness auto
termination
  by (relation "measure (\<lambda>(p, search_key, lo, hi). hi - lo)") auto

definition lower_bound_u64_be :: "bytes \<Rightarrow> nat \<Rightarrow> (nat \<times> bool) option" where
  "lower_bound_u64_be p search_key =
     (let count = hdr_num_slots p in
      if count = 0 then Some (0, False) else u64_loop p search_key 0 count)"

function try_u64_loop :: "bytes \<Rightarrow> nat \<Rightarrow> nat \<Rightarrow> nat \<Rightarrow> (nat \<times> bool) option" where
  "try_u64_loop p search_key lo hi =
     (if lo < hi then
        let mid = lo + (hi - lo) div 2 in
        case try_slot_key_u64 p mid of
          None \<Rightarrow> try_lower_bound_generic p (be_bytes_u64 search_key)
        | Some slot_key \<Rightarrow>
            if slot_key < search_key then try_u64_loop p search_key (mid + 1) hi
            else if slot_key > search_key then try_u64_loop p search_key lo mid
            else Some (mid, True)
      else Some (lo, False))"
  by pat_completeness auto
termination
  by (relation "measure (\<lambda>(p, search_key, lo, hi). hi - lo)") auto

definition try_lower_bound_u64_be :: "bytes \<Rightarrow> nat \<Rightarrow> (nat \<times> bool) option" where
  "try_lower_bound_u64_be p search_key =
     (let count = hdr_num_slots p in
      if count = 0 then Some (0, False)
      else if count > PAGE_SIZE div 12 then None
      else try_u64_loop p search_key 0 count)"

definition lower_bound :: "bytes \<Rightarrow> bytes \<Rightarrow> (nat \<times> bool) option" where
  "lower_bound p key =
     (if length key = 8 then do { search_key \<leftarrow> read_be_u64 key; lower_bound_u64_be p search_key }
      else lower_bound_generic p key)"

definition try_lower_bound :: "bytes \<Rightarrow> bytes \<Rightarrow> (nat \<times> bool) option" where
  "try_lower_bound p key =
     (if length key = 8 then try_lower_bound_u64_be p (be_val key)
      else try_lower_bound_generic p key)"

declare generic_loop.simps [simp del] try_generic_loop.simps [simp del]
  u64_loop.simps [simp del] try_u64_loop.simps [simp del]

section \<open>Order of keys and of their numeric images\<close>

lemma be_val_Cons: "be_val (b # bs) = unat b * 256 ^ length bs + be_val bs"
proof -
  have "le_val (xs @ [b]) = le_val xs + unat b * 256 ^ length xs" for xs
    by (induction xs) (simp_all add: algebra_simps)
  then show ?thesis by (simp add: be_val_def)
qed

lemma be_val_less_iff: "length a = length b \<Longrightarrow> be_val a < be_val b \<longleftrightarrow> a < b"
proof (induction a arbitrary: b)
  case (Cons x xs)
  then obtain y ys where b: "b = y # ys" "length ys = length xs" by (metis length_Suc_conv)
  have bound: "be_val xs < 256 ^ length xs" "be_val ys < 256 ^ length xs"
    using be_val_less [of xs] be_val_less [of ys] b(2) by simp_all
  consider "x < y" | "x = y" | "y < x" by fastforce
  then show ?case
  proof cases
    case 1
    then have "unat x + 1 \<le> unat y" by (simp add: word_less_nat_alt)
    then have "(unat x + 1) * 256 ^ length xs \<le> unat y * 256 ^ length xs" by (rule mult_le_mono1)
    then show ?thesis using 1 bound b by (simp add: be_val_Cons)
  next
    case 2
    then show ?thesis using Cons.IH [of ys] b by (simp add: be_val_Cons)
  next
    case 3
    then have "unat y + 1 \<le> unat x" by (simp add: word_less_nat_alt)
    then have "(unat y + 1) * 256 ^ length xs \<le> unat x * 256 ^ length xs" by (rule mult_le_mono1)
    then show ?thesis using 3 bound b by (auto simp: be_val_Cons)
  qed
qed (simp add: be_val_def)

lemma padded_less:
  "take n a @ replicate (n - length a) (0 :: byte) < take n b @ replicate (n - length b) 0 \<Longrightarrow> a < b"
proof (induction n arbitrary: a b)
  case (Suc n)
  show ?case
  proof (cases a; cases b)
    fix x xs assume ab: "a = x # xs" "b = []"
    then have "x = 0" "take n xs @ replicate (n - length xs) 0 < replicate n 0"
      using Suc.prems by auto
    then show ?thesis using Suc.IH [of xs "[]"] by simp
  qed (use Suc in auto)
qed simp

lemma make_head_less_imp: "make_head a < make_head b \<Longrightarrow> a < b"
  unfolding make_head_def by (rule padded_less [of 4]) (subst (asm) be_val_less_iff, simp_all)

lemma be_bytes_be_val: "length key = 8 \<Longrightarrow> be_bytes_u64 (be_val key) = key"
  by (simp add: be_bytes_u64_def be_val_def le_bytes_le_val)

section \<open>Searching a sorted page\<close>

definition keys :: "bytes \<Rightarrow> bytes list" where
  "keys p = map fst (entries p)"

text \<open>The specification: how many keys are smaller, and whether the key is there.\<close>

definition lower_bound_spec :: "bytes list \<Rightarrow> bytes \<Rightarrow> nat \<times> bool" where
  "lower_bound_spec ks key = (length (takeWhile (\<lambda>k. k < key) ks), key \<in> set ks)"

definition sorted_page :: "bytes \<Rightarrow> bool" where
  "sorted_page p = (wf_page p \<and> sorted_wrt (<) (keys p))"

lemma length_keys [simp]: "length (keys p) = hdr_num_slots p"
  by (simp add: keys_def)

lemma takeWhile_length_eq:
  assumes "i \<le> length xs" "\<forall>j < i. P (xs ! j)" "i < length xs \<longrightarrow> \<not> P (xs ! i)"
  shows "length (takeWhile P xs) = i"
  using assms
proof (induction xs arbitrary: i)
  case (Cons x xs)
  then show ?case by (cases i) fastforce+
qed simp

lemma spec_absent:
  assumes "i \<le> length ks" "\<forall>j < i. ks ! j < key" "\<forall>j. i \<le> j \<and> j < length ks \<longrightarrow> key < ks ! j"
  shows "lower_bound_spec ks key = (i, False)"
proof -
  have "key \<notin> set ks"
    using assms by (metis in_set_conv_nth less_irrefl not_le)
  moreover have "length (takeWhile (\<lambda>k. k < key) ks) = i"
    using assms by (intro takeWhile_length_eq) (auto dest: less_imp_not_less)
  ultimately show ?thesis by (simp add: lower_bound_spec_def)
qed

lemma spec_found:
  assumes "sorted_wrt (<) ks" "i < length ks" "ks ! i = key"
  shows "lower_bound_spec ks key = (i, True)"
proof -
  have "\<forall>j < i. ks ! j < key" using assms sorted_wrt_nth_less by blast
  then have "length (takeWhile (\<lambda>k. k < key) ks) = i"
    using assms by (intro takeWhile_length_eq) auto
  then show ?thesis using assms(3) nth_mem [OF assms(2)] by (simp add: lower_bound_spec_def)
qed

text \<open>What the two halves of a binary search know, and how a probe at \<open>mid\<close> narrows them.\<close>

definition bracket :: "bytes list \<Rightarrow> bytes \<Rightarrow> nat \<Rightarrow> nat \<Rightarrow> bool" where
  "bracket ks key lo hi = (sorted_wrt (<) ks \<and> lo \<le> hi \<and> hi \<le> length ks \<and>
     (\<forall>j < lo. ks ! j < key) \<and> (\<forall>j. hi \<le> j \<and> j < length ks \<longrightarrow> key < ks ! j))"

lemma bracket_lo:
  assumes "bracket ks key lo hi" "lo \<le> mid" "mid < hi" "ks ! mid < key"
  shows "bracket ks key (mid + 1) hi"
proof -
  have "ks ! j < key" if "j < mid + 1" for j
  proof (cases "j = mid")
    case False
    then have "ks ! j < ks ! mid"
      using assms that by (auto simp: bracket_def intro!: sorted_wrt_nth_less [of "(<)"])
    then show ?thesis using assms(4) by simp
  qed (use assms in simp)
  then show ?thesis using assms by (auto simp: bracket_def)
qed

lemma bracket_hi:
  assumes "bracket ks key lo hi" "lo \<le> mid" "mid < hi" "key < ks ! mid"
  shows "bracket ks key lo mid"
proof -
  have "key < ks ! j" if "mid \<le> j" "j < length ks" for j
  proof (cases "j = mid")
    case False
    then have "ks ! mid < ks ! j"
      using assms that by (auto simp: bracket_def intro!: sorted_wrt_nth_less [of "(<)"])
    then show ?thesis using assms(4) by simp
  qed (use assms in simp)
  then show ?thesis using assms by (auto simp: bracket_def)
qed

lemma bracket_done: "bracket ks key lo hi \<Longrightarrow> \<not> lo < hi \<Longrightarrow> lower_bound_spec ks key = (lo, False)"
  by (rule spec_absent) (auto simp: bracket_def)

lemma bracket_mid: "lo < hi \<Longrightarrow> lo \<le> lo + (hi - lo) div 2 \<and> lo + (hi - lo) div 2 < (hi :: nat)"
  by linarith

lemma bracket_init: "sorted_page p \<Longrightarrow> bracket (keys p) key 0 (hdr_num_slots p)"
  by (auto simp: bracket_def sorted_page_def)

lemma probe:
  assumes "wf_page p" "i < hdr_num_slots p"
  shows "slot p i = Some (slot_at p i)" "get_key p i = Some (keys p ! i)"
    "slot_head (slot_at p i) = make_head (keys p ! i)"
    "key_len (slot_at p i) = length (keys p ! i)"
    "slot_off (slot_at p i) + key_len (slot_at p i) \<le> PAGE_SIZE"
    "keys p ! i = read_at (slot_off (slot_at p i)) (key_len (slot_at p i)) p"
proof -
  have s: "slot_at p i \<in> set (slots p)" using assms(2) by (auto simp: set_slots)
  note b = wf_slot_bounds [OF assms(1) s]
  show k: "keys p ! i = read_at (slot_off (slot_at p i)) (key_len (slot_at p i)) p"
    using assms(2) by (simp add: keys_def nth_entries entry_of_def)
  show "slot p i = Some (slot_at p i)" "get_key p i = Some (keys p ! i)"
    using wf_slot [OF assms] wf_get_key [OF assms] assms(2) by (simp_all add: keys_def)
  show "slot_head (slot_at p i) = make_head (keys p ! i)"
    using b(3) assms(2) by (simp add: keys_def nth_entries)
  show "slot_off (slot_at p i) + key_len (slot_at p i) \<le> PAGE_SIZE" using b(1) by (simp add: slot_len_def)
  then show "key_len (slot_at p i) = length (keys p ! i)" using k wf_pageD(1) [OF assms(1)] by simp
qed

lemma cmp_keys_split:
  "(case cmp_keys a b of Less \<Rightarrow> x | Greater \<Rightarrow> y | Equal \<Rightarrow> z) = (if a < b then x else if a = b then z else y)"
  by (simp add: cmp_keys_def)

lemma generic_loop_correct:
  assumes "wf_page p"
  shows "bracket (keys p) key lo hi \<Longrightarrow>
    generic_loop p key (make_head key) lo hi = Some (lower_bound_spec (keys p) key)"
proof (induction "hi - lo" arbitrary: lo hi rule: less_induct)
  case less
  show ?case
  proof (cases "lo < hi")
    case False
    then show ?thesis using bracket_done [OF less.prems] by (simp add: generic_loop.simps)
  next
    case True
    define mid where "mid = lo + (hi - lo) div 2"
    have m: "lo \<le> mid" "mid < hi" using bracket_mid [OF True] by (simp_all add: mid_def)
    then have n: "mid < hdr_num_slots p" using less.prems by (simp add: bracket_def)
    note pr = probe [OF assms n]
    have up: "generic_loop p key (make_head key) (mid + 1) hi = Some (lower_bound_spec (keys p) key)"
      if "keys p ! mid < key"
      using less.hyps bracket_lo [OF less.prems m that] m by simp
    have down: "generic_loop p key (make_head key) lo mid = Some (lower_bound_spec (keys p) key)"
      if "key < keys p ! mid"
      using less.hyps bracket_hi [OF less.prems m that] m by simp
    have found: "lower_bound_spec (keys p) key = (mid, True)" if "keys p ! mid = key"
      using less.prems that n by (intro spec_found) (auto simp: bracket_def)
    have "make_head (keys p ! mid) < make_head key \<Longrightarrow> keys p ! mid < key"
      "make_head key < make_head (keys p ! mid) \<Longrightarrow> key < keys p ! mid"
      using make_head_less_imp by blast+
    then show ?thesis
      using True pr(1-3) up down found
      by (subst generic_loop.simps) (auto simp: Let_def cmp_keys_split simp flip: mid_def)
  qed
qed

lemma lower_bound_generic_correct:
  assumes "sorted_page p"
  shows "lower_bound_generic p key = Some (lower_bound_spec (keys p) key)"
proof (cases "hdr_num_slots p = 0")
  case True
  then have "keys p = []" by (metis length_keys length_0_conv)
  then show ?thesis using True by (simp add: lower_bound_generic_def lower_bound_spec_def)
next
  case False
  then show ?thesis
    using generic_loop_correct [OF _ bracket_init [OF assms, of key]] assms
    by (simp add: lower_bound_generic_def sorted_page_def Let_def)
qed

lemma slot_key_u64_run:
  assumes "wf_page p" "i < hdr_num_slots p"
  shows "slot_key_u64 p i =
    Some (if length (keys p ! i) = 8 then Some (be_val (keys p ! i)) else None)"
proof -
  note pr = probe [OF assms]
  have "key_len (slot_at p i) = 8 \<Longrightarrow> read_at (slot_off (slot_at p i)) 8 p = keys p ! i"
    using pr(6) by simp
  then show ?thesis
    using pr(1,4,5) by (simp add: slot_key_u64_def read_be_u64_def)
qed

lemma u64_loop_correct:
  assumes "sorted_page p" "length key = 8"
  shows "bracket (keys p) key lo hi \<Longrightarrow>
    u64_loop p (be_val key) lo hi = Some (lower_bound_spec (keys p) key)"
proof (induction "hi - lo" arbitrary: lo hi rule: less_induct)
  case less
  show ?case
  proof (cases "lo < hi")
    case False
    then show ?thesis using bracket_done [OF less.prems] by (simp add: u64_loop.simps)
  next
    case True
    define mid where "mid = lo + (hi - lo) div 2"
    have m: "lo \<le> mid" "mid < hi" using bracket_mid [OF True] by (simp_all add: mid_def)
    then have n: "mid < hdr_num_slots p" using less.prems by (simp add: bracket_def)
    have wf: "wf_page p" using assms(1) by (simp add: sorted_page_def)
    have up: "u64_loop p (be_val key) (mid + 1) hi = Some (lower_bound_spec (keys p) key)"
      if "keys p ! mid < key"
      using less.hyps bracket_lo [OF less.prems m that] m by simp
    have down: "u64_loop p (be_val key) lo mid = Some (lower_bound_spec (keys p) key)"
      if "key < keys p ! mid"
      using less.hyps bracket_hi [OF less.prems m that] m by simp
    have found: "lower_bound_spec (keys p) key = (mid, True)" if "keys p ! mid = key"
      using less.prems that n by (intro spec_found) (auto simp: bracket_def)
    have fallback: "lower_bound_generic p (be_bytes_u64 (be_val key)) =
        Some (lower_bound_spec (keys p) key)"
      using lower_bound_generic_correct [OF assms(1)] be_bytes_be_val [OF assms(2)] by simp
    have "be_val (keys p ! mid) < be_val key \<longleftrightarrow> keys p ! mid < key"
      "be_val key < be_val (keys p ! mid) \<longleftrightarrow> key < keys p ! mid" if "length (keys p ! mid) = 8"
      using that assms(2) by (simp_all add: be_val_less_iff)
    then show ?thesis
      using True slot_key_u64_run [OF wf n] up down found fallback
      by (subst u64_loop.simps) (auto simp: Let_def simp flip: mid_def)
  qed
qed

lemma lower_bound_correct:
  assumes "sorted_page p"
  shows "lower_bound p key = Some (lower_bound_spec (keys p) key)"
proof (cases "length key = 8 \<and> hdr_num_slots p > 0")
  case True
  then show ?thesis
    using u64_loop_correct [OF assms _ bracket_init [OF assms, of key]]
    by (simp add: lower_bound_def read_be_u64_def lower_bound_u64_be_def Let_def)
next
  case False
  then show ?thesis
    using lower_bound_generic_correct [OF assms, of key]
    by (auto simp: lower_bound_def read_be_u64_def lower_bound_u64_be_def lower_bound_generic_def)
qed

section \<open>The checked searches\<close>

lemma try_accessors:
  assumes "wf_page p" "i < hdr_num_slots p"
  shows "try_slot_copy p i = slot p i" "try_get_key p i = get_key p i"
    "slot_key_u64 p i = Some (try_slot_key_u64 p i)"
proof -
  note pr = probe [OF assms] and len = wf_pageD(1) [OF assms(1)]
  show t: "try_slot_copy p i = slot p i"
    using pr(1) wf_num_slots [OF assms] len assms(2) by (simp add: try_slot_copy_def)
  then show "try_get_key p i = get_key p i"
    using pr(1,5) len by (simp add: try_get_key_def get_key_def)
  show "slot_key_u64 p i = Some (try_slot_key_u64 p i)"
    using t pr(1) pr(5) len by (simp add: try_slot_key_u64_def slot_key_u64_def read_be_u64_def)
qed

lemma try_generic_loop_eq:
  assumes "wf_page p"
  shows "hi \<le> hdr_num_slots p \<Longrightarrow> try_generic_loop p key h lo hi = generic_loop p key h lo hi"
proof (induction "hi - lo" arbitrary: lo hi rule: less_induct)
  case less
  show ?case
  proof (cases "lo < hi")
    case True
    define mid where "mid = lo + (hi - lo) div 2"
    have m: "lo \<le> mid" "mid < hi" using bracket_mid [OF True] by (simp_all add: mid_def)
    have "try_generic_loop p key h (mid + 1) hi = generic_loop p key h (mid + 1) hi"
      "try_generic_loop p key h lo mid = generic_loop p key h lo mid"
      using less m by auto
    then show ?thesis
      using True try_accessors [OF assms, of mid] m less.prems
      by (subst generic_loop.simps, subst try_generic_loop.simps)
         (auto simp: Let_def cong: Ordering.case_cong if_cong simp flip: mid_def)
  qed (simp add: generic_loop.simps try_generic_loop.simps)
qed

lemma wf_count: "wf_page p \<Longrightarrow> \<not> hdr_num_slots p > PAGE_SIZE div 12"
  using wf_pageD(2,3) [of p] by (simp add: slot_pos_eq PAGE_SIZE_def)

lemma try_lower_bound_generic_eq:
  "wf_page p \<Longrightarrow> try_lower_bound_generic p key = lower_bound_generic p key"
  using wf_count [of p] try_generic_loop_eq [of p "hdr_num_slots p"]
  by (simp add: try_lower_bound_generic_def lower_bound_generic_def Let_def)

lemma try_u64_loop_eq:
  assumes "wf_page p"
  shows "hi \<le> hdr_num_slots p \<Longrightarrow> try_u64_loop p k lo hi = u64_loop p k lo hi"
proof (induction "hi - lo" arbitrary: lo hi rule: less_induct)
  case less
  show ?case
  proof (cases "lo < hi")
    case True
    define mid where "mid = lo + (hi - lo) div 2"
    have m: "lo \<le> mid" "mid < hi" using bracket_mid [OF True] by (simp_all add: mid_def)
    have "try_u64_loop p k (mid + 1) hi = u64_loop p k (mid + 1) hi"
      "try_u64_loop p k lo mid = u64_loop p k lo mid"
      using less m by auto
    then show ?thesis
      using True try_accessors(3) [OF assms, of mid] m less.prems
        try_lower_bound_generic_eq [OF assms]
      by (subst u64_loop.simps, subst try_u64_loop.simps)
         (auto simp: Let_def simp flip: mid_def split: option.split)
  qed (simp add: u64_loop.simps try_u64_loop.simps)
qed

lemma try_lower_bound_eq:
  assumes "wf_page p"
  shows "try_lower_bound p key = lower_bound p key"
  using wf_count [OF assms] try_u64_loop_eq [OF assms, of "hdr_num_slots p"]
    try_lower_bound_generic_eq [OF assms]
  by (simp add: try_lower_bound_def lower_bound_def try_lower_bound_u64_be_def
      lower_bound_u64_be_def read_be_u64_def Let_def)

lemma try_generic_loop_bounds:
  "try_generic_loop p key h lo hi = Some (pos, found) \<Longrightarrow> lo \<le> hi \<Longrightarrow>
    pos \<le> hi \<and> (found \<longrightarrow> pos < hi \<and> try_get_key p pos = Some key)"
proof (induction "hi - lo" arbitrary: lo hi rule: less_induct)
  case less
  show ?case
  proof (cases "lo < hi")
    case False
    then show ?thesis using less.prems by (simp add: try_generic_loop.simps)
  next
    case True
    define mid where "mid = lo + (hi - lo) div 2"
    have m: "lo \<le> mid" "mid < hi" using bracket_mid [OF True] by (simp_all add: mid_def)
    have "try_generic_loop p key h (mid + 1) hi = Some (pos, found) \<or>
        try_generic_loop p key h lo mid = Some (pos, found) \<or>
        try_get_key p mid = Some key \<and> pos = mid \<and> found"
      using less.prems(1) True
      by (subst (asm) try_generic_loop.simps)
         (auto simp: Let_def bind_eq_Some_conv cmp_keys_split simp flip: mid_def split: if_splits)
    then show ?thesis
      using less.hyps [of hi "mid + 1"] less.hyps [of mid lo] m by fastforce
  qed
qed

lemma try_lower_bound_generic_bounds:
  "try_lower_bound_generic p key = Some (pos, found) \<Longrightarrow>
    pos \<le> hdr_num_slots p \<and> (found \<longrightarrow> pos < hdr_num_slots p \<and> try_get_key p pos = Some key)"
  using try_generic_loop_bounds [of p key "make_head key" 0 "hdr_num_slots p" pos found]
  by (auto simp: try_lower_bound_generic_def Let_def split: if_splits)

lemma try_slot_key_u64_key:
  assumes "length p = PAGE_SIZE" "length key = 8" "try_slot_key_u64 p i = Some (be_val key)"
  shows "try_get_key p i = Some key"
proof -
  obtain s where s: "try_slot_copy p i = Some s" "key_len s = 8" "slot_off s + 8 \<le> PAGE_SIZE"
    "be_val (read_at (slot_off s) 8 p) = be_val key"
    using assms(3) by (auto simp: try_slot_key_u64_def bind_eq_Some_conv split: if_splits)
  then have "read_at (slot_off s) 8 p = key" using assms(1,2) by (simp add: be_val_inject)
  then show ?thesis using s by (simp add: try_get_key_def)
qed

lemma try_u64_loop_bounds:
  assumes "length p = PAGE_SIZE" "length key = 8"
  shows "try_u64_loop p (be_val key) lo hi = Some (pos, found) \<Longrightarrow> lo \<le> hi \<Longrightarrow> hi \<le> hdr_num_slots p \<Longrightarrow>
    pos \<le> hdr_num_slots p \<and> (found \<longrightarrow> pos < hdr_num_slots p \<and> try_get_key p pos = Some key)"
proof (induction "hi - lo" arbitrary: lo hi rule: less_induct)
  case less
  show ?case
  proof (cases "lo < hi")
    case False
    then show ?thesis using less.prems by (simp add: try_u64_loop.simps)
  next
    case True
    define mid where "mid = lo + (hi - lo) div 2"
    have m: "lo \<le> mid" "mid < hi" using bracket_mid [OF True] by (simp_all add: mid_def)
    have "try_u64_loop p (be_val key) (mid + 1) hi = Some (pos, found) \<or>
        try_u64_loop p (be_val key) lo mid = Some (pos, found) \<or>
        try_slot_key_u64 p mid = Some (be_val key) \<and> pos = mid \<and> found \<or>
        try_lower_bound_generic p (be_bytes_u64 (be_val key)) = Some (pos, found)"
      using less.prems(1) True
      by (subst (asm) try_u64_loop.simps)
         (auto simp: Let_def simp flip: mid_def split: if_splits option.splits)
    then show ?thesis
      using less.hyps [of hi "mid + 1"] less.hyps [of mid lo] m less.prems(3)
        try_slot_key_u64_key [OF assms] try_lower_bound_generic_bounds [of p key pos found]
        be_bytes_be_val [OF assms(2)]
      by fastforce
  qed
qed

text \<open>C13: binary search finds the right slot. On a well-formed page whose keys ascend, the search
  by heads and keys, the numeric fast path for eight-byte keys and the bounds-checked variants for
  optimistic readers all return the same answer: the number of keys smaller than the searched one,
  which is the position of the first key not smaller, and whether the searched key is on the page.
  None of them panics.\<close>

theorem lower_bound_finds:
  assumes "sorted_page p"
  shows "lower_bound p key = Some (lower_bound_spec (keys p) key) \<and>
    lower_bound_generic p key = Some (lower_bound_spec (keys p) key) \<and>
    try_lower_bound p key = Some (lower_bound_spec (keys p) key)"
  using lower_bound_correct [OF assms] lower_bound_generic_correct [OF assms]
    try_lower_bound_eq [of p key] assms
  by (simp add: sorted_page_def)

lemma singleton_page:
  "\<exists>p. sorted_page p \<and> keys p = [[1, 2]] \<and> length p = PAGE_SIZE"
proof -
  note fresh = fresh_page_room
  have "can_insert (length [1 :: byte, 2]) (length [3 :: byte]) (init (replicate PAGE_SIZE 0))"
    using fresh(4) [of 2 1] by (simp add: numeral_2_eq_2)
  then obtain p where "wf_page p" "entries p = [([1, 2], [3])]"
    using insert_entry_correct [OF fresh(1), of 0 "[1, 2]" "[3]"] fresh(3) by auto
  then show ?thesis using wf_pageD(1) by (auto simp: sorted_page_def keys_def)
qed

theorem lower_bound_finds_witness:
  "\<exists>p. keys p = [[1, 2]] \<and> lower_bound p [1, 2] = Some (0, True) \<and>
    try_lower_bound p [9] = Some (1, False)"
proof -
  obtain p where p: "sorted_page p" "keys p = [[1, 2]]" using singleton_page by blast
  have "lower_bound_spec [[1, 2]] [1, 2] = (0, True)" "lower_bound_spec [[1, 2]] [9] = (1, False)"
    by (simp_all add: lower_bound_spec_def)
  then show ?thesis
    using lower_bound_finds [OF p(1), of "[1, 2]"] lower_bound_finds [OF p(1), of "[9]"] p(2) by auto
qed



section \<open>The page as a sorted map\<close>

text \<open>A container that also searches: the contract a B-tree leaf needs.\<close>

locale sorted_container = entry_container +
  fixes find :: "'a \<Rightarrow> 'b :: linorder \<Rightarrow> (nat \<times> bool) option"
  assumes find_position: "wf p \<Longrightarrow> sorted_wrt (<) (map fst (content p)) \<Longrightarrow>
    find p k = Some (length (takeWhile (\<lambda>x. x < k) (map fst (content p))), k \<in> fst ` set (content p))"
begin

lemma insert_found_position:
  assumes "wf p" "sorted_wrt (<) (map fst (content p))" "find p k = Some (i, False)"
    and "ins i k v p = Some q"
  shows "wf q \<and> sorted_wrt (<) (map fst (content q)) \<and> map_of (content q) = (map_of (content p))(k \<mapsto> v)"
proof -
  let ?ks = "map fst (content p)"
  have i: "i = length (takeWhile (\<lambda>x. x < k) ?ks)" "k \<notin> set ?ks"
    using find_position [OF assms(1,2), of k] assms(3) by auto
  then have il: "i \<le> length (content p)" using length_takeWhile_le [of _ ?ks] by simp
  have fit: "cost (k, v) \<le> room p" using ins_full [OF assms(1)] assms(4) by (metis not_le option.simps(3))
  have q: "wf q" "content q = take i (content p) @ (k, v) # drop i (content p)"
    using ins_fits [OF assms(1) il fit] assms(4) by auto
  have lo: "x < k" if "x \<in> set (take i ?ks)" for x
    using that by (simp add: i(1) takeWhile_eq_take [symmetric]) (metis set_takeWhileD)
  have hi: "k < x" if "x \<in> set (drop i ?ks)" for x
  proof -
    have ne: "drop i ?ks = dropWhile (\<lambda>x. x < k) ?ks" by (simp add: i(1) dropWhile_eq_drop)
    then have "dropWhile (\<lambda>x. x < k) ?ks \<noteq> []" using that by (metis empty_iff list.set(1))
    then obtain y ys where y: "dropWhile (\<lambda>x. x < k) ?ks = y # ys" by (metis neq_Nil_conv)
    then have "\<not> y < k" "y \<in> set ?ks"
      by (metis dropWhile_eq_Cons_conv, metis list.set_intros(1) set_dropWhileD)
    then have "k < y" using i(2) by (metis less_linear)
    moreover have "x = y \<or> y < x"
      using that assms(2) ne y
      by (metis append_take_drop_id set_ConsD sorted_wrt.simps(2) sorted_wrt_append)
    ultimately show ?thesis by auto
  qed
  have "sorted_wrt (<) (take i ?ks @ k # drop i ?ks)"
    using assms(2) lo hi
    by (auto simp: sorted_wrt_append intro: sorted_wrt_take sorted_wrt_drop order.strict_trans)
  moreover have "map_of (content q) = (map_of (content p))(k \<mapsto> v)"
  proof -
    have "map_of (take i (content p)) k = None"
      using i(2) by (metis (no_types) image_iff in_set_takeD map_of_eq_None_iff set_map)
    moreover have mp: "map_of (content p) = map_of (drop i (content p)) ++ map_of (take i (content p))"
      by (metis append_take_drop_id map_of_append)
    ultimately show ?thesis
      unfolding mp q(2) by (auto simp: map_add_def fun_eq_iff split: option.splits)
  qed
  ultimately show ?thesis using q by (simp add: take_map drop_map)
qed

end

interpretation sorted_slotted: sorted_container wf_page entries free_space_after_compaction entry_size
  insert_entry remove_entry lower_bound
proof unfold_locales
  fix p k assume "wf_page p" "sorted_wrt (<) (map fst (entries p))"
  then have "sorted_page p" by (simp add: sorted_page_def keys_def)
  then show "lower_bound p k =
      Some (length (takeWhile (\<lambda>x. x < k) (map fst (entries p))), k \<in> fst ` set (entries p))"
    using lower_bound_correct by (simp add: lower_bound_spec_def keys_def)
qed

text \<open>C12: search and insertion make the page a sorted map. When the search reports a key absent at a
  position and the entry is inserted there, the keys still ascend and the page, read as a map from
  keys to values, is the old map with the new binding.\<close>

theorem insert_at_lower_bound_updates_map:
  assumes "sorted_page p" "lower_bound p key = Some (i, False)" "insert_entry i key val p = Some q"
  shows "sorted_page q \<and> map_of (entries q) = (map_of (entries p))(key \<mapsto> val)"
  using sorted_slotted.insert_found_position [of p key i val q] assms
  by (simp add: sorted_page_def keys_def)

theorem insert_at_lower_bound_updates_map_witness:
  "\<exists>p q. sorted_page p \<and> lower_bound p [1, 2] = Some (0, False) \<and>
    insert_entry 0 [1, 2] [3] p = Some q \<and> map_of (entries q) [1, 2] = Some [3]"
proof -
  let ?p = "init (replicate PAGE_SIZE 0)"
  note fresh = fresh_page_room
  have s: "sorted_page ?p" using fresh by (simp add: sorted_page_def keys_def)
  have "can_insert (length [1 :: byte, 2]) (length [3 :: byte]) ?p"
    using fresh(4) [of 2 1] by (simp add: numeral_2_eq_2)
  then obtain q where q: "insert_entry 0 [1, 2] [3] ?p = Some q"
    using insert_entry_correct [OF fresh(1), of 0 "[1, 2]" "[3]"] by auto
  have lb: "lower_bound ?p [1, 2] = Some (0, False)"
    using lower_bound_correct [OF s, of "[1, 2]"] fresh(3) by (simp add: lower_bound_spec_def keys_def)
  from insert_at_lower_bound_updates_map [OF s lb q] s lb q show ?thesis by auto
qed

end
