(* ===== verification/Wal_Format.thy ===== *)
theory Wal_Format
  imports Frame_Kernel "HOL-Library.Log_Nat"
begin

text \<open>
  The on-disk layout of the write-ahead log, \<open>crates/wal/src/format.rs\<close>: the file header, the batch
  metadata page with its entry table, and the sizes of the append buffers. The CRC-32 of the
  \<open>crc_fast\<close> package is the parameter \<open>crc\<close>, the value \<open>finalize\<close> returns after the given bytes
  have been fed to a fresh digest; nothing is assumed of it.
\<close>

section \<open>Constants\<close>

definition WAL_RECORD_SIZE :: nat where "WAL_RECORD_SIZE = PAGE_SIZE"
definition WAL_HEADER_SIZE :: nat where "WAL_HEADER_SIZE = WAL_RECORD_SIZE"
definition WAL_MAGIC :: nat where "WAL_MAGIC = 0x4257414C"
definition WAL_VERSION :: nat where "WAL_VERSION = 4"
definition WAL_FLAG_DIRECT_IO :: nat where "WAL_FLAG_DIRECT_IO = 1"

definition HDR_MAGIC_OFF :: nat where "HDR_MAGIC_OFF = 0"
definition HDR_VERSION_OFF :: nat where "HDR_VERSION_OFF = 4"
definition HDR_FLAGS_OFF :: nat where "HDR_FLAGS_OFF = 6"
definition HDR_RECORD_SIZE_OFF :: nat where "HDR_RECORD_SIZE_OFF = 8"

definition BATCH_META_MAGIC :: nat where "BATCH_META_MAGIC = 0x424D4554"
definition BATCH_META_MAGIC_OFF :: nat where "BATCH_META_MAGIC_OFF = 0"
definition BATCH_META_VERSION_OFF :: nat where "BATCH_META_VERSION_OFF = 4"
definition BATCH_META_COUNT_OFF :: nat where "BATCH_META_COUNT_OFF = 6"
definition BATCH_META_CRC_OFF :: nat where "BATCH_META_CRC_OFF = 8"
definition BATCH_META_HEADER_SIZE :: nat where "BATCH_META_HEADER_SIZE = 16"

definition BATCH_ENTRY_LSN_OFF :: nat where "BATCH_ENTRY_LSN_OFF = 0"
definition BATCH_ENTRY_ARG_OFF :: nat where "BATCH_ENTRY_ARG_OFF = 8"
definition BATCH_ENTRY_CRC_OFF :: nat where "BATCH_ENTRY_CRC_OFF = 16"
definition BATCH_ENTRY_LEN_OFF :: nat where "BATCH_ENTRY_LEN_OFF = 20"
definition BATCH_ENTRY_KIND_OFF :: nat where "BATCH_ENTRY_KIND_OFF = 24"
definition BATCH_ENTRY_FLAGS_OFF :: nat where "BATCH_ENTRY_FLAGS_OFF = 25"
definition BATCH_ENTRY_SIZE :: nat where "BATCH_ENTRY_SIZE = 28"
definition BATCH_MAX_RECORDS :: nat where
  "BATCH_MAX_RECORDS = (PAGE_SIZE - BATCH_META_HEADER_SIZE) div BATCH_ENTRY_SIZE"

definition RECORD_KIND_PAGE_IMAGE :: byte where "RECORD_KIND_PAGE_IMAGE = 1"
definition RECORD_KIND_LOGICAL :: byte where "RECORD_KIND_LOGICAL = 2"
definition RECORD_KIND_LOGICAL_PACKED :: byte where "RECORD_KIND_LOGICAL_PACKED = 3"
definition LOGICAL_FLAG_FIRST :: byte where "LOGICAL_FLAG_FIRST = 1"
definition LOGICAL_FLAG_LAST :: byte where "LOGICAL_FLAG_LAST = 2"
definition LOGICAL_CHUNK_MAX_LEN :: nat where "LOGICAL_CHUNK_MAX_LEN = PAGE_SIZE"
definition PACKED_LOGICAL_ENTRY_HEADER_LEN :: nat where "PACKED_LOGICAL_ENTRY_HEADER_LEN = 20"
definition PACKED_LOGICAL_MAX_PAYLOAD_LEN :: nat where
  "PACKED_LOGICAL_MAX_PAYLOAD_LEN = PAGE_SIZE - PACKED_LOGICAL_ENTRY_HEADER_LEN"

lemmas batch_layout =
  BATCH_META_MAGIC_OFF_def BATCH_META_VERSION_OFF_def BATCH_META_COUNT_OFF_def
  BATCH_META_CRC_OFF_def BATCH_META_HEADER_SIZE_def BATCH_ENTRY_LSN_OFF_def BATCH_ENTRY_ARG_OFF_def
  BATCH_ENTRY_CRC_OFF_def BATCH_ENTRY_LEN_OFF_def BATCH_ENTRY_KIND_OFF_def
  BATCH_ENTRY_FLAGS_OFF_def BATCH_ENTRY_SIZE_def

section \<open>Buffer capacity\<close>

definition next_power_of_two :: "nat \<Rightarrow> nat" where
  "next_power_of_two n = 2 ^ ceillog2 n"

definition WAL_BATCH_BYTES :: nat where
  "WAL_BATCH_BYTES = (BATCH_MAX_RECORDS + 1) * PAGE_SIZE"

definition WAL_BUF_CAPACITY :: nat where
  "WAL_BUF_CAPACITY = next_power_of_two WAL_BATCH_BYTES"

definition wal_buf_records :: "nat \<Rightarrow> nat" where
  "wal_buf_records capacity =
     (let full_batch_bytes = (BATCH_MAX_RECORDS + 1) * PAGE_SIZE;
          full_batches = capacity div full_batch_bytes;
          records = full_batches * BATCH_MAX_RECORDS;
          remaining = capacity - full_batches * full_batch_bytes in
      if remaining < 2 * PAGE_SIZE then records
      else
        let remaining = remaining - PAGE_SIZE;
            extra = remaining div PAGE_SIZE in
        records + (if extra > BATCH_MAX_RECORDS then BATCH_MAX_RECORDS else extra))"

definition WAL_BUF_RECORDS :: nat where
  "WAL_BUF_RECORDS = wal_buf_records WAL_BUF_CAPACITY"

definition wal_buffer_capacity_for_records :: "nat \<Rightarrow> nat" where
  "wal_buffer_capacity_for_records records =
     (let records = (if records < 1 then 1
                     else if records > WAL_BUF_RECORDS then WAL_BUF_RECORDS else records);
          batches = (records + BATCH_MAX_RECORDS - 1) div BATCH_MAX_RECORDS in
      (records + batches) * WAL_RECORD_SIZE)"

definition WAL_DEFAULT_BUFFER_RECORDS :: nat where
  "WAL_DEFAULT_BUFFER_RECORDS = (if 256 < WAL_BUF_RECORDS then 256 else WAL_BUF_RECORDS)"

section \<open>Checksums\<close>

type_synonym crc_fn = "bytes \<Rightarrow> u64"

definition payload_crc :: "crc_fn \<Rightarrow> bytes \<Rightarrow> u32" where
  "payload_crc crc payload = ucast (crc payload)"

definition page_crc :: "crc_fn \<Rightarrow> bytes \<Rightarrow> u32" where
  "page_crc crc page = payload_crc crc page"

definition batch_meta_crc :: "crc_fn \<Rightarrow> bytes \<Rightarrow> u32" where
  "batch_meta_crc crc buf =
     ucast (crc (take BATCH_META_CRC_OFF buf @ replicate 4 0 @ drop (BATCH_META_CRC_OFF + 4) buf))"

section \<open>Batch metadata\<close>

definition init_batch_meta :: "bytes \<Rightarrow> bytes option" where
  "init_batch_meta buf = do {
     ensure (length buf = PAGE_SIZE);
     let buf = replicate (length buf) 0;
     let buf = wr 4 BATCH_META_MAGIC_OFF BATCH_META_MAGIC buf;
     Some (wr 2 BATCH_META_VERSION_OFF WAL_VERSION buf) }"

definition batch_meta_count_unchecked :: "bytes \<Rightarrow> nat option" where
  "batch_meta_count_unchecked buf = do {
     ensure (length buf = PAGE_SIZE);
     ensure (rd 4 BATCH_META_MAGIC_OFF buf = BATCH_META_MAGIC);
     ensure (rd 2 BATCH_META_VERSION_OFF buf = WAL_VERSION);
     let count = rd 2 BATCH_META_COUNT_OFF buf;
     ensure (\<not> (count = 0 \<or> count > BATCH_MAX_RECORDS));
     Some count }"

definition batch_meta_count :: "crc_fn \<Rightarrow> bytes \<Rightarrow> nat option" where
  "batch_meta_count crc buf = do {
     count \<leftarrow> batch_meta_count_unchecked buf;
     ensure (rd 4 BATCH_META_CRC_OFF buf = unat (batch_meta_crc crc buf));
     Some count }"

definition set_batch_meta_count :: "nat \<Rightarrow> bytes \<Rightarrow> bytes option" where
  "set_batch_meta_count count buf = do {
     ensure (length buf = PAGE_SIZE);
     ensure (count \<le> BATCH_MAX_RECORDS);
     Some (wr 2 BATCH_META_COUNT_OFF count buf) }"

definition finalize_batch_meta :: "crc_fn \<Rightarrow> bytes \<Rightarrow> bytes option" where
  "finalize_batch_meta crc buf = do {
     ensure (length buf = PAGE_SIZE);
     Some (wr 4 BATCH_META_CRC_OFF (unat (batch_meta_crc crc buf)) buf) }"

definition batch_entry_offset :: "nat \<Rightarrow> nat option" where
  "batch_entry_offset idx = do {
     ensure (idx < BATCH_MAX_RECORDS);
     Some (BATCH_META_HEADER_SIZE + idx * BATCH_ENTRY_SIZE) }"

record BatchEntry =
  be_lsn :: Lsn
  be_arg :: u64
  be_crc :: u32
  be_len :: u32
  be_kind :: byte
  be_flags :: byte

definition page_image :: "Lsn \<Rightarrow> PageId \<Rightarrow> u32 \<Rightarrow> BatchEntry" where
  "page_image lsn pid crc = \<lparr> be_lsn = lsn, be_arg = pid, be_crc = crc,
     be_len = word_of_nat PAGE_SIZE, be_kind = RECORD_KIND_PAGE_IMAGE, be_flags = 0 \<rparr>"

definition logical_chunk :: "Lsn \<Rightarrow> u64 \<Rightarrow> u32 \<Rightarrow> byte \<Rightarrow> nat \<Rightarrow> BatchEntry" where
  "logical_chunk lsn logical_kind crc flags len = \<lparr> be_lsn = lsn, be_arg = logical_kind,
     be_crc = crc, be_len = word_of_nat len, be_kind = RECORD_KIND_LOGICAL, be_flags = flags \<rparr>"

definition packed_logical :: "Lsn \<Rightarrow> u32 \<Rightarrow> nat \<Rightarrow> BatchEntry" where
  "packed_logical max_lsn crc len = \<lparr> be_lsn = max_lsn, be_arg = 0, be_crc = crc,
     be_len = word_of_nat len, be_kind = RECORD_KIND_LOGICAL_PACKED, be_flags = 0 \<rparr>"

definition write_batch_entry :: "nat \<Rightarrow> BatchEntry \<Rightarrow> bytes \<Rightarrow> bytes option" where
  "write_batch_entry idx entry buf = do {
     ensure (length buf = PAGE_SIZE);
     off \<leftarrow> batch_entry_offset idx;
     let buf = wr 8 (off + BATCH_ENTRY_LSN_OFF) (unat (be_lsn entry)) buf;
     let buf = wr 8 (off + BATCH_ENTRY_ARG_OFF) (unat (be_arg entry)) buf;
     let buf = wr 4 (off + BATCH_ENTRY_CRC_OFF) (unat (be_crc entry)) buf;
     let buf = wr 4 (off + BATCH_ENTRY_LEN_OFF) (unat (be_len entry)) buf;
     let buf = buf[off + BATCH_ENTRY_KIND_OFF := be_kind entry];
     Some (buf[off + BATCH_ENTRY_FLAGS_OFF := be_flags entry]) }"

definition overwrite_batch_entry_lsn :: "nat \<Rightarrow> Lsn \<Rightarrow> bytes \<Rightarrow> bytes option" where
  "overwrite_batch_entry_lsn idx lsn buf = do {
     ensure (length buf = PAGE_SIZE);
     off \<leftarrow> batch_entry_offset idx;
     Some (wr 8 (off + BATCH_ENTRY_LSN_OFF) (unat lsn) buf) }"

definition overwrite_batch_entry_crc :: "nat \<Rightarrow> u32 \<Rightarrow> bytes \<Rightarrow> bytes option" where
  "overwrite_batch_entry_crc idx crc buf = do {
     ensure (length buf = PAGE_SIZE);
     off \<leftarrow> batch_entry_offset idx;
     Some (wr 4 (off + BATCH_ENTRY_CRC_OFF) (unat crc) buf) }"

definition read_batch_entry :: "bytes \<Rightarrow> nat \<Rightarrow> BatchEntry option" where
  "read_batch_entry buf idx = do {
     ensure (length buf = PAGE_SIZE);
     off \<leftarrow> batch_entry_offset idx;
     Some \<lparr> be_lsn = word_of_nat (rd 8 (off + BATCH_ENTRY_LSN_OFF) buf),
       be_arg = word_of_nat (rd 8 (off + BATCH_ENTRY_ARG_OFF) buf),
       be_crc = word_of_nat (rd 4 (off + BATCH_ENTRY_CRC_OFF) buf),
       be_len = word_of_nat (rd 4 (off + BATCH_ENTRY_LEN_OFF) buf),
       be_kind = buf ! (off + BATCH_ENTRY_KIND_OFF),
       be_flags = buf ! (off + BATCH_ENTRY_FLAGS_OFF) \<rparr> }"

section \<open>The file header\<close>

definition build_wal_header :: "bool \<Rightarrow> bytes" where
  "build_wal_header direct_io =
     (let hdr = replicate WAL_HEADER_SIZE 0;
          hdr = wr 4 HDR_MAGIC_OFF WAL_MAGIC hdr;
          hdr = wr 2 HDR_VERSION_OFF WAL_VERSION hdr;
          flags = (if direct_io then WAL_FLAG_DIRECT_IO else 0);
          hdr = wr 2 HDR_FLAGS_OFF flags hdr in
      wr 8 HDR_RECORD_SIZE_OFF WAL_RECORD_SIZE hdr)"

definition validate_wal_header :: "bytes \<Rightarrow> io_error + unit" where
  "validate_wal_header hdr =
     (if rd 4 HDR_MAGIC_OFF hdr \<noteq> WAL_MAGIC then Inl InvalidData
      else if rd 2 HDR_VERSION_OFF hdr \<noteq> WAL_VERSION then Inl InvalidData
      else if rd 8 HDR_RECORD_SIZE_OFF hdr \<noteq> WAL_RECORD_SIZE then Inl InvalidData
      else Inr ())"

section \<open>The entry table\<close>

lemma entry_fits: "idx < BATCH_MAX_RECORDS \<Longrightarrow> 16 + idx * 28 + 28 \<le> PAGE_SIZE"
  by (simp add: BATCH_MAX_RECORDS_def PAGE_SIZE_def batch_layout)

lemma entries_disjoint: "i \<noteq> j \<Longrightarrow> i * 28 + 28 \<le> j * 28 \<or> j * 28 + 28 \<le> i * (28 :: nat)"
  by linarith

text \<open>A change of a metadata page that only concerns the entry \<open>idx\<close>.\<close>

definition entry_changed :: "nat \<Rightarrow> bytes \<Rightarrow> bytes \<Rightarrow> bool" where
  "entry_changed idx buf buf' = (length buf' = PAGE_SIZE \<and> take 16 buf' = take 16 buf \<and>
     (\<forall>j. j \<noteq> idx \<longrightarrow> read_batch_entry buf' j = read_batch_entry buf j))"

lemma entry_changedI:
  assumes "length buf = PAGE_SIZE" "length buf' = PAGE_SIZE"
    and "\<And>x. x < 16 + idx * 28 \<or> 16 + idx * 28 + 28 \<le> x \<Longrightarrow> buf' ! x = buf ! x"
  shows "entry_changed idx buf buf'"
proof -
  have keep: "read_at off n buf' = read_at off n buf"
    if "off + n \<le> 16 + idx * 28 \<or> 16 + idx * 28 + 28 \<le> off" "off + n \<le> PAGE_SIZE" for off n
    using assms that by (intro read_at_ext) auto
  have "read_batch_entry buf' j = read_batch_entry buf j" if "j \<noteq> idx" for j
  proof (cases "j < BATCH_MAX_RECORDS")
    case True
    note f = entry_fits [OF True] and d = entries_disjoint [OF that]
    show ?thesis
      using assms True f d
      by (auto simp: read_batch_entry_def batch_entry_offset_def batch_layout rd_def keep)
  qed (simp add: read_batch_entry_def batch_entry_offset_def assms)
  moreover have "take 16 buf' = take 16 buf"
    by (rule nth_equalityI) (use assms in auto)
  ultimately show ?thesis using assms(2) by (simp add: entry_changed_def)
qed

lemma write_batch_entry_run:
  assumes "length buf = PAGE_SIZE" "idx < BATCH_MAX_RECORDS"
  shows "\<exists>buf'. write_batch_entry idx e buf = Some buf' \<and> read_batch_entry buf' idx = Some e \<and>
    entry_changed idx buf buf'"
proof -
  note f = entry_fits [OF assms(2)]
  obtain buf' where w: "write_batch_entry idx e buf = Some buf'"
    using assms by (simp add: write_batch_entry_def batch_entry_offset_def)
  have len: "length buf' = PAGE_SIZE"
    using w assms f by (auto simp: write_batch_entry_def batch_entry_offset_def batch_layout)
  have "buf' ! x = buf ! x" if "x < 16 + idx * 28 \<or> 16 + idx * 28 + 28 \<le> x" for x
    using w assms f that
    by (auto simp: write_batch_entry_def batch_entry_offset_def batch_layout nth_wr_outside
        nth_list_update)
  then have "entry_changed idx buf buf'" by (intro entry_changedI assms(1) len)
  moreover have "read_batch_entry buf' idx = Some e"
    using w assms f len unat_u64_less [of "be_lsn e"] unat_u64_less [of "be_arg e"]
      unat_u32_less [of "be_crc e"] unat_u32_less [of "be_len e"]
    by (cases e) (auto simp: write_batch_entry_def read_batch_entry_def batch_entry_offset_def
        batch_layout window_simps)
  ultimately show ?thesis using w by blast
qed

lemma overwrite_batch_entry_lsn_run:
  assumes "length buf = PAGE_SIZE" "read_batch_entry buf idx = Some e"
  shows "\<exists>buf'. overwrite_batch_entry_lsn idx lsn buf = Some buf' \<and>
    read_batch_entry buf' idx = Some (e\<lparr>be_lsn := lsn\<rparr>) \<and> entry_changed idx buf buf'"
proof -
  have idx: "idx < BATCH_MAX_RECORDS" using assms by (auto simp: read_batch_entry_def batch_entry_offset_def)
  note f = entry_fits [OF idx]
  let ?b = "wr 8 (16 + idx * 28) (unat lsn) buf"
  have "entry_changed idx buf ?b"
    using assms(1) f by (intro entry_changedI) (auto simp: nth_wr_outside)
  moreover have "read_batch_entry ?b idx = Some (e\<lparr>be_lsn := lsn\<rparr>)"
    using assms f idx unat_u64_less [of lsn]
    by (auto simp: read_batch_entry_def batch_entry_offset_def batch_layout window_simps nth_wr_outside)
  ultimately show ?thesis
    using assms(1) idx by (simp add: overwrite_batch_entry_lsn_def batch_entry_offset_def batch_layout)
qed

lemma overwrite_batch_entry_crc_run:
  assumes "length buf = PAGE_SIZE" "read_batch_entry buf idx = Some e"
  shows "\<exists>buf'. overwrite_batch_entry_crc idx crc buf = Some buf' \<and>
    read_batch_entry buf' idx = Some (e\<lparr>be_crc := crc\<rparr>) \<and> entry_changed idx buf buf'"
proof -
  have idx: "idx < BATCH_MAX_RECORDS" using assms by (auto simp: read_batch_entry_def batch_entry_offset_def)
  note f = entry_fits [OF idx]
  let ?b = "wr 4 (16 + idx * 28 + 16) (unat crc) buf"
  have "entry_changed idx buf ?b"
    using assms(1) f by (intro entry_changedI) (auto simp: nth_wr_outside)
  moreover have "read_batch_entry ?b idx = Some (e\<lparr>be_crc := crc\<rparr>)"
    using assms f idx unat_u32_less [of crc]
    by (auto simp: read_batch_entry_def batch_entry_offset_def batch_layout window_simps nth_wr_outside)
  ultimately show ?thesis
    using assms(1) idx by (simp add: overwrite_batch_entry_crc_def batch_entry_offset_def batch_layout)
qed

section \<open>The page header of a batch\<close>

lemma meta_count_cong:
  assumes "length buf = PAGE_SIZE" "length buf' = PAGE_SIZE" "take 8 buf' = take 8 buf"
  shows "batch_meta_count_unchecked buf' = batch_meta_count_unchecked buf"
  using assms rd_take_cong [OF assms(3), of 0 4] rd_take_cong [OF assms(3), of 4 2]
    rd_take_cong [OF assms(3), of 6 2]
  by (simp add: batch_meta_count_unchecked_def batch_layout)

lemma entry_changed_count:
  "length buf = PAGE_SIZE \<Longrightarrow> entry_changed idx buf buf' \<Longrightarrow>
    batch_meta_count_unchecked buf' = batch_meta_count_unchecked buf"
proof (rule meta_count_cong)
  assume "entry_changed idx buf buf'"
  then have "take 8 (take 16 buf') = take 8 (take 16 buf)" by (simp add: entry_changed_def)
  then show "take 8 buf' = take 8 buf" by (simp add: min_def)
qed (auto simp: entry_changed_def)

lemma set_batch_meta_count_run:
  assumes "length buf = PAGE_SIZE" "rd 4 0 buf = BATCH_META_MAGIC" "rd 2 4 buf = WAL_VERSION"
    and "0 < count" "count \<le> BATCH_MAX_RECORDS"
  shows "\<exists>buf'. set_batch_meta_count count buf = Some buf' \<and> length buf' = PAGE_SIZE \<and>
    batch_meta_count_unchecked buf' = Some count \<and>
    (\<forall>j. read_batch_entry buf' j = read_batch_entry buf j)"
proof -
  let ?b = "wr 2 6 count buf"
  have c: "count < 65536" using assms(5) by (simp add: BATCH_MAX_RECORDS_def PAGE_SIZE_def batch_layout)
  have p: "(8 :: nat) \<le> PAGE_SIZE" by (simp add: PAGE_SIZE_def)
  have "batch_meta_count_unchecked ?b = Some count"
    using assms c p by (simp add: batch_meta_count_unchecked_def batch_layout window_simps)
  moreover have "read_batch_entry ?b j = read_batch_entry buf j" for j
  proof (cases "j < BATCH_MAX_RECORDS")
    case True
    then show ?thesis
      using assms(1) p
      by (simp add: read_batch_entry_def batch_entry_offset_def batch_layout window_simps nth_wr_outside)
  qed (simp add: read_batch_entry_def batch_entry_offset_def)
  ultimately show ?thesis using assms(1,5) p by (simp add: set_batch_meta_count_def batch_layout)
qed

lemma init_batch_meta_run:
  assumes "length buf = PAGE_SIZE"
  shows "\<exists>buf'. init_batch_meta buf = Some buf' \<and> length buf' = PAGE_SIZE \<and>
    rd 4 0 buf' = BATCH_META_MAGIC \<and> rd 2 4 buf' = WAL_VERSION"
  using assms by (simp add: init_batch_meta_def batch_layout window_simps PAGE_SIZE_def
      BATCH_META_MAGIC_def WAL_VERSION_def)

lemma finalize_batch_meta_run:
  assumes "length buf = PAGE_SIZE"
  shows "\<exists>buf'. finalize_batch_meta crc buf = Some buf' \<and> length buf' = PAGE_SIZE \<and>
    batch_meta_count crc buf' = batch_meta_count_unchecked buf \<and>
    (\<forall>j. read_batch_entry buf' j = read_batch_entry buf j)"
proof -
  let ?b = "wr 4 8 (unat (batch_meta_crc crc buf)) buf"
  have p: "(16 :: nat) \<le> length buf" using assms by (simp add: PAGE_SIZE_def)
  have len: "length ?b = PAGE_SIZE" using assms p by simp
  have "take 8 ?b = take 8 buf" "drop 12 ?b = drop 12 buf" using p by (simp_all add: take_wr drop_wr)
  then have c: "batch_meta_crc crc ?b = batch_meta_crc crc buf"
    and n: "batch_meta_count_unchecked ?b = batch_meta_count_unchecked buf"
    using assms len by (auto simp: batch_meta_crc_def batch_layout intro: meta_count_cong)
  have "rd 4 8 ?b = unat (batch_meta_crc crc buf)"
    using p unat_u32_less [of "batch_meta_crc crc buf"] by (simp add: rd_wr_same)
  then have "batch_meta_count crc ?b = batch_meta_count_unchecked buf"
    using c n by (cases "batch_meta_count_unchecked buf") (simp_all add: batch_meta_count_def batch_layout)
  moreover have "read_batch_entry ?b j = read_batch_entry buf j" for j
  proof (cases "j < BATCH_MAX_RECORDS")
    case True
    then show ?thesis
      using assms p entry_fits [OF True]
      by (simp add: read_batch_entry_def batch_entry_offset_def batch_layout window_simps nth_wr_outside)
  qed (simp add: read_batch_entry_def batch_entry_offset_def)
  ultimately show ?thesis using assms len by (simp add: finalize_batch_meta_def batch_layout)
qed

section \<open>The size of a buffer\<close>

lemma batch_max: "BATCH_MAX_RECORDS = 2340"
  by (simp add: BATCH_MAX_RECORDS_def batch_layout PAGE_SIZE_def)

lemma wal_buf_records_pages:
  "wal_buf_records (p * PAGE_SIZE) = p div 2341 * 2340 + (p mod 2341 - 1)"
proof -
  have P: "0 < PAGE_SIZE" by (simp add: PAGE_SIZE_def)
  have d: "p * PAGE_SIZE div (2341 * PAGE_SIZE) = p div 2341" using P by simp
  have r: "p * PAGE_SIZE - p div 2341 * (2341 * PAGE_SIZE) = p mod 2341 * PAGE_SIZE"
    by (simp add: minus_div_mult_eq_mod [symmetric] diff_mult_distrib)
  have e: "(p mod 2341 * PAGE_SIZE - PAGE_SIZE) div PAGE_SIZE = p mod 2341 - 1"
    using P by (metis One_nat_def diff_mult_distrib mult_1 nonzero_mult_div_cancel_right less_not_refl)
  have "p mod 2341 < 2341" by simp
  then have "p mod 2341 - 1 \<le> 2340" by linarith
  then show ?thesis using P by (auto simp: wal_buf_records_def batch_max d r e Let_def)
qed

lemma wal_buf_constants: "WAL_BUF_CAPACITY = 4096 * PAGE_SIZE" "WAL_BUF_RECORDS = 4094"
proof -
  have "ceillog2 WAL_BATCH_BYTES = 28"
    by (rule ceillog2_eqI) (simp_all add: WAL_BATCH_BYTES_def batch_max PAGE_SIZE_def)
  then show c: "WAL_BUF_CAPACITY = 4096 * PAGE_SIZE"
    by (simp add: WAL_BUF_CAPACITY_def next_power_of_two_def PAGE_SIZE_def)
  show "WAL_BUF_RECORDS = 4094" unfolding WAL_BUF_RECORDS_def c wal_buf_records_pages by simp
qed

lemma capacity_pages:
  "wal_buffer_capacity_for_records n =
    (let r = max 1 (min n 4094) in (r + (r + 2339) div 2340) * PAGE_SIZE)"
  by (auto simp: wal_buffer_capacity_for_records_def wal_buf_constants batch_max WAL_RECORD_SIZE_def Let_def
      max_def min_def)

text \<open>C24: the size of an append buffer. The buffer that is allocated for a number of records takes
  exactly that many, clamped to between one and \<open>WAL_BUF_RECORDS\<close>, in whole blocks of the log; it has
  room for a batch of one record and is never larger than \<open>WAL_BUF_CAPACITY\<close>.\<close>

theorem wal_buffer_capacity_exact:
  "wal_buf_records (wal_buffer_capacity_for_records n) = max 1 (min n WAL_BUF_RECORDS) \<and>
    2 * PAGE_SIZE \<le> wal_buffer_capacity_for_records n \<and>
    wal_buffer_capacity_for_records n \<le> WAL_BUF_CAPACITY \<and>
    wal_buffer_capacity_for_records n mod WAL_RECORD_SIZE = 0"
proof -
  define r where "r = max 1 (min n 4094)"
  define p where "p = r + (r + 2339) div 2340"
  have c: "wal_buffer_capacity_for_records n = p * PAGE_SIZE"
    by (simp add: capacity_pages Let_def p_def r_def)
  have r: "1 \<le> r" "r \<le> 4094" by (simp_all add: r_def)
  consider "r < 2340" | "r = 2340" | "2340 < r" by linarith
  then have "p div 2341 * 2340 + (p mod 2341 - 1) = r \<and> 2 \<le> p \<and> p \<le> 4096"
  proof cases
    case 1
    then have "(r + 2339) div 2340 = 1" using r by (intro div_nat_eqI) simp_all
    then show ?thesis using 1 r by (simp add: p_def)
  next
    case 2
    then show ?thesis by (simp add: p_def)
  next
    case 3
    then have "(r + 2339) div 2340 = 2" using r by (intro div_nat_eqI) simp_all
    then have p: "p = r + 2" by (simp add: p_def)
    have "p div 2341 = 1" unfolding p using 3 r by (intro div_nat_eqI) simp_all
    moreover have "p mod 2341 = p - 2341" using calculation by (simp add: minus_div_mult_eq_mod [symmetric])
    ultimately show ?thesis using 3 r p by simp
  qed
  then show ?thesis
    unfolding c wal_buf_records_pages wal_buf_constants
    by (auto simp: r_def WAL_RECORD_SIZE_def intro!: mult_le_mono1)
qed

end
