(* ===== verification/Wal_Records.thy ===== *)
theory Wal_Records
  imports Wal_Format Page_Mutation
begin

text \<open>
  The payloads of log records, \<open>crates/wal/src/wal_impl.rs\<close>: packed logical records, page images as
  bytes, page patches, the validation of an entry against its data page, and the handle of a
  buffered record. A callback that is run on every decoded record is the list of the records it is
  given, in order.
\<close>

definition LOGICAL_KIND_PAGE_IMAGE_BYTES :: u64 where
  "LOGICAL_KIND_PAGE_IMAGE_BYTES = 0x425850494D470001"
definition LOGICAL_KIND_PAGE_PATCH :: u64 where
  "LOGICAL_KIND_PAGE_PATCH = 0x4258504154430001"
definition PAGE_IMAGE_BYTES_HEADER_LEN :: nat where "PAGE_IMAGE_BYTES_HEADER_LEN = 16"
definition PAGE_PATCH_HEADER_LEN :: nat where "PAGE_PATCH_HEADER_LEN = 16"
definition PAGE_PATCH_RANGE_HEADER_LEN :: nat where "PAGE_PATCH_RANGE_HEADER_LEN = 8"

definition is_internal_logical_kind :: "u64 \<Rightarrow> bool" where
  "is_internal_logical_kind kind =
     (kind = LOGICAL_KIND_PAGE_IMAGE_BYTES \<or> kind = LOGICAL_KIND_PAGE_PATCH)"

definition validate_caller_logical_kind :: "u64 \<Rightarrow> io_error + unit" where
  "validate_caller_logical_kind kind =
     (if is_internal_logical_kind kind then Inl InvalidInput else Inr ())"

section \<open>Record handles and chunks\<close>

definition encode_record_offset :: "nat \<Rightarrow> nat \<Rightarrow> u32 option" where
  "encode_record_offset meta_offset slot_idx = do {
     ensure (meta_offset mod WAL_RECORD_SIZE = 0);
     ensure (slot_idx < BATCH_MAX_RECORDS);
     let meta_page = meta_offset div WAL_RECORD_SIZE;
     Some (push_bit 8 (word_of_nat meta_page) OR word_of_nat slot_idx) }"

definition decode_record_offset :: "u32 \<Rightarrow> nat \<times> nat" where
  "decode_record_offset off =
     (let slot_idx = unat (off AND 0xff); meta_page = unat (drop_bit 8 off) in
      (meta_page * WAL_RECORD_SIZE, slot_idx))"

definition chunk_count :: "nat \<Rightarrow> nat" where
  "chunk_count payload_len =
     max ((payload_len + LOGICAL_CHUNK_MAX_LEN - 1) div LOGICAL_CHUNK_MAX_LEN) 1"

section \<open>Validation of an entry\<close>

text \<open>The data page is the slice the entry describes; the result is the payload inside it.\<close>

definition validate_entry_data :: "crc_fn \<Rightarrow> BatchEntry \<Rightarrow> bytes \<Rightarrow> bytes option" where
  "validate_entry_data crc entry data =
     (if be_kind entry = RECORD_KIND_PAGE_IMAGE then do {
        ensure (\<not> (be_flags entry \<noteq> 0 \<or> length data \<noteq> PAGE_SIZE));
        ensure (page_crc crc data = be_crc entry);
        Some data }
      else if be_kind entry = RECORD_KIND_LOGICAL then do {
        let len = unat (be_len entry);
        ensure (\<not> (len > LOGICAL_CHUNK_MAX_LEN \<or> len > length data));
        let allowed_flags = LOGICAL_FLAG_FIRST OR LOGICAL_FLAG_LAST;
        ensure (be_flags entry AND NOT allowed_flags = 0);
        let payload = take len data;
        ensure (payload_crc crc payload = be_crc entry);
        Some payload }
      else if be_kind entry = RECORD_KIND_LOGICAL_PACKED then do {
        let len = unat (be_len entry);
        ensure (\<not> (be_flags entry \<noteq> 0 \<or> len > length data));
        let payload = take len data;
        ensure (payload_crc crc payload = be_crc entry);
        Some payload }
      else None)"

section \<open>Packed logical records\<close>

definition packed_logical_entry_len :: "nat \<Rightarrow> nat option" where
  "packed_logical_entry_len payload_len = checked_add PACKED_LOGICAL_ENTRY_HEADER_LEN payload_len"

text \<open>The destination slice and the number of bytes written, or nothing when the record does not
  fit.\<close>

definition encode_packed_logical_entry ::
    "bytes \<Rightarrow> Lsn \<Rightarrow> u64 \<Rightarrow> bytes \<Rightarrow> (bytes \<times> nat) option" where
  "encode_packed_logical_entry dst lsn kind payload = do {
     ensure (length payload < 2 ^ 32);
     entry_len \<leftarrow> packed_logical_entry_len (length payload);
     ensure (entry_len \<le> length dst);
     let dst = wr 8 0 (unat lsn) dst;
     let dst = wr 8 8 (unat kind) dst;
     let dst = wr 4 16 (length payload) dst;
     Some (write_at PACKED_LOGICAL_ENTRY_HEADER_LEN payload dst, entry_len) }"

text \<open>The loop over a packed page: the records delivered before it stops, and whether it reached
  the end of the payload.\<close>

function packed_loop :: "bytes \<Rightarrow> nat \<Rightarrow> (Lsn \<times> u64 \<times> bytes) list \<times> bool" where
  "packed_loop payload offset =
     (if \<not> offset < length payload then ([], True)
      else if \<not> offset + PACKED_LOGICAL_ENTRY_HEADER_LEN \<le> length payload then ([], False)
      else
        let lsn = word_of_nat (rd 8 offset payload);
            kind = word_of_nat (rd 8 (offset + 8) payload);
            len = rd 4 (offset + 16) payload;
            payload_start = offset + PACKED_LOGICAL_ENTRY_HEADER_LEN;
            payload_end = payload_start + len in
        if \<not> payload_end \<le> length payload then ([], False)
        else
          let record_payload = read_at payload_start len payload;
              (records, ok) = packed_loop payload payload_end in
          ((lsn, kind, record_payload) # records, ok))"
  by auto
termination
  by (relation "measure (\<lambda>(payload, offset). length payload - offset)")
    (auto simp: PACKED_LOGICAL_ENTRY_HEADER_LEN_def)

definition for_each_packed_logical_record :: "bytes \<Rightarrow> (Lsn \<times> u64 \<times> bytes) list \<times> bool" where
  "for_each_packed_logical_record payload = packed_loop payload 0"

section \<open>Page images as bytes\<close>

definition encode_page_image_bytes_payload :: "PageId \<Rightarrow> nat \<Rightarrow> bytes \<Rightarrow> bytes option" where
  "encode_page_image_bytes_payload page_id page_len page = do {
     ensure (page_len = page_size page_id);
     ensure (length page = page_len);
     Some (le_bytes 8 (unat page_id) @ le_bytes 8 page_len @ page) }"

definition decode_page_image_bytes_payload :: "bytes \<Rightarrow> (PageId \<times> bytes) option" where
  "decode_page_image_bytes_payload payload = do {
     ensure (\<not> length payload < PAGE_IMAGE_BYTES_HEADER_LEN);
     let page_id = word_of_nat (rd 8 0 payload);
     let page_len = rd 8 8 payload;
     let page = drop PAGE_IMAGE_BYTES_HEADER_LEN payload;
     ensure (\<not> (length page \<noteq> page_len \<or> page_len \<noteq> page_size page_id));
     Some (page_id, page) }"

section \<open>Page patches\<close>

text \<open>The scan for maximal runs of changed bytes: \<open>start\<close> is the start of the run the scan is in.\<close>

fun changed_ranges_loop ::
    "bytes \<Rightarrow> bytes \<Rightarrow> nat \<Rightarrow> nat option \<Rightarrow> (nat \<times> nat) list" where
  "changed_ranges_loop (b # before) (a # after) offset None =
     changed_ranges_loop before after (offset + 1) (if b = a then None else Some offset)"
| "changed_ranges_loop (b # before) (a # after) offset (Some start) =
     (if b = a then (start, offset - start) # changed_ranges_loop before after (offset + 1) None
      else changed_ranges_loop before after (offset + 1) (Some start))"
| "changed_ranges_loop _ _ offset None = []"
| "changed_ranges_loop _ _ offset (Some start) = [(start, offset - start)]"

text \<open>The validation of the ranges and the length of the payload.\<close>

fun patch_len_loop :: "(nat \<times> bytes) list \<Rightarrow> nat \<Rightarrow> nat \<Rightarrow> nat option" where
  "patch_len_loop [] payload_len previous_end = Some payload_len"
| "patch_len_loop ((start, data) # ranges) payload_len previous_end = do {
     ensure (\<not> (data = [] \<or> start < previous_end));
     end \<leftarrow> checked_add start (length data);
     ensure (\<not> end > PAGE_SIZE);
     payload_len \<leftarrow> checked_add payload_len PAGE_PATCH_RANGE_HEADER_LEN;
     payload_len \<leftarrow> checked_add payload_len (length data);
     patch_len_loop ranges payload_len end }"

fun patch_range_bytes :: "(nat \<times> bytes) list \<Rightarrow> bytes option" where
  "patch_range_bytes [] = Some []"
| "patch_range_bytes ((start, data) # ranges) = do {
     ensure (start < 2 ^ 32);
     ensure (length data < 2 ^ 32);
     rest \<leftarrow> patch_range_bytes ranges;
     Some (le_bytes 4 start @ le_bytes 4 (length data) @ data @ rest) }"

definition encode_page_patch_ranges_payload :: "PageId \<Rightarrow> (nat \<times> bytes) list \<Rightarrow> bytes option" where
  "encode_page_patch_ranges_payload page_id ranges = do {
     ensure (\<not> (page_size page_id \<noteq> PAGE_SIZE \<or> ranges = []));
     payload_len \<leftarrow> patch_len_loop ranges PAGE_PATCH_HEADER_LEN 0;
     ensure (\<not> payload_len \<ge> PAGE_SIZE);
     ensure (length ranges < 2 ^ 32);
     body \<leftarrow> patch_range_bytes ranges;
     Some (le_bytes 8 (unat page_id) @ le_bytes 4 (length ranges) @ le_bytes 4 0 @ body) }"

definition encode_page_patch_payload :: "PageId \<Rightarrow> bytes \<Rightarrow> bytes \<Rightarrow> bytes option" where
  "encode_page_patch_payload page_id before after =
     encode_page_patch_ranges_payload page_id
       (map (\<lambda>(start, len). (start, read_at start len after))
         (changed_ranges_loop before after 0 None))"

fun decode_patch_loop :: "bytes \<Rightarrow> nat \<Rightarrow> nat \<Rightarrow> ((nat \<times> bytes) list \<times> nat) option" where
  "decode_patch_loop payload offset 0 = Some ([], offset)"
| "decode_patch_loop payload offset (Suc range_count) = do {
     ensure (offset + PAGE_PATCH_RANGE_HEADER_LEN \<le> length payload);
     let start = rd 4 offset payload;
     let len = rd 4 (offset + 4) payload;
     let offset = offset + PAGE_PATCH_RANGE_HEADER_LEN;
     end \<leftarrow> checked_add start len;
     ensure (\<not> end > PAGE_SIZE);
     ensure (offset + len \<le> length payload);
     let data = read_at offset len payload;
     (ranges, offset) \<leftarrow> decode_patch_loop payload (offset + len) range_count;
     Some ((start, data) # ranges, offset) }"

definition decode_page_patch_payload :: "bytes \<Rightarrow> (PageId \<times> (nat \<times> bytes) list) option" where
  "decode_page_patch_payload payload = do {
     ensure (\<not> length payload < PAGE_PATCH_HEADER_LEN);
     let page_id = word_of_nat (rd 8 0 payload);
     ensure (\<not> page_size page_id \<noteq> PAGE_SIZE);
     let range_count = rd 4 8 payload;
     (ranges, offset) \<leftarrow> decode_patch_loop payload PAGE_PATCH_HEADER_LEN range_count;
     ensure (offset = length payload);
     Some (page_id, ranges) }"

text \<open>The loop that replays a patch: each range is copied into the page, in order.\<close>

fun apply_ranges :: "(nat \<times> bytes) list \<Rightarrow> bytes \<Rightarrow> bytes option" where
  "apply_ranges [] page = Some page"
| "apply_ranges ((start, data) # rs) page = do {
     ensure (start + length data \<le> length page);
     apply_ranges rs (write_at start data page) }"


section \<open>Packed records round-trip\<close>

declare packed_loop.simps [simp del]

fun packed_bytes :: "Lsn \<times> u64 \<times> bytes \<Rightarrow> bytes" where
  "packed_bytes (lsn, kind, payload) =
     le_bytes 8 (unat lsn) @ le_bytes 8 (unat kind) @ le_bytes 4 (length payload) @ payload"

lemma length_packed_bytes [simp]: "length (packed_bytes r) = 20 + length (snd (snd r))"
  by (cases r) simp

lemma encode_packed_run:
  assumes "20 + length payload \<le> length dst" "length dst < 2 ^ 32"
  shows "encode_packed_logical_entry dst lsn kind payload =
    Some (write_at 0 (packed_bytes (lsn, kind, payload)) dst, 20 + length payload)"
  using assms
  by (simp add: encode_packed_logical_entry_def packed_logical_entry_len_def checked_add_def
      PACKED_LOGICAL_ENTRY_HEADER_LEN_def wr_def write_at_def take_append)

lemma read_at_prefix: "read_at (length pre) n (pre @ xs) = take n xs"
  by (simp add: read_at_def)

lemma read_at_prefix_plus: "read_at (length pre + k) n (pre @ xs) = read_at k n xs"
  by (simp add: read_at_def)

lemma rd_prefix: "rd n (length pre) (pre @ le_bytes n v @ xs) = v mod 256 ^ n"
  by (simp add: rd_def read_at_prefix le_val_le_bytes)

lemma packed_loop_step:
  assumes "length payload < 2 ^ 32"
  shows "packed_loop (pre @ packed_bytes (lsn, kind, payload) @ rest) (length pre) =
    (let (records, ok) = packed_loop (pre @ packed_bytes (lsn, kind, payload) @ rest)
       (length pre + (20 + length payload)) in ((lsn, kind, payload) # records, ok))"
proof -
  let ?p = "pre @ packed_bytes (lsn, kind, payload) @ rest" and ?o = "length pre"
  have rds: "rd 8 ?o ?p = unat lsn" "rd 8 (?o + 8) ?p = unat kind" "rd 4 (?o + 16) ?p = length payload"
    "read_at (?o + 20) (length payload) ?p = payload"
    using unat_u64_less [of lsn] unat_u64_less [of kind] assms
    by (simp_all add: rd_def read_at_prefix read_at_prefix_plus read_at_def le_val_le_bytes_id)
  show ?thesis
    by (subst packed_loop.simps) (simp add: rds PACKED_LOGICAL_ENTRY_HEADER_LEN_def Let_def add.assoc del: packed_bytes.simps)
qed

lemma packed_loop_concat:
  assumes "\<forall>r \<in> set rs. length (snd (snd r)) < 2 ^ 32"
  shows "packed_loop (pre @ concat (map packed_bytes rs)) (length pre) = (rs, True)"
  using assms
proof (induction rs arbitrary: pre)
  case Nil
  then show ?case by (simp add: packed_loop.simps)
next
  case (Cons r rs)
  obtain lsn kind payload where r: "r = (lsn, kind, payload)" by (cases r)
  have "packed_loop ((pre @ packed_bytes r) @ concat (map packed_bytes rs)) (length (pre @ packed_bytes r)) =
      (rs, True)"
    by (rule Cons.IH) (use Cons.prems in auto)
  then show ?case
    using packed_loop_step [of payload pre lsn kind "concat (map packed_bytes rs)"] Cons.prems
    unfolding r by simp
qed

lemma for_each_packed:
  assumes "\<forall>r \<in> set rs. length (snd (snd r)) < 2 ^ 32"
  shows "for_each_packed_logical_record (concat (map packed_bytes rs)) = (rs, True)"
  using packed_loop_concat [OF assms, of "[]"] by (simp add: for_each_packed_logical_record_def)

section \<open>Page images round-trip\<close>

lemma page_image_bytes_codec:
  assumes "encode_page_image_bytes_payload pid n page = Some payload"
  shows "decode_page_image_bytes_payload payload = Some (pid, page)"
    "length payload = 16 + PAGE_SIZE"
proof -
  have p: "payload = le_bytes 8 (unat pid) @ le_bytes 8 n @ page" "n = PAGE_SIZE" "length page = PAGE_SIZE"
    using assms by (auto simp: encode_page_image_bytes_payload_def page_size_def)
  have "rd 8 0 payload = unat pid" "rd 8 8 payload = PAGE_SIZE"
    using unat_u64_less [of pid] p
    by (simp_all add: rd_def read_at_def le_val_le_bytes_id PAGE_SIZE_def)
  then show "decode_page_image_bytes_payload payload = Some (pid, page)"
    using p by (simp add: decode_page_image_bytes_payload_def PAGE_IMAGE_BYTES_HEADER_LEN_def page_size_def)
  show "length payload = 16 + PAGE_SIZE" using p by simp
qed

section \<open>Patches round-trip\<close>

lemma patch_len_loop_bounds:
  "patch_len_loop ranges n e = Some m \<Longrightarrow>
    \<forall>(start, data) \<in> set ranges. data \<noteq> [] \<and> start + length data \<le> PAGE_SIZE"
  by (induction ranges n e rule: patch_len_loop.induct)
    (auto simp: bind_eq_Some_conv checked_add_def split: if_splits)

fun range_bytes :: "nat \<times> bytes \<Rightarrow> bytes" where
  "range_bytes (start, data) = le_bytes 4 start @ le_bytes 4 (length data) @ data"

lemma patch_range_bytes_eq:
  "\<forall>(start, data) \<in> set ranges. start < 2 ^ 32 \<and> length data < 2 ^ 32 \<Longrightarrow>
    patch_range_bytes ranges = Some (concat (map range_bytes ranges))"
  by (induction ranges rule: patch_range_bytes.induct) auto

lemma decode_patch_loop_concat:
  assumes "\<forall>(start, data) \<in> set ranges. start + length data \<le> PAGE_SIZE"
  shows "decode_patch_loop (pre @ concat (map range_bytes ranges) @ post) (length pre) (length ranges) =
    Some (ranges, length pre + length (concat (map range_bytes ranges)))"
  using assms
proof (induction ranges arbitrary: pre)
  case (Cons r ranges)
  obtain start data where r: "r = (start, data)" by (cases r)
  let ?rest = "concat (map range_bytes ranges)" and ?pre = "pre @ range_bytes r"
  let ?p = "pre @ range_bytes r @ ?rest @ post"
  have b: "start + length data \<le> PAGE_SIZE" using Cons.prems r by auto
  have rds: "rd 4 (length pre) ?p = start" "rd 4 (length pre + 4) ?p = length data"
    "read_at (length pre + 8) (length data) ?p = data"
    using b by (simp_all add: r rd_def read_at_prefix read_at_prefix_plus read_at_def
        le_val_le_bytes_id PAGE_SIZE_def)
  have "decode_patch_loop (?pre @ ?rest @ post) (length ?pre) (length ranges) =
      Some (ranges, length ?pre + length ?rest)"
    by (rule Cons.IH) (use Cons.prems in auto)
  then have ih: "decode_patch_loop ?p (length pre + 8 + length data) (length ranges) =
      Some (ranges, length pre + 8 + length data + length ?rest)"
    by (simp add: r add.assoc)
  show ?case
    using rds b ih
    by (simp add: r Let_def PAGE_PATCH_RANGE_HEADER_LEN_def checked_add_def PAGE_SIZE_def)
qed simp

lemma page_patch_codec:
  assumes "encode_page_patch_ranges_payload pid ranges = Some payload"
  shows "decode_page_patch_payload payload = Some (pid, ranges)"
proof -
  let ?body = "concat (map range_bytes ranges)"
  obtain n where n: "patch_len_loop ranges PAGE_PATCH_HEADER_LEN 0 = Some n" "length ranges < 2 ^ 32"
    using assms by (auto simp: encode_page_patch_ranges_payload_def bind_eq_Some_conv)
  note b = patch_len_loop_bounds [OF n(1)]
  have "\<forall>(start, data) \<in> set ranges. start < 2 ^ 32 \<and> length data < 2 ^ 32"
    using b by (force simp: PAGE_SIZE_def)
  note body = patch_range_bytes_eq [OF this]
  define hdr where "hdr = le_bytes 8 (unat pid) @ le_bytes 4 (length ranges) @ le_bytes 4 0"
  have p: "payload = hdr @ ?body @ []"
    using assms n body by (auto simp: encode_page_patch_ranges_payload_def bind_eq_Some_conv hdr_def)
  have "length hdr = 16" by (simp add: hdr_def)
  moreover have "rd 8 0 payload = unat pid" "rd 4 8 payload = length ranges"
    using unat_u64_less [of pid] n(2)
    by (simp_all add: p hdr_def rd_def read_at_def le_val_le_bytes_id)
  moreover have "decode_patch_loop (hdr @ ?body @ []) (length hdr) (length ranges) =
      Some (ranges, length hdr + length ?body)"
    using b by (intro decode_patch_loop_concat) auto
  ultimately show ?thesis
    using p by (simp add: decode_page_patch_payload_def PAGE_PATCH_HEADER_LEN_def page_size_def)
qed

section \<open>Replaying a patch\<close>

lemma apply_ranges_copy:
  assumes "length src = length page" "\<forall>r \<in> set rs. fst r \<le> snd r \<and> snd r \<le> length page"
  shows "\<exists>q. apply_ranges (map (\<lambda>(start, end). (start, read_at start (end - start) src)) rs) page = Some q \<and>
    length q = length page \<and> (\<forall>x. q ! x = (if x \<in> covered rs then src ! x else page ! x))"
  using assms
proof (induction rs arbitrary: page)
  case (Cons r rs)
  obtain start "end" where r: "r = (start, end)" by (cases r)
  let ?w = "write_at start (read_at start (end - start) src) page"
  have b: "start \<le> end" "end \<le> length page" using Cons.prems(2) r by auto
  have w: "length ?w = length page" "?w ! x = (if start \<le> x \<and> x < end then src ! x else page ! x)" for x
    using b Cons.prems(1) by (auto simp: nth_write_at)
  obtain q where "apply_ranges (map (\<lambda>(start, end). (start, read_at start (end - start) src)) rs) ?w = Some q"
    "length q = length ?w" "\<forall>x. q ! x = (if x \<in> covered rs then src ! x else ?w ! x)"
    using Cons.IH [of ?w] Cons.prems w(1) by auto
  then show ?case using r b w Cons.prems(1) by auto
qed simp

section \<open>The difference of two pages\<close>

lemma shifted_indices:
  fixes off :: nat
  shows "{off + i |i. i < Suc n \<and> P i} =
    (if P 0 then {off} else {}) \<union> {Suc off + i |i. i < n \<and> P (Suc i)}"
proof (rule set_eqI)
  fix x
  have "(\<exists>i. x = off + i \<and> i < Suc n \<and> P i) \<longleftrightarrow>
      x = off \<and> P 0 \<or> (\<exists>i. x = Suc off + i \<and> i < n \<and> P (Suc i))"
    unfolding less_Suc_eq_0_disj by auto
  then show "x \<in> {off + i |i. i < Suc n \<and> P i} \<longleftrightarrow>
      x \<in> (if P 0 then {off} else {}) \<union> {Suc off + i |i. i < n \<and> P (Suc i)}"
    by auto
qed

lemma changed_ranges_covered:
  "length before = length after \<Longrightarrow> (\<forall>s. start = Some s \<longrightarrow> s < off) \<Longrightarrow>
    covered (map (\<lambda>(s, n). (s, s + n)) (changed_ranges_loop before after off start)) =
      {off + i |i. i < length before \<and> before ! i \<noteq> after ! i} \<union>
      (case start of None \<Rightarrow> {} | Some s \<Rightarrow> {s ..< off})"
proof (induction before after off start rule: changed_ranges_loop.induct)
  case (1 b before a after off)
  show ?case
    using 1 shifted_indices [of off "length before" "\<lambda>i. (b # before) ! i \<noteq> (a # after) ! i"]
    by simp
next
  case (2 b before a after off s)
  have "{s ..< Suc off} = {s ..< off} \<union> {off}" using 2(4) by (auto simp: le_Suc_eq)
  then show ?case
    using 2 shifted_indices [of off "length before" "\<lambda>i. (b # before) ! i \<noteq> (a # after) ! i"]
    by (simp add: Un_ac)
qed auto

lemma changed_ranges_bounds:
  "length before = length after \<Longrightarrow> (\<forall>s. start = Some s \<longrightarrow> s < off) \<Longrightarrow>
    (s, n) \<in> set (changed_ranges_loop before after off start) \<Longrightarrow> s + n \<le> off + length before"
  by (induction before after off start rule: changed_ranges_loop.induct) (auto split: if_splits)

lemma diff_patch_applies:
  assumes "length before = length after"
  shows "apply_ranges (map (\<lambda>(start, len). (start, read_at start len after))
      (changed_ranges_loop before after 0 None)) before = Some after"
proof -
  let ?rs = "changed_ranges_loop before after 0 None"
  let ?qs = "map (\<lambda>(s, n). (s, s + n)) ?rs"
  have cov: "covered ?qs = {i. i < length before \<and> before ! i \<noteq> after ! i}"
    using changed_ranges_covered [OF assms, of None 0] by auto
  have "fst r \<le> snd r \<and> snd r \<le> length before" if "r \<in> set ?qs" for r
  proof -
    obtain s n where "(s, n) \<in> set ?rs" "r = (s, s + n)" using \<open>r \<in> set ?qs\<close> by auto
    then show ?thesis using changed_ranges_bounds [OF assms, of None 0 s n] by simp
  qed
  then have "\<forall>r \<in> set ?qs. fst r \<le> snd r \<and> snd r \<le> length before" by blast
  from apply_ranges_copy [of after before ?qs, OF _ this] assms
  obtain q where q: "apply_ranges (map (\<lambda>(start, end). (start, read_at start (end - start) after)) ?qs) before = Some q"
    "length q = length before" "\<forall>x. q ! x = (if x \<in> covered ?qs then after ! x else before ! x)"
    by auto
  have "q = after"
    by (rule nth_equalityI) (use q(2,3) assms cov in auto)
  have eq: "map (\<lambda>(start, end). (start, read_at start (end - start) after)) ?qs =
      map (\<lambda>(start, len). (start, read_at start len after)) ?rs"
    by (simp add: case_prod_beta)
  show ?thesis using q(1) unfolding eq \<open>q = after\<close> .
qed

section \<open>Patches through the log\<close>

text \<open>Ordered ranges are encoded unless they are too large.\<close>

lemma patch_len_loop_ordered:
  assumes "sorted_wrt (\<lambda>r q. fst r + length (snd r) \<le> fst q) ranges"
    and "\<forall>(start, data) \<in> set ranges. data \<noteq> [] \<and> e \<le> start \<and> start + length data \<le> PAGE_SIZE"
    and "n + sum_list (map (\<lambda>(start, data). 8 + length data) ranges) < 2 ^ 64"
  shows "patch_len_loop ranges n e = Some (n + sum_list (map (\<lambda>(start, data). 8 + length data) ranges))"
  using assms
proof (induction ranges arbitrary: n e)
  case (Cons r ranges)
  obtain start data where r: "r = (start, data)" by (cases r)
  have b: "data \<noteq> []" "e \<le> start" "start + length data \<le> PAGE_SIZE" using Cons.prems(2) r by auto
  have "patch_len_loop ranges (n + 8 + length data) (start + length data) =
      Some (n + 8 + length data + sum_list (map (\<lambda>(start, data). 8 + length data) ranges))"
    using Cons.prems r by (intro Cons.IH) auto
  then show ?case
    using b Cons.prems(3)
    by (simp add: r checked_add_def PAGE_PATCH_RANGE_HEADER_LEN_def PAGE_SIZE_def not_less add.assoc)
qed simp

lemma sum_list_bounded: "(\<And>x. x \<in> set xs \<Longrightarrow> f x \<le> b) \<Longrightarrow> sum_list (map f xs) \<le> length xs * (b :: nat)"
  by (induction xs) (auto simp: add_mono)

lemma separated_sorted: "separated rs \<Longrightarrow> sorted_wrt (\<lambda>r q. snd r < fst q) rs"
  by (induction rs) auto

definition patch_size :: "PageMutation \<Rightarrow> nat" where
  "patch_size m = 16 + (8 + 8) + sum_list (map (\<lambda>(start, end). 8 + (end - start)) (mutation_ranges m))"

lemma patch_ranges_eq:
  "patch_ranges lsn page m =
    (0, le_bytes 8 (unat lsn)) # map (\<lambda>r. (fst r, read_at (fst r) (snd r - fst r) page)) (pm_ranges m)"
  by (simp add: patch_ranges_def mutation_ranges_def PAGE_LSN_RANGE_def case_prod_beta)

lemma patch_ranges_ordered:
  assumes "mutation_inv m" "length page = PAGE_SIZE"
  shows "sorted_wrt (\<lambda>r q. fst r + length (snd r) \<le> fst q) (patch_ranges lsn page m)"
    "\<forall>(start, data) \<in> set (patch_ranges lsn page m). data \<noteq> [] \<and> 0 \<le> start \<and> start + length data \<le> PAGE_SIZE"
    "16 + sum_list (map (\<lambda>(start, data). 8 + length data) (patch_ranges lsn page m)) = patch_size m"
    "patch_size m < 2 ^ 64"
proof -
  let ?rs = "pm_ranges m" and ?f = "\<lambda>r. (fst r, read_at (fst r) (snd r - fst r) page)"
  have inv: "separated ?rs" "\<forall>r \<in> set ?rs. 8 \<le> fst r \<and> snd r \<le> PAGE_SIZE" "length ?rs \<le> 8"
    using assms(1) by (auto simp: mutation_inv_def PAGE_MUTATION_MAX_RANGES_def)
  have f: "fst (?f r) = fst r" "length (snd (?f r)) = snd r - fst r" "fst r < snd r"
      "snd r \<le> PAGE_SIZE" "8 \<le> fst r" if "r \<in> set ?rs" for r
    using that inv(2) separated_nonempty [OF inv(1) that] assms(2) by auto
  have "sorted_wrt (\<lambda>r q. fst (?f r) + length (snd (?f r)) \<le> fst (?f q)) ?rs"
  proof (rule sorted_wrt_mono_rel [OF _ separated_sorted [OF inv(1)]])
    fix r q assume "r \<in> set ?rs" "q \<in> set ?rs" "snd r < fst q"
    then show "fst (?f r) + length (snd (?f r)) \<le> fst (?f q)" using f(2,3) [of r] by simp
  qed
  then have "sorted_wrt (\<lambda>r q. fst r + length (snd r) \<le> fst q) (map ?f ?rs)"
    by (simp only: sorted_wrt_map)
  moreover have "\<forall>q \<in> set (map ?f ?rs). 8 \<le> fst q" using f(5) by simp
  ultimately show "sorted_wrt (\<lambda>r q. fst r + length (snd r) \<le> fst q) (patch_ranges lsn page m)"
    unfolding patch_ranges_eq by simp
  have "snd (?f r) \<noteq> [] \<and> fst (?f r) + length (snd (?f r)) \<le> PAGE_SIZE" if "r \<in> set ?rs" for r
    using f [OF that] by (metis diff_is_0_eq le_add_diff_inverse length_0_conv less_imp_le not_le)
  moreover have "le_bytes 8 (unat lsn) \<noteq> []" by (metis length_0_conv length_le_bytes zero_neq_numeral)
  ultimately show "\<forall>(start, data) \<in> set (patch_ranges lsn page m).
      data \<noteq> [] \<and> 0 \<le> start \<and> start + length data \<le> PAGE_SIZE"
    unfolding patch_ranges_eq by (simp add: PAGE_SIZE_def del: length_read_at le_bytes.simps)
  have "sum_list (map (\<lambda>(start, data). 8 + length data) (map ?f ?rs)) =
      sum_list (map (\<lambda>(start, end). 8 + (end - start)) ?rs)"
    using f(2) by (intro arg_cong [where f = sum_list]) (simp add: case_prod_beta del: length_read_at)
  then show "16 + sum_list (map (\<lambda>(start, data). 8 + length data) (patch_ranges lsn page m)) = patch_size m"
    unfolding patch_ranges_eq by (simp add: patch_size_def mutation_ranges_def)
  have "sum_list (map (\<lambda>(start, end). 8 + (end - start)) ?rs) \<le> length ?rs * (8 + PAGE_SIZE)"
    using f(4) by (intro sum_list_bounded) (auto simp: le_diff_conv trans_le_add1)
  also have "\<dots> \<le> 8 * (8 + PAGE_SIZE)" using inv(3) by (rule mult_le_mono1)
  finally show "patch_size m < 2 ^ 64" by (simp add: patch_size_def mutation_ranges_def PAGE_SIZE_def)
qed

lemma encode_patch_ranges:
  assumes "mutation_inv m" "length page = PAGE_SIZE"
  shows "(\<exists>payload. encode_page_patch_ranges_payload pid (patch_ranges lsn page m) = Some payload) \<longleftrightarrow>
    patch_size m < PAGE_SIZE"
proof -
  let ?p = "patch_ranges lsn page m"
  note o = patch_ranges_ordered(1-3) [OF assms, of lsn] patch_ranges_ordered(4) [OF assms]
  have sl: "patch_len_loop ?p PAGE_PATCH_HEADER_LEN 0 = Some (patch_size m)"
    using patch_len_loop_ordered [OF o(1,2), of 16] o(3,4) by (simp add: PAGE_PATCH_HEADER_LEN_def)
  have "\<forall>(start, data) \<in> set ?p. start < 2 ^ 32 \<and> length data < 2 ^ 32"
    using o(2) by (force simp: PAGE_SIZE_def)
  then have "patch_range_bytes ?p \<noteq> None" using patch_range_bytes_eq [of ?p] by simp
  moreover have "?p \<noteq> []" "length ?p < 2 ^ 32"
    using assms(1) by (simp_all add: patch_ranges_eq mutation_inv_def PAGE_MUTATION_MAX_RANGES_def)
  ultimately show ?thesis using sl
    by (auto simp: encode_page_patch_ranges_payload_def page_size_def)
qed

text \<open>C22: the page patch between two versions of a page. Two equal pages have no patch. When a patch
  is encoded for a page before and after a change, its payload decodes to the page id and to ranges
  which turn the earlier page into the later one.\<close>

theorem page_diff_patch_redo:
  assumes "length before = PAGE_SIZE" "length after = PAGE_SIZE"
  shows "(before = after \<longrightarrow> encode_page_patch_payload pid before after = None) \<and>
    (\<forall>payload. encode_page_patch_payload pid before after = Some payload \<longrightarrow>
      (\<exists>ranges. decode_page_patch_payload payload = Some (pid, ranges) \<and>
        apply_ranges ranges before = Some after))"
proof (intro conjI impI allI)
  assume "before = after"
  moreover have "changed_ranges_loop xs xs off None = []" for xs :: bytes and off
    by (induction xs arbitrary: off) auto
  ultimately show "encode_page_patch_payload pid before after = None"
    by (simp add: encode_page_patch_payload_def encode_page_patch_ranges_payload_def)
next
  fix payload assume "encode_page_patch_payload pid before after = Some payload"
  then have "decode_page_patch_payload payload =
      Some (pid, map (\<lambda>(start, len). (start, read_at start len after)) (changed_ranges_loop before after 0 None))"
    unfolding encode_page_patch_payload_def by (rule page_patch_codec)
  moreover have "length before = length after" using assms by simp
  note diff_patch_applies [OF this]
  ultimately show "\<exists>ranges. decode_page_patch_payload payload = Some (pid, ranges) \<and>
      apply_ranges ranges before = Some after"
    by blast
qed

lemma changed_ranges_same: "changed_ranges_loop (replicate n x) (replicate n x) off None = []"
  by (induction n arbitrary: off) auto

theorem page_diff_patch_redo_witness:
  "\<exists>payload ranges.
    encode_page_patch_payload 3 (replicate PAGE_SIZE 0) (1 # replicate (PAGE_SIZE - 1) 0) = Some payload \<and>
    decode_page_patch_payload payload = Some (3, ranges) \<and>
    apply_ranges ranges (replicate PAGE_SIZE 0) = Some (1 # replicate (PAGE_SIZE - 1) 0)"
proof -
  let ?z = "replicate PAGE_SIZE 0 :: bytes" and ?o = "1 # replicate (PAGE_SIZE - 1) 0 :: bytes"
  obtain k where k: "PAGE_SIZE = Suc (Suc k)" "32 < PAGE_SIZE" "PAGE_SIZE < 2 ^ 64"
  proof
    show "PAGE_SIZE = Suc (Suc 65534)" "32 < PAGE_SIZE" "PAGE_SIZE < 2 ^ 64" by (simp_all add: PAGE_SIZE_def)
  qed
  have "changed_ranges_loop ?z ?o 0 None = [(0, 1)]"
    by (simp add: k(1) changed_ranges_same)
  then have "encode_page_patch_payload 3 ?z ?o = encode_page_patch_ranges_payload 3 [(0, [1])]"
    by (simp add: encode_page_patch_payload_def read_at_def)
  moreover have "\<exists>payload. encode_page_patch_ranges_payload 3 [(0, [1])] = Some payload"
    using k(2) by (simp add: encode_page_patch_ranges_payload_def checked_add_def page_size_def
        PAGE_PATCH_HEADER_LEN_def PAGE_PATCH_RANGE_HEADER_LEN_def)
  ultimately obtain payload where "encode_page_patch_payload 3 ?z ?o = Some payload" by auto
  moreover have "length ?z = PAGE_SIZE" "length ?o = PAGE_SIZE" by (simp_all add: k(1))
  ultimately show ?thesis using page_diff_patch_redo [of ?z ?o 3] by blast
qed

section \<open>Torn packed pages\<close>

lemma packed_loop_append:
  assumes "\<forall>r \<in> set rs. length (snd (snd r)) < 2 ^ 32"
  shows "packed_loop (pre @ concat (map packed_bytes rs) @ post) (length pre) =
    (let (records, ok) = packed_loop (pre @ concat (map packed_bytes rs) @ post)
       (length (pre @ concat (map packed_bytes rs))) in (rs @ records, ok))"
  using assms
proof (induction rs arbitrary: pre)
  case (Cons r rs)
  obtain lsn kind payload where r: "r = (lsn, kind, payload)" by (cases r)
  let ?pre = "pre @ packed_bytes r"
  have "packed_loop (?pre @ concat (map packed_bytes rs) @ post) (length ?pre) =
      (let (records, ok) = packed_loop (?pre @ concat (map packed_bytes rs) @ post)
         (length (?pre @ concat (map packed_bytes rs))) in (rs @ records, ok))"
    by (rule Cons.IH) (use Cons.prems in auto)
  then show ?case
    using packed_loop_step [of payload pre lsn kind "concat (map packed_bytes rs) @ post"] Cons.prems
    by (simp add: r Let_def case_prod_beta add.assoc del: packed_bytes.simps)
qed simp

lemma packed_loop_torn:
  assumes "0 < k" "k < 20 + length payload" "length payload < 2 ^ 32"
  shows "packed_loop (pre @ take k (packed_bytes (lsn, kind, payload))) (length pre) = ([], False)"
proof (cases "k < 20")
  case True
  then show ?thesis
    using assms(1) by (subst packed_loop.simps) (simp add: PACKED_LOGICAL_ENTRY_HEADER_LEN_def)
next
  case False
  let ?t = "take k (packed_bytes (lsn, kind, payload))"
  have "rd 4 (length pre + 16) (pre @ ?t) = rd 4 16 ?t"
    by (simp add: rd_def read_at_prefix_plus del: packed_bytes.simps)
  also have "\<dots> = rd 4 16 (packed_bytes (lsn, kind, payload))"
    by (rule rd_take) (use False in simp)
  also have "\<dots> = length payload"
    using assms(3) by (simp add: rd_def read_at_def le_val_le_bytes_id)
  finally have "rd 4 (length pre + 16) (pre @ ?t) = length payload" .
  then show ?thesis
    using assms False
    by (subst packed_loop.simps) (simp add: PACKED_LOGICAL_ENTRY_HEADER_LEN_def Let_def del: packed_bytes.simps)
qed

text \<open>C23: packed logical records. Records written one behind the other into a data page with
  \<open>encode_packed_logical_entry\<close> are delivered by the decoder exactly as written and in order; when
  the bytes stop anywhere inside a further record, the decoder delivers the complete ones and
  reports failure.\<close>

theorem packed_records_round_trip:
  assumes "\<forall>(lsn, kind, payload) \<in> set (r # rs). length payload < 2 ^ 32"
    and "0 < k" "k < length (packed_bytes r)"
  shows "for_each_packed_logical_record (concat (map packed_bytes rs)) = (rs, True) \<and>
    for_each_packed_logical_record (concat (map packed_bytes rs) @ take k (packed_bytes r)) = (rs, False) \<and>
    (20 + length payload \<le> length dst \<and> length dst < 2 ^ 32 \<longrightarrow>
      encode_packed_logical_entry dst lsn kind payload =
        Some (write_at 0 (packed_bytes (lsn, kind, payload)) dst, length (packed_bytes (lsn, kind, payload))))"
proof -
  obtain l t p where r: "r = (l, t, p)" by (cases r)
  have rs: "\<forall>r \<in> set rs. length (snd (snd r)) < 2 ^ 32" using assms(1) by auto
  have "packed_loop ((concat (map packed_bytes rs)) @ take k (packed_bytes (l, t, p)))
      (length (concat (map packed_bytes rs))) = ([], False)"
    using assms r by (intro packed_loop_torn) auto
  then have "for_each_packed_logical_record (concat (map packed_bytes rs) @ take k (packed_bytes r)) = (rs, False)"
    using packed_loop_append [OF rs, of "[]"]
    by (simp add: for_each_packed_logical_record_def r del: packed_bytes.simps)
  then show ?thesis using for_each_packed [OF rs] encode_packed_run [of payload dst lsn kind] by simp
qed

theorem packed_records_round_trip_witness:
  "for_each_packed_logical_record (packed_bytes (7, 1, [10]) @ take 20 (packed_bytes (8, 2, [11, 12]))) =
    ([(7, 1, [10])], False)"
  using packed_records_round_trip [of "(8, 2, [11, 12])" "[(7, 1, [10])]" 20 "[]" "[]" 0 0]
  by (simp del: packed_bytes.simps)

section \<open>Record handles\<close>

lemma handle_bits:
  assumes "m < 2 ^ 24" "s < 2 ^ 12"
  shows "unat (push_bit 8 (word_of_nat m) OR word_of_nat s :: u32) = or (m * 256) s"
proof -
  have "push_bit 8 (word_of_nat m) = (word_of_nat (m * 256) :: u32)" by (simp add: push_bit_eq_mult)
  then have m: "unat (push_bit 8 (word_of_nat m) :: u32) = m * 256"
    using assms(1) by (simp only: unat_of_nat) simp
  have s: "unat (word_of_nat s :: u32) = s" using assms(2) by (simp add: unat_of_nat)
  show ?thesis by (simp add: unsigned_or_eq m s)
qed

lemma or_low_byte:
  fixes m s :: nat
  shows "or (m * 256) s mod 256 = s mod 256" "or (m * 256) s div 256 = or m (s div 256)"
proof -
  have e: "or (m * 256) s = or (push_bit 8 m) s" by (simp add: push_bit_eq_mult)
  have "take_bit 8 (or (push_bit 8 m) s) = take_bit 8 s"
    by (rule bit_eqI) (auto simp: bit_take_bit_iff bit_or_iff bit_push_bit_iff)
  then show "or (m * 256) s mod 256 = s mod 256" by (simp add: e take_bit_eq_mod)
  have "drop_bit 8 (or (push_bit 8 m) s) = or m (drop_bit 8 s)"
    by (rule bit_eqI) (auto simp: bit_drop_bit_eq bit_or_iff bit_push_bit_iff)
  then show "or (m * 256) s div 256 = or m (s div 256)" by (simp add: e drop_bit_eq_div)
qed

lemma decode_handle:
  assumes "m < 2 ^ 24" "s < 2 ^ 12"
  shows "decode_record_offset (push_bit 8 (word_of_nat m) OR word_of_nat s) =
    (or m (s div 256) * WAL_RECORD_SIZE, s mod 256)"
proof -
  let ?w = "push_bit 8 (word_of_nat m) OR word_of_nat s :: u32"
  have w: "?w AND 0xff = take_bit 8 ?w" by (simp add: take_bit_eq_mask mask_eq_exp_minus_1)
  have "unat (?w AND 0xff) = unat ?w mod 256"
    unfolding w unsigned_take_bit_eq by (simp add: take_bit_eq_mod)
  moreover have "unat (drop_bit 8 ?w) = unat ?w div 256"
    unfolding drop_bit_eq_div unat_div_distrib by simp
  ultimately show ?thesis
    using handle_bits [OF assms] or_low_byte [of m s] by (simp add: decode_record_offset_def Let_def)
qed

text \<open>C25: the handle of a buffered record. The handle packs the metadata page of a batch and the slot
  in it into 32 bits, with eight bits for the slot. It decodes to what was encoded for every slot
  below 256, and for no slot from 256 on, although a batch holds up to \<open>BATCH_MAX_RECORDS\<close> = 2340
  of them.\<close>

theorem record_handle_round_trip:
  assumes "page < 2 ^ 24" "slot_idx < BATCH_MAX_RECORDS"
  shows "\<exists>off. encode_record_offset (page * WAL_RECORD_SIZE) slot_idx = Some off \<and>
    (decode_record_offset off = (page * WAL_RECORD_SIZE, slot_idx) \<longleftrightarrow> slot_idx < 256)"
proof -
  have "slot_idx < 2 ^ 12" using assms(2) by (simp add: BATCH_MAX_RECORDS_def PAGE_SIZE_def batch_layout)
  from decode_handle [OF assms(1) this]
  have d: "decode_record_offset (push_bit 8 (word_of_nat page) OR word_of_nat slot_idx) =
      (or page (slot_idx div 256) * WAL_RECORD_SIZE, slot_idx mod 256)" .
  have "encode_record_offset (page * WAL_RECORD_SIZE) slot_idx =
      Some (push_bit 8 (word_of_nat page) OR word_of_nat slot_idx)"
    using assms(2) by (simp add: encode_record_offset_def WAL_RECORD_SIZE_def PAGE_SIZE_def)
  moreover have "slot_idx mod 256 = slot_idx \<longleftrightarrow> slot_idx < 256"
    by (metis mod_less mod_less_divisor zero_less_numeral)
  ultimately show ?thesis by (auto simp: d)
qed

theorem record_handle_round_trip_witness:
  "\<exists>off. encode_record_offset (1 * WAL_RECORD_SIZE) 300 = Some off \<and>
    decode_record_offset off \<noteq> (1 * WAL_RECORD_SIZE, 300)"
  using record_handle_round_trip [of 1 300]
  by (auto simp: BATCH_MAX_RECORDS_def PAGE_SIZE_def batch_layout)

end
