(* ===== verification/Slotted_Page_Redo.thy ===== *)
theory Slotted_Page_Redo
  imports Slotted_Page_Update Wal_Records
begin

text \<open>
  Redo of slotted-page updates: the byte ranges that the \<open>_with_mutation\<close> operations of
  \<open>crates/storage/src/slotted_page.rs\<close> record cover every byte they change, and so the patch that
  \<open>mark_dirty_ranges_raw\<close> of \<open>crates/storage/src/buffer_pool.rs\<close> builds from them turns the old page
  into the new one.
\<close>

section \<open>Recorded changes\<close>

definition changes :: "bytes \<Rightarrow> bytes \<Rightarrow> nat set" where
  "changes p q = {x. x < PAGE_SIZE \<and> q ! x \<noteq> p ! x}"

lemma changes_trans: "changes p r \<subseteq> changes p q \<union> changes q r"
  by (auto simp: changes_def)

lemma changes_refl [simp]: "changes p p = {}"
  by (simp add: changes_def)

text \<open>One step of a page with its mutation: nothing recorded is lost, and what changed is
  recorded.\<close>

definition logged :: "bytes \<times> PageMutation \<Rightarrow> bytes \<times> PageMutation \<Rightarrow> bool" where
  "logged = (\<lambda>(p, m) (q, m'). mutation_inv m' \<and> (pm_full_image m \<longrightarrow> pm_full_image m') \<and>
     (pm_full_image m' \<or> covered (pm_ranges m) \<union> changes p q \<subseteq> covered (pm_ranges m')))"

lemma logged_refl: "mutation_inv m \<Longrightarrow> logged (p, m) (p, m)"
  by (simp add: logged_def)

lemma logged_trans:
  assumes "logged (p, m) (q, m')" "logged (q, m') (r, m'')"
  shows "logged (p, m) (r, m'')"
  using assms changes_trans [of p r q] unfolding logged_def by blast

text \<open>Recording a list of legal ranges that cover the changes.\<close>

lemma logged_ranges:
  assumes "mutation_inv m" "\<forall>r \<in> set rs. legal_range r" "changes p q \<subseteq> covered rs"
  shows "\<exists>m'. add_ranges rs m = Some m' \<and> logged (p, m) (q, m')"
  using add_ranges_recorded [OF assms(1,2)] assms(3) by (auto simp: logged_def)

section \<open>The operations record what they change\<close>

lemma insert_logged:
  assumes "wf_page p" "mutation_inv m" "insert_entry i key val p = Some q"
  shows "\<exists>m'. insert_with_mutation i key val (p, m) = Some (q, m') \<and> logged (p, m) (q, m')"
proof -
  let ?n = "hdr_num_slots p" and ?dl = "length key + length val"
  have "can_insert (length key) (length val) p" and i: "i \<le> ?n"
    using assms(3) insert_entry_full [OF assms(1), of key val i]
      insert_entry_bad_slot [OF assms(1), of i key val] by fastforce+
  from insert_entry_run [OF assms(1) this(2,1)]
  obtain c where c: "c = p \<and> SLOT_SIZE + ?dl \<le> free_space p \<or>
      compacted p c \<and> free_space p < SLOT_SIZE + ?dl"
    and room: "insert_room i key val c" and q: "q = insert_page i key val c"
    using assms(3) by auto
  note r = insert_roomD [OF room] and f = insert_page_fields [OF room, folded q]
  let ?compacted = "free_space p < SLOT_SIZE + ?dl"
  let ?slots = "(slot_pos (if ?compacted then 0 else i), slot_pos (?n + 1))"
  let ?data = "(hdr_data_offset q, if ?compacted then PAGE_SIZE else hdr_data_offset q + ?dl)"
  let ?rs = "(8, HEADER_SIZE) # ?slots # (if fst ?data < snd ?data then [?data] else [])"
  have n: "hdr_num_slots c = ?n" using c by (auto simp: compacted_def)
  have off: "hdr_data_offset q = hdr_data_offset c - ?dl" "slot_pos (?n + 1) \<le> hdr_data_offset q"
    "hdr_data_offset q + ?dl = hdr_data_offset c" "hdr_data_offset c \<le> PAGE_SIZE"
    using r f(3) n by (auto simp: PAGE_SIZE_def)
  have legal: "\<forall>r \<in> set ?rs. legal_range r"
    using off i by (auto simp: legal_range_def slot_layout HEADER_SIZE_def)
  have "x \<in> covered ?rs" if x: "x < PAGE_SIZE" "q ! x \<noteq> p ! x" for x
  proof (rule ccontr)
    assume "x \<notin> covered ?rs"
    then have out: "x < 8 \<or> 24 \<le> x \<and> x < slot_pos i \<and> \<not> ?compacted \<or>
        slot_pos (?n + 1) \<le> x \<and> (x < hdr_data_offset q \<or> snd ?data \<le> x)"
      by (auto simp: HEADER_SIZE_def slot_layout split: if_splits)
    have "q ! x = c ! x"
      using out x(1) off n unfolding q
      by (intro nth_insert_page [OF room]) (auto split: if_splits)
    moreover have "c ! x = p ! x"
      using c
    proof
      assume "compacted p c \<and> ?compacted"
      then show ?thesis
        using out x(1) off by (auto simp: compacted_def slot_layout)
    qed simp
    ultimately show False using x(2) by simp
  qed
  then have "changes p q \<subseteq> covered ?rs" unfolding changes_def by blast
  from logged_ranges [OF assms(2) legal this]
  obtain m' where "add_ranges ?rs m = Some m'" "logged (p, m) (q, m')" by blast
  then show ?thesis
    using assms(3) by (intro exI [of _ m'])
      (auto simp: insert_with_mutation_def Let_def bind_eq_Some_conv split: if_splits)
qed

lemma remove_logged:
  assumes "wf_page p" "mutation_inv m" "remove_entry i p = Some q"
  shows "\<exists>m'. remove_with_mutation i (p, m) = Some (q, m') \<and> logged (p, m) (q, m')"
proof -
  let ?n = "hdr_num_slots p"
  have i: "i < ?n" using assms(3) remove_entry_bad_slot [of i p] by fastforce
  have q: "q = remove_page i p" using remove_entry_run [OF assms(1) i] assms(3) by simp
  let ?slots = "(slot_pos i, slot_pos (?n - 1))"
  let ?rs = "(8, HEADER_SIZE) # (if fst ?slots < snd ?slots then [?slots] else [])"
  have legal: "\<forall>r \<in> set ?rs. legal_range r"
    using wf_pageD(1-3) [OF assms(1)] i by (auto simp: legal_range_def slot_layout PAGE_SIZE_def)
  have "changes p q \<subseteq> covered ?rs"
  proof
    fix x assume "x \<in> changes p q"
    then have "\<not> (x < 8 \<or> 24 \<le> x \<and> x < slot_pos i \<or> slot_pos (?n - 1) \<le> x)"
      using remove_page_fields(6) [OF assms(1) i, of x] unfolding q changes_def by blast
    then show "x \<in> covered ?rs" by (auto simp: HEADER_SIZE_def)
  qed
  from logged_ranges [OF assms(2) legal this]
  obtain m' where "add_ranges ?rs m = Some m'" "logged (p, m) (q, m')" by blast
  then show ?thesis
    using assms(3) i by (intro exI [of _ m'])
      (auto simp: remove_with_mutation_def Let_def bind_eq_Some_conv split: if_splits)
qed

lemma update_logged:
  assumes "wf_page p" "mutation_inv m" "update_value_if_same_length i val p = Some (fin, q)"
  shows "\<exists>m'. update_value_with_mutation i val (p, m) = Some (fin, q, m') \<and> logged (p, m) (q, m')"
proof -
  let ?s = "slot_at p i"
  have i: "i < hdr_num_slots p"
    using assms(3) by (auto simp: update_value_if_same_length_def slot_def bind_eq_Some_conv)
  have range: "value_range p i = Some (slot_off ?s + key_len ?s, slot_off ?s + key_len ?s + val_len ?s)"
    using wf_slot [OF assms(1) i] by (simp add: value_range_def Let_def)
  show ?thesis
  proof (cases "length val = length (snd (entries p ! i))")
    case True
    note u = update_value_run [OF assms(1) i True] and w = write_value_agree [OF assms(1) i True]
    let ?r = "(slot_off ?s + key_len ?s, slot_off ?s + key_len ?s + val_len ?s)"
    let ?rs = "if fst ?r < snd ?r then [?r] else []"
    have q: "q = write_at (slot_off ?s + key_len ?s) val p" and fin: "fin" using u(1) assms(3) by simp_all
    have legal: "\<forall>r \<in> set ?rs. legal_range r"
      using u(2-4) by (auto simp: legal_range_def slot_len_def slot_pos_eq)
    have "x \<in> covered ?rs" if "q ! x \<noteq> p ! x" for x
    proof -
      have "\<not> (x < slot_off ?s + key_len ?s \<or> slot_off ?s + key_len ?s + length val \<le> x)"
        using w(4) [of x] that unfolding q by blast
      then show ?thesis using u(2) by auto
    qed
    then have "changes p q \<subseteq> covered ?rs" unfolding changes_def by blast
    from logged_ranges [OF assms(2) legal this]
    obtain m' where "add_ranges ?rs m = Some m'" "logged (p, m) (q, m')" by blast
    then show ?thesis
      using range u(1) assms(3) fin by (intro exI [of _ m'])
        (auto simp: update_value_with_mutation_def bind_eq_Some_conv split: if_splits)
  next
    case False
    then show ?thesis
      using update_value_other_length [OF assms(1) i False] assms(2,3) range logged_refl
      by (auto simp: update_value_with_mutation_def)
  qed
qed

section \<open>Sequences of logged updates\<close>

datatype page_op = Insert_op nat bytes bytes | Remove_op nat | Update_op nat bytes

fun run_op :: "page_op \<Rightarrow> bytes \<Rightarrow> bytes option" where
  "run_op (Insert_op i key val) p = insert_entry i key val p"
| "run_op (Remove_op i) p = remove_entry i p"
| "run_op (Update_op i val) p = map_option snd (update_value_if_same_length i val p)"

fun run_logged :: "page_op \<Rightarrow> bytes \<times> PageMutation \<Rightarrow> (bytes \<times> PageMutation) option" where
  "run_logged (Insert_op i key val) pm = insert_with_mutation i key val pm"
| "run_logged (Remove_op i) pm = remove_with_mutation i pm"
| "run_logged (Update_op i val) pm = map_option snd (update_value_with_mutation i val pm)"

primrec run_all :: "('o \<Rightarrow> 's \<Rightarrow> 's option) \<Rightarrow> 'o list \<Rightarrow> 's \<Rightarrow> 's option" where
  "run_all step [] s = Some s"
| "run_all step (x # xs) s = step x s \<bind> run_all step xs"

lemma run_op_wf: "wf_page p \<Longrightarrow> run_op x p = Some q \<Longrightarrow> wf_page q"
proof (cases x)
  case (Insert_op i key val)
  assume "wf_page p" "run_op x p = Some q"
  then show ?thesis
    using Insert_op insert_entry_correct [of p i key val] insert_entry_full [of p key val i]
      insert_entry_bad_slot [of p i key val]
    by (cases "i \<le> hdr_num_slots p"; cases "can_insert (length key) (length val) p") auto
next
  case (Remove_op i)
  assume "wf_page p" "run_op x p = Some q"
  then show ?thesis
    using Remove_op remove_entry_correct [of p i] remove_entry_bad_slot [of i p] by fastforce
next
  case (Update_op i val)
  assume a: "wf_page p" "run_op x p = Some q"
  have "i < hdr_num_slots p"
    using a(2) Update_op by (auto simp: update_value_if_same_length_def slot_def bind_eq_Some_conv)
  then show ?thesis
    using a Update_op update_value_correct [of p i val] update_value_other_length [of p i val] by force
qed

lemma run_op_logged:
  assumes "wf_page p" "mutation_inv m" "run_op x p = Some q"
  shows "\<exists>m'. run_logged x (p, m) = Some (q, m') \<and> logged (p, m) (q, m')"
proof (cases x)
  case (Update_op i val)
  then obtain fin where "update_value_if_same_length i val p = Some (fin, q)"
    using assms(3) by auto
  then show ?thesis using update_logged [OF assms(1,2)] Update_op by fastforce
qed (use assms insert_logged remove_logged in auto)

lemma run_ops_logged:
  "wf_page p \<Longrightarrow> mutation_inv m \<Longrightarrow> run_all run_op xs p = Some q \<Longrightarrow>
    \<exists>m'. run_all run_logged xs (p, m) = Some (q, m') \<and> logged (p, m) (q, m') \<and> wf_page q"
proof (induction xs arbitrary: p m)
  case Nil
  then show ?case using logged_refl by simp
next
  case (Cons x xs)
  obtain r where r: "run_op x p = Some r" "run_all run_op xs r = Some q"
    using Cons.prems(3) by (auto simp: bind_eq_Some_conv)
  obtain m1 where m1: "run_logged x (p, m) = Some (r, m1)" "logged (p, m) (r, m1)"
    using run_op_logged [OF Cons.prems(1,2) r(1)] by blast
  then have "mutation_inv m1" by (simp add: logged_def)
  from Cons.IH [OF run_op_wf [OF Cons.prems(1) r(1)] this r(2)] m1 show ?case
    using logged_trans by fastforce
qed

section \<open>Replaying a patch\<close>

text \<open>What follows the LSN in the patch is a list of ranges of the page, so it does not matter that
  they were recorded before the LSN was stamped.\<close>

lemma patch_reproduces:
  assumes "length p = PAGE_SIZE" "length q = PAGE_SIZE" "mutation_inv m"
    and "changes p q \<subseteq> covered (pm_ranges m)"
  shows "apply_ranges (patch_ranges lsn (write_page_lsn lsn q) m) p = Some (write_page_lsn lsn q)"
proof -
  let ?src = "write_page_lsn lsn q"
  have "le_bytes 8 (unat lsn) = read_at 0 (8 - 0) ?src"
    using assms(2) by (simp add: write_page_lsn_def wr_def PAGE_LSN_OFF_def PAGE_LSN_LEN_def window_simps PAGE_SIZE_def)
  then have patch: "patch_ranges lsn ?src m =
      map (\<lambda>(start, end). (start, read_at start (end - start) ?src)) ((0, 8) # pm_ranges m)"
    by (simp add: patch_ranges_def PAGE_LSN_RANGE_def mutation_ranges_def)
  have "\<forall>r \<in> set ((0, 8) # pm_ranges m). fst r \<le> snd r \<and> snd r \<le> length p"
    using assms(1,3) separated_nonempty [of "pm_ranges m"]
    by (force simp: mutation_inv_def PAGE_SIZE_def)
  from apply_ranges_copy [of ?src, OF _ this] assms(1,2)
  obtain r where r: "apply_ranges (patch_ranges lsn ?src m) p = Some r" "length r = PAGE_SIZE"
    "\<forall>x. r ! x = (if x \<in> covered ((0, 8) # pm_ranges m) then ?src ! x else p ! x)"
    unfolding patch by auto
  have "r ! x = ?src ! x" if x: "x < PAGE_SIZE" for x
  proof (cases "x \<in> covered ((0, 8) # pm_ranges m)")
    case False
    then have "q ! x = p ! x" "8 \<le> x" using assms(4) x by (auto simp: changes_def)
    then show ?thesis using r(3) False assms(2)
      by (simp add: write_page_lsn_def nth_wr_outside PAGE_LSN_OFF_def PAGE_LSN_LEN_def)
  qed (use r(3) in auto)
  then have "r = ?src" using r(2) assms(2) by (intro nth_equalityI) auto
  then show ?thesis using r(1) by simp
qed

text \<open>Any sequence of updates that runs without a panic runs to the same page in the logging variants,
  and then either a full page image is asked for or the patch reproduces the page.\<close>

lemma logged_updates_replay:
  assumes "wf_page p" "run_all run_op ops p = Some q"
  shows "\<exists>m. run_all run_logged ops (p, new_mutation) = Some (q, m) \<and> mutation_inv m \<and> wf_page q \<and>
    (uses_full_image m \<or>
     apply_ranges (patch_ranges lsn (write_page_lsn lsn q) m) p = Some (write_page_lsn lsn q))"
proof -
  obtain m where m: "run_all run_logged ops (p, new_mutation) = Some (q, m)"
    "logged (p, new_mutation) (q, m)" "wf_page q"
    using run_ops_logged [OF assms(1) new_mutation_inv assms(2)] by blast
  then show ?thesis
    using patch_reproduces [of p q m lsn] wf_pageD(1) assms(1)
    by (auto simp: logged_def uses_full_image_def)
qed

lemma some_updates_run:
  "\<exists>q. run_all run_op [Insert_op 0 [1, 2] [3], Update_op 0 [4], Remove_op 0]
    (init (replicate PAGE_SIZE 0)) = Some q"
proof -
  let ?p = "init (replicate PAGE_SIZE 0)"
  have "can_insert (length [1 :: byte, 2]) (length [3 :: byte]) ?p"
    using fresh_page_room(4) [of 2 1] by (simp add: numeral_2_eq_2)
  then obtain r where r: "insert_entry 0 [1, 2] [3] ?p = Some r" "wf_page r" "entries r = [([1, 2], [3])]"
    using insert_entry_correct [OF fresh_page_room(1), of 0 "[1, 2]" "[3]"] fresh_page_room(3) by auto
  have "hdr_num_slots r = 1" using length_entries [of r] r(3) by simp
  then obtain s where s: "update_value_if_same_length 0 [4] r = Some (True, s)" "wf_page s"
    "entries s = [([1, 2], [4])]"
    using update_value_correct [OF r(2), of 0 "[4]"] r(3) by auto
  have "0 < hdr_num_slots s" using length_entries [of s] s(3) by simp
  then obtain q where "remove_entry 0 s = Some q" using remove_entry_correct [OF s(2)] by blast
  then show ?thesis using r(1) s(1) by simp
qed

text \<open>C7: redo logging of slotted-page updates is sound, through the log. Take any sequence of
  insertions, removals and in-place updates that runs on a well-formed page without a panic. The
  logging variants run the same sequence to the same page. Afterwards the mutation asks for a full
  page image, or its patch is encoded exactly when its payload is smaller than a page, and the
  encoded payload decodes to the page id and to ranges which, replayed on the page as it was
  before the sequence, produce the final page stamped with the LSN, byte for byte. This includes
  insertions that compact the page.\<close>

theorem logged_updates_survive_log:
  assumes "wf_page p" "run_all run_op ops p = Some q"
  shows "\<exists>m. run_all run_logged ops (p, new_mutation) = Some (q, m) \<and>
    (uses_full_image m \<or>
     (case encode_page_patch_ranges_payload pid (patch_ranges lsn (write_page_lsn lsn q) m) of
        None \<Rightarrow> PAGE_SIZE \<le> patch_size m
      | Some payload \<Rightarrow> patch_size m < PAGE_SIZE \<and>
          (\<exists>ranges. decode_page_patch_payload payload = Some (pid, ranges) \<and>
            apply_ranges ranges p = Some (write_page_lsn lsn q))))"
proof -
  obtain m where m: "run_all run_logged ops (p, new_mutation) = Some (q, m)" "mutation_inv m" "wf_page q"
    "uses_full_image m \<or>
     apply_ranges (patch_ranges lsn (write_page_lsn lsn q) m) p = Some (write_page_lsn lsn q)"
    using logged_updates_replay [OF assms] by blast
  have "length (write_page_lsn lsn q) = PAGE_SIZE" using wf_pageD(1) [OF m(3)] by simp
  from encode_patch_ranges [OF m(2) this, of pid lsn] m(1,4) show ?thesis
    using page_patch_codec [of pid "patch_ranges lsn (write_page_lsn lsn q) m"]
    by (intro exI [of _ m]) (auto split: option.splits)
qed

theorem logged_updates_survive_log_witness:
  "\<exists>q m. run_all run_logged [Insert_op 0 [1, 2] [3], Update_op 0 [4], Remove_op 0]
      (init (replicate PAGE_SIZE 0), new_mutation) = Some (q, m) \<and>
    (uses_full_image m \<or> PAGE_SIZE \<le> patch_size m \<or>
     (\<exists>payload ranges. decode_page_patch_payload payload = Some (5, ranges) \<and>
       apply_ranges ranges (init (replicate PAGE_SIZE 0)) = Some (write_page_lsn 9 q)))"
proof -
  obtain q where "run_all run_op [Insert_op 0 [1, 2] [3], Update_op 0 [4], Remove_op 0]
      (init (replicate PAGE_SIZE 0)) = Some q"
    using some_updates_run by blast
  from logged_updates_survive_log [OF fresh_page_room(1) this, of 5 9]
  show ?thesis by (auto split: option.splits)
qed

end
