(* ===== verification/Wal_Buffer.thy ===== *)
theory Wal_Buffer
  imports Wal_Records
begin

text \<open>
  The append buffers of a log shard, \<open>crates/wal/src/wal_impl.rs\<close>: reserving a record slot in the
  active buffer, filling it with a page image, a logical chunk or packed logical records,
  overwriting a buffered page image, and the checksums that are filled in before a sealed buffer
  is written. A buffer is a sequence of batches, each a metadata page followed by its data pages.
\<close>

section \<open>Buffers\<close>

record PackedLogicalSlot =
  ps_meta_start :: nat
  ps_slot_idx :: nat
  ps_data_start :: nat
  ps_len :: nat
  ps_max_lsn :: Lsn

text \<open>The byte counter \<open>known_touched_bytes\<close> is statistics and left out.\<close>

record WalBuffer =
  wb_buffer :: bytes
  wb_used :: nat
  wb_records :: nat
  wb_epoch :: u64
  wb_max_lsn :: Lsn
  wb_open_batch_meta_offset :: "nat option"
  wb_open_batch_count :: nat
  wb_max_batch_records :: nat
  wb_packed_logical :: "PackedLogicalSlot option"

definition wal_buffer_new :: "u64 \<Rightarrow> nat \<Rightarrow> WalBuffer" where
  "wal_buffer_new epoch capacity = \<lparr> wb_buffer = replicate capacity 0, wb_used = 0, wb_records = 0,
     wb_epoch = epoch, wb_max_lsn = 0, wb_open_batch_meta_offset = None, wb_open_batch_count = 0,
     wb_max_batch_records = 0, wb_packed_logical = None \<rparr>"

definition wal_buffer_reset :: "u64 \<Rightarrow> WalBuffer \<Rightarrow> WalBuffer" where
  "wal_buffer_reset epoch b = b\<lparr> wb_used := 0, wb_records := 0, wb_epoch := epoch, wb_max_lsn := 0,
     wb_open_batch_meta_offset := None, wb_open_batch_count := 0, wb_max_batch_records := 0,
     wb_packed_logical := None \<rparr>"

section \<open>Reserving and finishing a record slot\<close>

definition needs_new_batch :: "WalBuffer \<Rightarrow> bool" where
  "needs_new_batch b =
     (wb_open_batch_meta_offset b = None \<or> wb_open_batch_count b = BATCH_MAX_RECORDS)"

text \<open>The bytes the next record takes in the buffer.\<close>

definition record_bytes_needed :: "WalBuffer \<Rightarrow> nat" where
  "record_bytes_needed b = (if needs_new_batch b then 2 * WAL_RECORD_SIZE else WAL_RECORD_SIZE)"

text \<open>A slice \<open>buffer[start .. start + n]\<close> is updated in place by an operation on it.\<close>

definition update_slice :: "nat \<Rightarrow> nat \<Rightarrow> (bytes \<Rightarrow> bytes option) \<Rightarrow> bytes \<Rightarrow> bytes option" where
  "update_slice start n f buf = do {
     ensure (start + n \<le> length buf);
     window \<leftarrow> f (read_at start n buf);
     Some (write_at start window buf) }"

text \<open>The second half of \<open>reserve_active_record_slot_locked\<close>, after a full buffer has been sealed:
  a new batch is opened if there is none, and the positions of the slot are returned.\<close>

definition open_record_slot :: "WalBuffer \<Rightarrow> (WalBuffer \<times> nat \<times> nat \<times> nat) option" where
  "open_record_slot b = do {
     b \<leftarrow> (if needs_new_batch b then do {
            let meta_start = wb_used b;
            buf \<leftarrow> update_slice meta_start WAL_RECORD_SIZE init_batch_meta (wb_buffer b);
            Some (b\<lparr> wb_buffer := buf, wb_used := meta_start + WAL_RECORD_SIZE,
              wb_open_batch_meta_offset := Some meta_start, wb_open_batch_count := 0 \<rparr>) }
          else Some b);
     meta_start \<leftarrow> wb_open_batch_meta_offset b;
     Some (b, meta_start, wb_open_batch_count b, wb_used b) }"

definition entry_completes :: "BatchEntry \<Rightarrow> bool" where
  "entry_completes entry = (be_kind entry = RECORD_KIND_PAGE_IMAGE \<or>
     be_kind entry = RECORD_KIND_LOGICAL_PACKED \<or>
     be_flags entry AND LOGICAL_FLAG_LAST = LOGICAL_FLAG_LAST)"

definition finish_active_record_slot_locked ::
    "WalBuffer \<Rightarrow> nat \<Rightarrow> nat \<Rightarrow> BatchEntry \<Rightarrow> WalBuffer option" where
  "finish_active_record_slot_locked b meta_start slot_idx entry = do {
     let data_end = wb_used b + WAL_RECORD_SIZE;
     buf \<leftarrow> update_slice meta_start WAL_RECORD_SIZE (write_batch_entry slot_idx entry) (wb_buffer b);
     let batch_count = wb_open_batch_count b + 1;
     buf \<leftarrow> update_slice meta_start WAL_RECORD_SIZE (set_batch_meta_count batch_count) buf;
     let b = b\<lparr> wb_buffer := buf, wb_open_batch_count := batch_count,
       wb_max_batch_records := max (wb_max_batch_records b) batch_count,
       wb_used := data_end, wb_records := wb_records b + 1 \<rparr>;
     let b = (if entry_completes entry then b\<lparr> wb_max_lsn := max (wb_max_lsn b) (be_lsn entry) \<rparr> else b);
     Some (if batch_count = BATCH_MAX_RECORDS
           then b\<lparr> wb_open_batch_meta_offset := None, wb_open_batch_count := 0 \<rparr> else b) }"

section \<open>Appending\<close>

text \<open>A record slot is reserved, its data page is filled and its entry is written; \<open>data\<close> is the
  content the caller gives the page. \<open>reserve_active_record_slot_locked\<close> first forgets the packed
  slot.\<close>

definition append_entry :: "BatchEntry \<Rightarrow> bytes \<Rightarrow> WalBuffer \<Rightarrow> (WalBuffer \<times> nat \<times> nat \<times> nat) option" where
  "append_entry entry data b = do {
     (b, meta_start, slot_idx, data_start) \<leftarrow> open_record_slot (b\<lparr> wb_packed_logical := None \<rparr>);
     ensure (data_start + WAL_RECORD_SIZE \<le> length (wb_buffer b));
     ensure (length data = WAL_RECORD_SIZE);
     let b = b\<lparr> wb_buffer := write_at data_start data (wb_buffer b) \<rparr>;
     b \<leftarrow> finish_active_record_slot_locked b meta_start slot_idx entry;
     Some (b, meta_start, slot_idx, data_start) }"

text \<open>\<open>slot.fill(0); slot[..chunk.len()].copy_from_slice(chunk)\<close>\<close>

definition padded :: "bytes \<Rightarrow> bytes" where
  "padded chunk = chunk @ replicate (WAL_RECORD_SIZE - length chunk) 0"

definition append_packed_slot :: "Lsn \<Rightarrow> u64 \<Rightarrow> bytes \<Rightarrow> WalBuffer \<Rightarrow> WalBuffer option" where
  "append_packed_slot lsn kind payload b = do {
     (data, written) \<leftarrow> encode_packed_logical_entry (replicate WAL_RECORD_SIZE 0) lsn kind payload;
     (b, meta_start, slot_idx, data_start) \<leftarrow> append_entry (packed_logical lsn 0 written) data b;
     Some (b\<lparr> wb_packed_logical := Some \<lparr> ps_meta_start = meta_start, ps_slot_idx = slot_idx,
       ps_data_start = data_start, ps_len = written, ps_max_lsn = lsn \<rparr> \<rparr>) }"

text \<open>The attempt to put a packed record behind the previous one: the buffer, and whether it was
  added.\<close>

definition try_append_packed_logical_locked ::
    "Lsn \<Rightarrow> u64 \<Rightarrow> bytes \<Rightarrow> nat \<Rightarrow> WalBuffer \<Rightarrow> (WalBuffer \<times> bool) option" where
  "try_append_packed_logical_locked lsn kind payload entry_len b =
     (case wb_packed_logical b of
        None \<Rightarrow> Some (b, False)
      | Some ps \<Rightarrow>
          if wb_used b \<noteq> ps_data_start ps + WAL_RECORD_SIZE
          then Some (b\<lparr> wb_packed_logical := None \<rparr>, False)
          else (case checked_add (ps_len ps) entry_len of
            None \<Rightarrow> Some (b, False)
          | Some new_len \<Rightarrow>
              if new_len > WAL_RECORD_SIZE then Some (b, False)
              else do {
                let data_start = ps_data_start ps + ps_len ps;
                ensure (ps_data_start ps + WAL_RECORD_SIZE \<le> length (wb_buffer b));
                let window = read_at data_start (WAL_RECORD_SIZE - ps_len ps) (wb_buffer b);
                (case encode_packed_logical_entry window lsn kind payload of
                  None \<Rightarrow> Some (b, False)
                | Some (window, written) \<Rightarrow> do {
                    ensure (written = entry_len);
                    let buf = write_at data_start window (wb_buffer b);
                    let max_lsn = max (ps_max_lsn ps) lsn;
                    buf \<leftarrow> update_slice (ps_meta_start ps) WAL_RECORD_SIZE
                      (write_batch_entry (ps_slot_idx ps) (packed_logical max_lsn 0 new_len)) buf;
                    Some (b\<lparr> wb_buffer := buf,
                      wb_packed_logical := Some (ps\<lparr> ps_len := new_len, ps_max_lsn := max_lsn \<rparr>),
                      wb_max_lsn := max (wb_max_lsn b) max_lsn \<rparr>, True) }) }))"

text \<open>Overwriting a page image that is still in the active buffer.\<close>

definition overwrite_buffered_page_image ::
    "u32 \<Rightarrow> Lsn \<Rightarrow> PageId \<Rightarrow> bytes \<Rightarrow> WalBuffer \<Rightarrow> (WalBuffer \<times> bool) option" where
  "overwrite_buffered_page_image off lsn page_id page b =
     (let (meta_start, slot_idx) = decode_record_offset off in
      if meta_start + WAL_RECORD_SIZE > wb_used b then Some (b, False)
      else do {
        ensure (meta_start + WAL_RECORD_SIZE \<le> length (wb_buffer b));
        let meta = read_at meta_start WAL_RECORD_SIZE (wb_buffer b);
        (case batch_meta_count_unchecked meta of
          None \<Rightarrow> Some (b, False)
        | Some count \<Rightarrow>
            if slot_idx \<ge> count then Some (b, False)
            else do {
              entry \<leftarrow> read_batch_entry meta slot_idx;
              if be_kind entry \<noteq> RECORD_KIND_PAGE_IMAGE \<or> be_arg entry \<noteq> page_id then Some (b, False)
              else do {
                meta \<leftarrow> overwrite_batch_entry_lsn slot_idx lsn meta;
                meta \<leftarrow> overwrite_batch_entry_crc slot_idx 0 meta;
                let buf = write_at meta_start meta (wb_buffer b);
                let data_start = meta_start + WAL_RECORD_SIZE * (slot_idx + 1);
                ensure (data_start + WAL_RECORD_SIZE \<le> length buf);
                ensure (length page = PAGE_SIZE);
                Some (b\<lparr> wb_buffer := write_at data_start page buf,
                  wb_max_lsn := max (wb_max_lsn b) lsn \<rparr>, True) } }) })"

section \<open>Checksums of a sealed buffer\<close>

definition record_crc :: "crc_fn \<Rightarrow> BatchEntry \<Rightarrow> bytes \<Rightarrow> u32 option" where
  "record_crc crc entry data =
     (if be_kind entry = RECORD_KIND_PAGE_IMAGE then do {
        ensure (length data = PAGE_SIZE);
        Some (page_crc crc data) }
      else if be_kind entry = RECORD_KIND_LOGICAL \<or> be_kind entry = RECORD_KIND_LOGICAL_PACKED then do {
        ensure (unat (be_len entry) \<le> length data);
        Some (payload_crc crc (take (unat (be_len entry)) data)) }
      else None)"

fun finalize_entries :: "crc_fn \<Rightarrow> nat \<Rightarrow> nat list \<Rightarrow> bytes \<Rightarrow> bytes option" where
  "finalize_entries crc offset [] buf = Some buf"
| "finalize_entries crc offset (idx # idxs) buf = do {
     let page_offset = offset + WAL_RECORD_SIZE * (idx + 1);
     ensure (page_offset + WAL_RECORD_SIZE \<le> length buf);
     entry \<leftarrow> read_batch_entry (read_at offset WAL_RECORD_SIZE buf) idx;
     c \<leftarrow> record_crc crc entry (read_at page_offset WAL_RECORD_SIZE buf);
     buf \<leftarrow> update_slice offset WAL_RECORD_SIZE (overwrite_batch_entry_crc idx c) buf;
     finalize_entries crc offset idxs buf }"

function finalize_batches :: "crc_fn \<Rightarrow> nat \<Rightarrow> nat \<Rightarrow> bytes \<Rightarrow> bytes option" where
  "finalize_batches crc len offset buf =
     (if offset < len then do {
        let meta_end = offset + WAL_RECORD_SIZE;
        ensure (meta_end \<le> length buf);
        count \<leftarrow> batch_meta_count_unchecked (read_at offset WAL_RECORD_SIZE buf);
        buf \<leftarrow> finalize_entries crc offset [0..<count] buf;
        buf \<leftarrow> update_slice offset WAL_RECORD_SIZE (finalize_batch_meta crc) buf;
        finalize_batches crc len (meta_end + count * WAL_RECORD_SIZE) buf }
      else do { ensure (offset = len); Some buf })"
  by pat_completeness auto
termination
  by (relation "measure (\<lambda>(crc, len, offset, buf). len - offset)")
    (auto simp: WAL_RECORD_SIZE_def PAGE_SIZE_def)

definition finalize_buffer_records :: "crc_fn \<Rightarrow> nat \<Rightarrow> WalBuffer \<Rightarrow> WalBuffer option" where
  "finalize_buffer_records crc len b = do {
     buf \<leftarrow> finalize_batches crc len 0 (wb_buffer b);
     Some (b\<lparr> wb_buffer := buf \<rparr>) }"

section \<open>The entries of a buffer\<close>

text \<open>The abstract content of a buffer: its batches, each a list of entries with their data pages.\<close>

type_synonym log_entry = "BatchEntry \<times> bytes"

definition meta_holds :: "bytes \<Rightarrow> BatchEntry list \<Rightarrow> bool" where
  "meta_holds meta es = (length meta = PAGE_SIZE \<and> batch_meta_count_unchecked meta = Some (length es) \<and>
     (\<forall>i < length es. read_batch_entry meta i = Some (es ! i)))"

definition batch_ok :: "bytes \<Rightarrow> log_entry list \<Rightarrow> bool" where
  "batch_ok bs rs = (\<exists>meta. bs = meta @ concat (map snd rs) \<and> meta_holds meta (map fst rs) \<and>
     (\<forall>r \<in> set rs. length (snd r) = PAGE_SIZE))"

definition batches_in :: "bytes \<Rightarrow> log_entry list list \<Rightarrow> bool" where
  "batches_in bs rss = (\<exists>bss. bs = concat bss \<and> list_all2 batch_ok bss rss)"

definition log_bytes :: "log_entry list list \<Rightarrow> nat" where
  "log_bytes rss = (\<Sum>rs \<leftarrow> rss. (length rs + 1) * PAGE_SIZE)"

lemma log_bytes_simps [simp]:
  "log_bytes [] = 0" "log_bytes (rs # rss) = (length rs + 1) * PAGE_SIZE + log_bytes rss"
  "log_bytes (rss @ qss) = log_bytes rss + log_bytes qss"
  by (simp_all add: log_bytes_def)

lemma length_data_pages:
  "\<forall>r \<in> set rs. length (snd r) = n \<Longrightarrow> length (concat (map snd rs)) = length rs * n"
  by (induction rs) auto

lemma batch_ok_length: "batch_ok bs rs \<Longrightarrow> length bs = (length rs + 1) * PAGE_SIZE"
  by (auto simp: batch_ok_def meta_holds_def length_data_pages)

lemma batches_in_Nil [simp]: "batches_in bs [] \<longleftrightarrow> bs = []"
  by (simp add: batches_in_def)

lemma batches_in_length: "batches_in bs rss \<Longrightarrow> length bs = log_bytes rss"
proof -
  have "length (concat bss) = log_bytes rss" if "list_all2 batch_ok bss rss" for bss
    using that by (induction rule: list_all2_induct) (simp_all add: batch_ok_length)
  then show "batches_in bs rss \<Longrightarrow> length bs = log_bytes rss" by (auto simp: batches_in_def)
qed

lemma batches_in_append:
  "batches_in A rss \<Longrightarrow> batch_ok bs rs \<Longrightarrow> batches_in (A @ bs) (rss @ [rs])"
  unfolding batches_in_def
  by (elim exE conjE) (rule exI [of _ "_ @ [bs]"], auto simp: list_all2_appendI)

lemma batches_in_snoc:
  assumes "batches_in bs (rss @ [rs])"
  obtains A B where "bs = A @ B" "batches_in A rss" "batch_ok B rs"
proof -
  obtain bss where b: "bs = concat bss" "list_all2 batch_ok bss (rss @ [rs])"
    using assms by (auto simp: batches_in_def)
  then obtain us u where "bss = us @ [u]" "list_all2 batch_ok us rss" "batch_ok u rs"
    by (auto simp: list_all2_append2 list_all2_Cons2)
  then show ?thesis using b(1) by (intro that [of "concat us" u]) (auto simp: batches_in_def)
qed

lemma update_slice_mid:
  assumes "length meta = n" "f meta = Some meta'" "length meta' = n"
  shows "update_slice (length A) n f (A @ meta @ X) = Some (A @ meta' @ X)"
  using assms by (simp add: update_slice_def read_at_def write_at_def)

section \<open>An open slot\<close>

text \<open>The state between \<open>open_record_slot\<close> and \<open>finish_active_record_slot_locked\<close>: the last batch
  holds \<open>rs\<close>, possibly nothing yet.\<close>

definition slot_ready :: "WalBuffer \<Rightarrow> log_entry list list \<Rightarrow> log_entry list \<Rightarrow> bool" where
  "slot_ready b init rs = (\<exists>A meta R. wb_buffer b = A @ meta @ concat (map snd rs) @ R \<and>
     batches_in A init \<and> length meta = PAGE_SIZE \<and>
     rd 4 0 meta = BATCH_META_MAGIC \<and> rd 2 4 meta = WAL_VERSION \<and>
     (\<forall>i < length rs. read_batch_entry meta i = Some (fst (rs ! i))) \<and>
     (\<forall>r \<in> set rs. length (snd r) = PAGE_SIZE) \<and> length rs < BATCH_MAX_RECORDS \<and>
     wb_used b = log_bytes init + (length rs + 1) * PAGE_SIZE \<and>
     wb_open_batch_meta_offset b = Some (log_bytes init) \<and> wb_open_batch_count b = length rs)"

definition buffer_holds :: "WalBuffer \<Rightarrow> log_entry list list \<Rightarrow> bool" where
  "buffer_holds b rss = (wb_used b \<le> length (wb_buffer b) \<and>
     batches_in (take (wb_used b) (wb_buffer b)) rss \<and>
     (\<forall>m. wb_open_batch_meta_offset b = Some m \<longrightarrow>
       (\<exists>init rs. rss = init @ [rs] \<and> m = log_bytes init \<and> wb_open_batch_count b = length rs \<and>
         length rs < BATCH_MAX_RECORDS)))"

lemma buffer_holds_used: "buffer_holds b rss \<Longrightarrow> wb_used b = log_bytes rss"
  using batches_in_length [of "take (wb_used b) (wb_buffer b)" rss] by (simp add: buffer_holds_def)

lemma meta_count_magic:
  "batch_meta_count_unchecked meta = Some n \<Longrightarrow>
    rd 4 0 meta = BATCH_META_MAGIC \<and> rd 2 4 meta = WAL_VERSION \<and> 0 < n \<and> n \<le> BATCH_MAX_RECORDS"
  by (auto simp: batch_meta_count_unchecked_def batch_layout bind_eq_Some_conv Let_def)

lemma open_slot_existing:
  assumes "buffer_holds b rss" "\<not> needs_new_batch b"
  shows "\<exists>init rs. rss = init @ [rs] \<and> slot_ready b init rs \<and>
    open_record_slot b = Some (b, log_bytes init, length rs, wb_used b)"
proof -
  obtain m where m: "wb_open_batch_meta_offset b = Some m" using assms(2) by (auto simp: needs_new_batch_def)
  then obtain init rs where rss: "rss = init @ [rs]" "m = log_bytes init"
    "wb_open_batch_count b = length rs" "length rs < BATCH_MAX_RECORDS"
    using assms(1) by (auto simp: buffer_holds_def)
  let ?t = "take (wb_used b) (wb_buffer b)"
  have bt: "batches_in ?t (init @ [rs])" using assms(1) rss(1) by (simp add: buffer_holds_def)
  then obtain A B where AB: "?t = A @ B" "batches_in A init" "batch_ok B rs" by (rule batches_in_snoc)
  then obtain meta where meta: "B = meta @ concat (map snd rs)" "meta_holds meta (map fst rs)"
    "\<forall>r \<in> set rs. length (snd r) = PAGE_SIZE"
    by (auto simp: batch_ok_def)
  have "wb_buffer b = ?t @ drop (wb_used b) (wb_buffer b)" by simp
  then have buf: "wb_buffer b = A @ meta @ concat (map snd rs) @ drop (wb_used b) (wb_buffer b)"
    unfolding AB(1) meta(1) by simp
  have "slot_ready b init rs"
    unfolding slot_ready_def
    using buf AB(2) meta(2,3) meta_count_magic [of meta "length rs"] rss m buffer_holds_used [OF assms(1)]
    by (intro exI [of _ A] exI [of _ meta] exI [of _ "drop (wb_used b) (wb_buffer b)"])
      (auto simp: meta_holds_def)
  then show ?thesis using rss m assms(2) by (auto simp: open_record_slot_def)
qed

lemma open_slot_new:
  assumes "buffer_holds b rss" "needs_new_batch b" "wb_used b + PAGE_SIZE \<le> length (wb_buffer b)"
  shows "\<exists>b'. open_record_slot b = Some (b', log_bytes rss, 0, wb_used b') \<and> slot_ready b' rss [] \<and>
    length (wb_buffer b') = length (wb_buffer b) \<and>
    b' = b\<lparr> wb_buffer := wb_buffer b', wb_used := wb_used b + PAGE_SIZE,
      wb_open_batch_meta_offset := Some (wb_used b), wb_open_batch_count := 0 \<rparr>"
proof -
  let ?A = "take (wb_used b) (wb_buffer b)" and ?W = "read_at (wb_used b) PAGE_SIZE (wb_buffer b)"
  let ?R = "drop (wb_used b + PAGE_SIZE) (wb_buffer b)"
  have buf: "wb_buffer b = ?A @ ?W @ ?R"
    by (simp add: read_at_def) (metis append_take_drop_id drop_drop add.commute)
  have lA: "length ?A = wb_used b" and lW: "length ?W = PAGE_SIZE" using assms(3) by simp_all
  obtain meta where meta: "init_batch_meta ?W = Some meta" "length meta = PAGE_SIZE"
    "rd 4 0 meta = BATCH_META_MAGIC" "rd 2 4 meta = WAL_VERSION"
    using init_batch_meta_run [OF lW] by blast
  have "update_slice (length ?A) PAGE_SIZE init_batch_meta (?A @ ?W @ ?R) = Some (?A @ meta @ ?R)"
    by (rule update_slice_mid) (use lW meta in auto)
  then have up: "update_slice (wb_used b) PAGE_SIZE init_batch_meta (wb_buffer b) = Some (?A @ meta @ ?R)"
    using buf lA by metis
  let ?b = "b\<lparr> wb_buffer := ?A @ meta @ ?R, wb_used := wb_used b + PAGE_SIZE,
    wb_open_batch_meta_offset := Some (wb_used b), wb_open_batch_count := 0 \<rparr>"
  have u: "wb_used b = log_bytes rss" by (rule buffer_holds_used [OF assms(1)])
  have "slot_ready ?b rss []"
    unfolding slot_ready_def using assms(1) meta u
    by (intro exI [of _ ?A] exI [of _ meta] exI [of _ ?R])
      (auto simp: buffer_holds_def BATCH_MAX_RECORDS_def PAGE_SIZE_def batch_layout)
  moreover have "length (?A @ meta @ ?R) = length (wb_buffer b)" using assms(3) meta(2) by simp
  ultimately show ?thesis
    using up assms(2) u
    by (intro exI [of _ ?b]) (simp add: open_record_slot_def WAL_RECORD_SIZE_def Let_def)
qed

lemma finish_slot:
  assumes "slot_ready b init rs" "wb_used b + PAGE_SIZE \<le> length (wb_buffer b)" "length data = PAGE_SIZE"
  shows "\<exists>b'. finish_active_record_slot_locked
      (b\<lparr> wb_buffer := write_at (wb_used b) data (wb_buffer b) \<rparr>) (log_bytes init) (length rs) entry = Some b' \<and>
    buffer_holds b' (init @ [rs @ [(entry, data)]]) \<and> wb_used b' = wb_used b + PAGE_SIZE \<and>
    length (wb_buffer b') = length (wb_buffer b) \<and> wb_epoch b' = wb_epoch b \<and>
    wb_packed_logical b' = wb_packed_logical b \<and> wb_records b' = wb_records b + 1 \<and>
    wb_max_lsn b' = (if entry_completes entry then max (wb_max_lsn b) (be_lsn entry) else wb_max_lsn b)"
proof -
  let ?D = "concat (map snd rs)" and ?i = "length rs"
  obtain A meta R where b: "wb_buffer b = A @ meta @ ?D @ R" "batches_in A init" "length meta = PAGE_SIZE"
    "rd 4 0 meta = BATCH_META_MAGIC" "rd 2 4 meta = WAL_VERSION"
    "\<forall>i < ?i. read_batch_entry meta i = Some (fst (rs ! i))" "\<forall>r \<in> set rs. length (snd r) = PAGE_SIZE"
    "?i < BATCH_MAX_RECORDS" "wb_used b = log_bytes init + (?i + 1) * PAGE_SIZE"
    "wb_open_batch_meta_offset b = Some (log_bytes init)" "wb_open_batch_count b = ?i"
    using assms(1) unfolding slot_ready_def by blast
  have lA: "length A = log_bytes init" by (rule batches_in_length [OF b(2)])
  have lD: "length ?D = ?i * PAGE_SIZE" by (rule length_data_pages [OF b(7)])
  have lu: "wb_used b = length (A @ meta @ ?D)" using b(3,9) lA lD by simp
  have "length R \<ge> PAGE_SIZE" using assms(2) lu b(1) by simp
  then have w: "write_at (wb_used b) data (wb_buffer b) = A @ meta @ ?D @ data @ drop PAGE_SIZE R"
    using assms(3) unfolding b(1) lu by (simp add: write_at_def)
  obtain m1 where m1: "write_batch_entry ?i entry meta = Some m1" "read_batch_entry m1 ?i = Some entry"
    "entry_changed ?i meta m1"
    using write_batch_entry_run [OF b(3,8)] by blast
  have m1h: "length m1 = PAGE_SIZE" "take 16 m1 = take 16 meta" using m1(3) by (simp_all add: entry_changed_def)
  have "rd 4 0 m1 = BATCH_META_MAGIC" "rd 2 4 m1 = WAL_VERSION"
    using b(4,5) rd_take_cong [OF m1h(2), of 0 4] rd_take_cong [OF m1h(2), of 4 2] by simp_all
  then obtain m2 where m2: "set_batch_meta_count (?i + 1) m1 = Some m2" "length m2 = PAGE_SIZE"
    "batch_meta_count_unchecked m2 = Some (?i + 1)" "\<forall>j. read_batch_entry m2 j = read_batch_entry m1 j"
    using set_batch_meta_count_run [OF m1h(1), of "?i + 1"] b(8) by auto
  have "read_batch_entry m2 i = Some (map fst (rs @ [(entry, data)]) ! i)" if "i < ?i + 1" for i
    using that m1(2,3) m2(4) b(6) by (cases "i = ?i") (auto simp: entry_changed_def nth_append)
  then have "meta_holds m2 (map fst (rs @ [(entry, data)]))" using m2(2,3) by (simp add: meta_holds_def)
  then have "batch_ok (m2 @ ?D @ data) (rs @ [(entry, data)])"
    using b(7) assms(3) by (auto simp: batch_ok_def)
  then have bt: "batches_in (A @ m2 @ ?D @ data) (init @ [rs @ [(entry, data)]])"
    by (rule batches_in_append [OF b(2)])
  define X where "X = A @ m2 @ ?D @ data @ drop PAGE_SIZE R"
  have up1: "update_slice (length A) PAGE_SIZE (write_batch_entry ?i entry) (A @ meta @ ?D @ data @ drop PAGE_SIZE R) =
      Some (A @ m1 @ ?D @ data @ drop PAGE_SIZE R)"
    by (rule update_slice_mid) (use b(3) m1 m1h in auto)
  have up2: "update_slice (length A) PAGE_SIZE (set_batch_meta_count (?i + 1)) (A @ m1 @ ?D @ data @ drop PAGE_SIZE R) =
      Some X"
    unfolding X_def by (rule update_slice_mid) (use m2 m1h in auto)
  have tX: "take (wb_used b + PAGE_SIZE) X = A @ m2 @ ?D @ data"
    using lu b(3) m2(2) assms(3) by (simp add: X_def)
  have lX: "length X = length (wb_buffer b)" "wb_used b + PAGE_SIZE \<le> length X"
    using b(1,3) m2(2) assms(3) \<open>length R \<ge> PAGE_SIZE\<close> lu by (simp_all add: X_def)
  show ?thesis
    using up1 up2 w lA b(8,10,11) bt tX lX
    by (simp add: finish_active_record_slot_locked_def buffer_holds_def WAL_RECORD_SIZE_def Let_def)
qed

text \<open>Appending an entry to a buffer with room puts it behind the others.\<close>

lemma append_entry_holds:
  assumes "buffer_holds b rss" "wb_used b + record_bytes_needed b \<le> length (wb_buffer b)"
    and "length data = PAGE_SIZE"
  shows "\<exists>b' init rs. append_entry entry data b =
      Some (b', log_bytes init, length rs, log_bytes init + (length rs + 1) * PAGE_SIZE) \<and>
    buffer_holds b' (init @ [rs @ [(entry, data)]]) \<and> concat init @ rs = concat rss \<and>
    wb_used b' = wb_used b + record_bytes_needed b \<and>
    length (wb_buffer b') = length (wb_buffer b) \<and> wb_epoch b' = wb_epoch b \<and>
    wb_packed_logical b' = None \<and> wb_records b' = wb_records b + 1 \<and>
    wb_max_lsn b' = (if entry_completes entry then max (wb_max_lsn b) (be_lsn entry) else wb_max_lsn b)"
proof -
  let ?b = "b\<lparr> wb_packed_logical := None \<rparr>"
  have h: "buffer_holds ?b rss" using assms(1) by (simp add: buffer_holds_def)
  have n: "needs_new_batch ?b = needs_new_batch b" by (simp add: needs_new_batch_def)
  have "\<exists>c init rs. open_record_slot ?b = Some (c, log_bytes init, length rs, wb_used c) \<and>
      slot_ready c init rs \<and> concat init @ rs = concat rss \<and>
      wb_used c + PAGE_SIZE = wb_used b + record_bytes_needed b \<and>
      length (wb_buffer c) = length (wb_buffer b) \<and> wb_epoch c = wb_epoch b \<and>
      wb_packed_logical c = None \<and> wb_records c = wb_records b \<and> wb_max_lsn c = wb_max_lsn b"
  proof (cases "needs_new_batch b")
    case True
    then have "wb_used ?b + PAGE_SIZE \<le> length (wb_buffer ?b)"
      using assms(2) by (simp add: record_bytes_needed_def WAL_RECORD_SIZE_def)
    from open_slot_new [OF h _ this] True n obtain c where c:
      "open_record_slot ?b = Some (c, log_bytes rss, 0, wb_used c)" "slot_ready c rss []"
      "length (wb_buffer c) = length (wb_buffer b)"
      "c = ?b\<lparr> wb_buffer := wb_buffer c, wb_used := wb_used ?b + PAGE_SIZE,
        wb_open_batch_meta_offset := Some (wb_used ?b), wb_open_batch_count := 0 \<rparr>"
      by auto
    have f: "wb_used c = wb_used b + PAGE_SIZE" "wb_epoch c = wb_epoch b" "wb_packed_logical c = None"
      "wb_records c = wb_records b" "wb_max_lsn c = wb_max_lsn b"
      by (subst c(4), simp)+
    show ?thesis
      using c(1-3) f True
      by (intro exI [of _ c] exI [of _ rss] exI [of _ "[]"]) (simp add: record_bytes_needed_def WAL_RECORD_SIZE_def)
  next
    case False
    then obtain init rs where "rss = init @ [rs]" "slot_ready ?b init rs"
      "open_record_slot ?b = Some (?b, log_bytes init, length rs, wb_used ?b)"
      using open_slot_existing [OF h] n by blast
    then show ?thesis using False
      by (intro exI [of _ ?b] exI [of _ init] exI [of _ rs]) (simp add: record_bytes_needed_def WAL_RECORD_SIZE_def)
  qed
  then obtain c init rs where c: "open_record_slot ?b = Some (c, log_bytes init, length rs, wb_used c)"
    "slot_ready c init rs" "concat init @ rs = concat rss"
    "wb_used c + PAGE_SIZE = wb_used b + record_bytes_needed b"
    "length (wb_buffer c) = length (wb_buffer b)" "wb_epoch c = wb_epoch b" "wb_packed_logical c = None"
    "wb_records c = wb_records b" "wb_max_lsn c = wb_max_lsn b"
    by blast
  have u: "wb_used c = log_bytes init + (length rs + 1) * PAGE_SIZE" using c(2) by (auto simp: slot_ready_def)
  have room: "wb_used c + PAGE_SIZE \<le> length (wb_buffer c)" using c(4,5) assms(2) by simp
  obtain b' where b': "finish_active_record_slot_locked
      (c\<lparr> wb_buffer := write_at (wb_used c) data (wb_buffer c) \<rparr>) (log_bytes init) (length rs) entry = Some b'"
    "buffer_holds b' (init @ [rs @ [(entry, data)]])" "wb_used b' = wb_used c + PAGE_SIZE"
    "length (wb_buffer b') = length (wb_buffer c)" "wb_epoch b' = wb_epoch c"
    "wb_packed_logical b' = wb_packed_logical c" "wb_records b' = wb_records c + 1"
    "wb_max_lsn b' = (if entry_completes entry then max (wb_max_lsn c) (be_lsn entry) else wb_max_lsn c)"
    using finish_slot [OF c(2) room assms(3), of entry] by blast
  have "append_entry entry data b =
      Some (b', log_bytes init, length rs, log_bytes init + (length rs + 1) * PAGE_SIZE)"
    using c(1) b'(1) room assms(3) u by (simp add: append_entry_def WAL_RECORD_SIZE_def Let_def)
  then show ?thesis using b'(2-8) c(3-9) by (intro exI [of _ b'] exI [of _ init] exI [of _ rs]) simp
qed

section \<open>Changing a batch in place\<close>

lemma batches_in_join:
  assumes "batches_in A xs" "batch_ok B rs" "batches_in C ys"
  shows "batches_in (A @ B @ C) (xs @ rs # ys)"
proof -
  obtain as cs where "A = concat as" "list_all2 batch_ok as xs" "C = concat cs" "list_all2 batch_ok cs ys"
    using assms(1,3) by (auto simp: batches_in_def)
  then show ?thesis
    using assms(2) by (auto simp: batches_in_def list_all2_appendI intro!: exI [of _ "as @ B # cs"])
qed

lemma batches_in_split:
  assumes "batches_in bs (xs @ rs # ys)"
  obtains A meta C where "bs = A @ meta @ concat (map snd rs) @ C" "batches_in A xs"
    "meta_holds meta (map fst rs)" "\<forall>r \<in> set rs. length (snd r) = PAGE_SIZE" "batches_in C ys"
proof -
  obtain bss where b: "bs = concat bss" "list_all2 batch_ok bss (xs @ rs # ys)"
    using assms by (auto simp: batches_in_def)
  then obtain us u vs where u: "bss = us @ u # vs" "list_all2 batch_ok us xs" "batch_ok u rs"
    "list_all2 batch_ok vs ys"
    by (auto simp: list_all2_append2 list_all2_Cons2)
  then obtain meta where "u = meta @ concat (map snd rs)" "meta_holds meta (map fst rs)"
    "\<forall>r \<in> set rs. length (snd r) = PAGE_SIZE"
    by (auto simp: batch_ok_def)
  then show ?thesis
    using b(1) u by (intro that [of "concat us" meta "concat vs"]) (auto simp: batches_in_def)
qed

text \<open>The bytes of a buffer around one of its batches.\<close>

lemma buffer_split:
  assumes "buffer_holds b (xs @ rs # ys)"
  obtains A meta C R where "wb_buffer b = A @ meta @ concat (map snd rs) @ C @ R" "batches_in A xs"
    "meta_holds meta (map fst rs)" "\<forall>r \<in> set rs. length (snd r) = PAGE_SIZE" "batches_in C ys"
    "length A = log_bytes xs" "length meta = PAGE_SIZE"
    "wb_used b = length (A @ meta @ concat (map snd rs) @ C)"
proof -
  let ?t = "take (wb_used b) (wb_buffer b)"
  have t: "batches_in ?t (xs @ rs # ys)" "length ?t = wb_used b"
    using assms by (simp_all add: buffer_holds_def)
  obtain A meta C where s: "?t = A @ meta @ concat (map snd rs) @ C" "batches_in A xs"
    "meta_holds meta (map fst rs)" "\<forall>r \<in> set rs. length (snd r) = PAGE_SIZE" "batches_in C ys"
    using t(1) by (rule batches_in_split)
  have "wb_buffer b = ?t @ drop (wb_used b) (wb_buffer b)" by simp
  then have "wb_buffer b = A @ meta @ concat (map snd rs) @ C @ drop (wb_used b) (wb_buffer b)"
    unfolding s(1) by simp
  then show ?thesis
    using s t(2) batches_in_length [OF s(2)] that by (auto simp: meta_holds_def)
qed

lemma buffer_replace:
  assumes "buffer_holds b (xs @ rs # ys)" "batches_in A xs" "batch_ok B rs'" "batches_in C ys"
    and "length rs' = length rs" "wb_buffer b' = A @ B @ C @ R" "wb_used b' = wb_used b"
    and "wb_open_batch_meta_offset b' = wb_open_batch_meta_offset b"
    and "wb_open_batch_count b' = wb_open_batch_count b"
  shows "buffer_holds b' (xs @ rs' # ys)"
proof -
  have bt: "batches_in (A @ B @ C) (xs @ rs' # ys)" by (rule batches_in_join [OF assms(2-4)])
  have "length (A @ B @ C) = log_bytes (xs @ rs # ys)" using batches_in_length [OF bt] assms(5) by simp
  then have u: "wb_used b' = length (A @ B @ C)" using buffer_holds_used [OF assms(1)] assms(7) by simp
  have "\<exists>zs qs. xs @ rs' # ys = zs @ [qs] \<and> m = log_bytes zs \<and> wb_open_batch_count b' = length qs \<and>
      length qs < BATCH_MAX_RECORDS"
    if om: "wb_open_batch_meta_offset b' = Some m" for m
  proof -
    obtain zs qs where z: "xs @ rs # ys = zs @ [qs]" "m = log_bytes zs" "wb_open_batch_count b' = length qs"
      "length qs < BATCH_MAX_RECORDS"
      using assms(1) om unfolding buffer_holds_def assms(8,9) by blast
    show ?thesis
    proof (cases ys rule: rev_cases)
      case Nil
      then show ?thesis using z assms(5) by auto
    next
      case (snoc ws q)
      then have "zs = xs @ rs # ws" "qs = q" using z(1) by (auto simp flip: append_assoc append_Cons)
      then show ?thesis
        using z snoc assms(5) by (intro exI [of _ "xs @ rs' # ws"] exI [of _ q]) simp
    qed
  qed
  then show ?thesis using bt u assms(6) by (auto simp: buffer_holds_def)
qed

section \<open>Packed slots\<close>

definition packed_entry :: "(Lsn \<times> u64 \<times> bytes) list \<Rightarrow> Lsn \<Rightarrow> log_entry \<Rightarrow> bool" where
  "packed_entry recs lsn = (\<lambda>(e, d). let n = length (concat (map packed_bytes recs)) in
     e = packed_logical lsn 0 n \<and> length d = PAGE_SIZE \<and> n \<le> PAGE_SIZE \<and>
     take n d = concat (map packed_bytes recs))"

definition packed_slot_ok :: "WalBuffer \<Rightarrow> log_entry list list \<Rightarrow> bool" where
  "packed_slot_ok b rss = (\<forall>s. wb_packed_logical b = Some s \<longrightarrow> ps_max_lsn s \<le> wb_max_lsn b \<and>
     (\<exists>xs rs r recs. rss = xs @ [rs @ [r]] \<and> ps_meta_start s = log_bytes xs \<and>
       ps_slot_idx s = length rs \<and> ps_data_start s + PAGE_SIZE = wb_used b \<and>
       ps_len s = length (concat (map packed_bytes recs)) \<and> packed_entry recs (ps_max_lsn s) r))"

lemma append_packed_slot_holds:
  assumes "buffer_holds b rss" "wb_used b + record_bytes_needed b \<le> length (wb_buffer b)"
    and "length payload \<le> PACKED_LOGICAL_MAX_PAYLOAD_LEN"
  shows "\<exists>b' xs rs r. append_packed_slot lsn kind payload b = Some b' \<and>
    buffer_holds b' (xs @ [rs @ [r]]) \<and> packed_slot_ok b' (xs @ [rs @ [r]]) \<and>
    concat xs @ rs = concat rss \<and> packed_entry [(lsn, kind, payload)] lsn r \<and>
    wb_used b' = wb_used b + record_bytes_needed b \<and>
    length (wb_buffer b') = length (wb_buffer b) \<and> wb_epoch b' = wb_epoch b \<and>
    wb_max_lsn b' = max (wb_max_lsn b) lsn"
proof -
  let ?z = "replicate WAL_RECORD_SIZE 0 :: bytes" and ?p = "packed_bytes (lsn, kind, payload)"
  have fit: "20 + length payload \<le> PAGE_SIZE" "length ?z = PAGE_SIZE" "PAGE_SIZE < 2 ^ 32"
    using assms(3) by (simp_all add: PACKED_LOGICAL_MAX_PAYLOAD_LEN_def PACKED_LOGICAL_ENTRY_HEADER_LEN_def
        WAL_RECORD_SIZE_def PAGE_SIZE_def)
  let ?d = "write_at 0 ?p ?z" and ?e = "packed_logical lsn 0 (20 + length payload)"
  have enc: "encode_packed_logical_entry ?z lsn kind payload = Some (?d, 20 + length payload)"
    by (rule encode_packed_run) (use fit in simp_all)
  have ld: "length ?d = PAGE_SIZE" using fit by simp
  have pe: "packed_entry [(lsn, kind, payload)] lsn (?e, ?d)"
    using fit ld by (simp add: packed_entry_def write_at_def Let_def)
  obtain b' xs rs where b': "append_entry ?e ?d b =
      Some (b', log_bytes xs, length rs, log_bytes xs + (length rs + 1) * PAGE_SIZE)"
    "buffer_holds b' (xs @ [rs @ [(?e, ?d)]])" "concat xs @ rs = concat rss"
    "wb_used b' = wb_used b + record_bytes_needed b" "length (wb_buffer b') = length (wb_buffer b)"
    "wb_epoch b' = wb_epoch b"
    "wb_max_lsn b' = (if entry_completes ?e then max (wb_max_lsn b) (be_lsn ?e) else wb_max_lsn b)"
    using append_entry_holds [OF assms(1,2) ld, of ?e] by blast
  let ?s = "\<lparr> ps_meta_start = log_bytes xs, ps_slot_idx = length rs,
    ps_data_start = log_bytes xs + (length rs + 1) * PAGE_SIZE, ps_len = 20 + length payload, ps_max_lsn = lsn \<rparr>"
  let ?b = "b'\<lparr> wb_packed_logical := Some ?s \<rparr>"
  have "wb_used b' = log_bytes xs + (length rs + 1) * PAGE_SIZE + PAGE_SIZE"
    using buffer_holds_used [OF b'(2)] by simp
  moreover have cp: "entry_completes ?e" "be_lsn ?e = lsn" by (simp_all add: entry_completes_def packed_logical_def)
  ultimately have "packed_slot_ok ?b (xs @ [rs @ [(?e, ?d)]])"
    unfolding packed_slot_ok_def using pe b'(7)
    by (auto intro!: exI [of _ xs] exI [of _ rs] exI [of _ "(?e, ?d)"] exI [of _ "[(lsn, kind, payload)]"])
  moreover have "buffer_holds ?b (xs @ [rs @ [(?e, ?d)]])" using b'(2) by (simp add: buffer_holds_def)
  moreover have "append_packed_slot lsn kind payload b = Some ?b"
    using enc b'(1) by (simp add: append_packed_slot_def)
  ultimately show ?thesis
    using b'(3-7) pe cp by (intro exI [of _ ?b] exI [of _ xs] exI [of _ rs] exI [of _ "(?e, ?d)"]) simp
qed

lemma try_append_packed_holds:
  assumes "buffer_holds b rss" "packed_slot_ok b rss"
    and "length payload \<le> PACKED_LOGICAL_MAX_PAYLOAD_LEN"
  shows "try_append_packed_logical_locked lsn kind payload (20 + length payload) b = Some (b, False) \<or>
    (\<exists>b' xs rs r recs l r'. try_append_packed_logical_locked lsn kind payload (20 + length payload) b = Some (b', True) \<and>
      rss = xs @ [rs @ [r]] \<and> packed_entry recs l r \<and>
      buffer_holds b' (xs @ [rs @ [r']]) \<and> packed_slot_ok b' (xs @ [rs @ [r']]) \<and>
      packed_entry (recs @ [(lsn, kind, payload)]) (max l lsn) r' \<and>
      wb_used b' = wb_used b \<and> length (wb_buffer b') = length (wb_buffer b) \<and> wb_epoch b' = wb_epoch b \<and>
      wb_max_lsn b' = max (wb_max_lsn b) lsn)"
proof (cases "wb_packed_logical b")
  case None
  then show ?thesis by (simp add: try_append_packed_logical_locked_def)
next
  case (Some s)
  let ?n = "20 + length payload" and ?p = "packed_bytes (lsn, kind, payload)"
  obtain xs rs r recs where sl: "rss = xs @ [rs @ [r]]" "ps_meta_start s = log_bytes xs"
    "ps_slot_idx s = length rs" "ps_data_start s + PAGE_SIZE = wb_used b"
    "ps_len s = length (concat (map packed_bytes recs))" "packed_entry recs (ps_max_lsn s) r"
    "ps_max_lsn s \<le> wb_max_lsn b"
    using assms(2) Some by (auto simp: packed_slot_ok_def)
  obtain e d where r: "r = (e, d)" by (cases r)
  let ?l = "ps_len s" and ?C = "concat (map packed_bytes recs)"
  have d: "length d = PAGE_SIZE" "?l \<le> PAGE_SIZE" "take ?l d = ?C"
    using sl(5,6) r by (auto simp: packed_entry_def Let_def)
  have small: "?l + ?n < 2 ^ 64" using d(2) assms(3)
    by (simp add: PACKED_LOGICAL_MAX_PAYLOAD_LEN_def PAGE_SIZE_def)
  show ?thesis
  proof (cases "?l + ?n \<le> PAGE_SIZE")
    case False
    then show ?thesis
      using Some sl(4) small by (simp add: try_append_packed_logical_locked_def checked_add_def WAL_RECORD_SIZE_def)
  next
    case True
    obtain A meta C R where b: "wb_buffer b = A @ meta @ concat (map snd (rs @ [r])) @ C @ R" "batches_in A xs"
      "meta_holds meta (map fst (rs @ [r]))" "\<forall>q \<in> set (rs @ [r]). length (snd q) = PAGE_SIZE" "batches_in C []"
      "length A = log_bytes xs" "length meta = PAGE_SIZE"
      "wb_used b = length (A @ meta @ concat (map snd (rs @ [r])) @ C)"
      by (rule buffer_split [of b xs "rs @ [r]" "[]"]) (use assms(1) sl(1) in auto)
    let ?D = "concat (map snd rs)"
    define w where "w = drop ?l d"
    have dw: "d = ?C @ w" "length w = PAGE_SIZE - ?l" using d by (auto simp: w_def simp flip: d(3))
    let ?w = "write_at 0 ?p w" and ?max = "max (ps_max_lsn s) lsn"
    let ?e = "packed_logical ?max 0 (?l + ?n)" and ?d = "?C @ write_at 0 ?p w"
    have lw: "length ?w = length w" using True dw by simp
    have buf: "wb_buffer b = (A @ meta @ ?D @ ?C) @ w @ R" "C = []" using b(1,5) r dw by simp_all
    have ds: "ps_data_start s + ?l = length (A @ meta @ ?D @ ?C)"
      using b(8) sl(4,5) r d(1) buf(2) by simp
    have enc: "encode_packed_logical_entry w lsn kind payload = Some (?w, ?n)"
      using True dw(2) by (intro encode_packed_run) (simp_all add: PAGE_SIZE_def)
    have win: "read_at (ps_data_start s + ?l) (PAGE_SIZE - ?l) (wb_buffer b) = w"
      unfolding ds buf(1) using dw(2) by (simp add: read_at_def)
    have wr: "write_at (ps_data_start s + ?l) ?w (wb_buffer b) = A @ meta @ ?D @ ?d @ R"
      unfolding ds buf(1) using lw by (simp add: write_at_def)
    have idx: "length rs < BATCH_MAX_RECORDS"
      using b(3) meta_count_magic [of meta "length rs + 1"] by (simp add: meta_holds_def)
    obtain m1 where m1: "write_batch_entry (length rs) ?e meta = Some m1"
      "read_batch_entry m1 (length rs) = Some ?e" "entry_changed (length rs) meta m1"
      using write_batch_entry_run [OF b(7) idx] by blast
    have lm1: "length m1 = PAGE_SIZE" using m1(3) by (simp add: entry_changed_def)
    have up: "update_slice (length A) PAGE_SIZE (write_batch_entry (length rs) ?e) (A @ meta @ ?D @ ?d @ R) =
        Some (A @ m1 @ ?D @ ?d @ R)"
      by (rule update_slice_mid) (use b(7) m1 lm1 in auto)
    have "meta_holds m1 (map fst (rs @ [(?e, ?d)]))"
      using b(3) m1 lm1 entry_changed_count [OF b(7) m1(3)]
      by (auto simp: meta_holds_def entry_changed_def nth_append less_Suc_eq)
    then have bo: "batch_ok (m1 @ ?D @ ?d) (rs @ [(?e, ?d)])"
      using b(4) dw lw d(1,2) sl(5) by (auto simp: batch_ok_def)
    let ?b = "b\<lparr> wb_buffer := A @ m1 @ ?D @ ?d @ R,
      wb_packed_logical := Some (s\<lparr> ps_len := ?l + ?n, ps_max_lsn := ?max \<rparr>),
      wb_max_lsn := max (wb_max_lsn b) ?max \<rparr>"
    have pe: "packed_entry (recs @ [(lsn, kind, payload)]) ?max (?e, ?d)"
      using True sl(5) dw d(1,2) lw by (simp add: packed_entry_def Let_def write_at_def)
    have hold: "buffer_holds ?b (xs @ [rs @ [(?e, ?d)]])"
      using buffer_replace [OF _ b(2) bo, of b "rs @ [r]" "[]" "[]" ?b R] assms(1) sl(1) by simp
    have pk: "packed_slot_ok ?b (xs @ [rs @ [(?e, ?d)]])"
      unfolding packed_slot_ok_def using pe sl(2-5)
      by (auto intro!: exI [of _ xs] exI [of _ rs] exI [of _ "(?e, ?d)"]
          exI [of _ "recs @ [(lsn, kind, payload)]"])
    have "ps_data_start s + PAGE_SIZE \<le> length (wb_buffer b)" using sl(4) assms(1) by (simp add: buffer_holds_def)
    then have run: "try_append_packed_logical_locked lsn kind payload ?n b = Some (?b, True)"
      using Some sl(2-4) small True enc win wr up b(6)
      by (simp add: try_append_packed_logical_locked_def checked_add_def WAL_RECORD_SIZE_def Let_def)
    have "length (A @ m1 @ ?D @ ?d @ R) = length (wb_buffer b)"
      using buf lm1 b(7) lw dw by simp
    moreover have "max (wb_max_lsn b) ?max = max (wb_max_lsn b) lsn" using sl(7) by (auto simp: max_def)
    ultimately show ?thesis
      using run hold pk pe sl(1,6)
      by (intro disjI2 exI [of _ ?b] exI [of _ xs] exI [of _ rs] exI [of _ r] exI [of _ recs]
          exI [of _ "ps_max_lsn s"] exI [of _ "(?e, ?d)"]) simp
  qed
qed

end
