(* ===== verification/Wal_Seal.thy ===== *)
theory Wal_Seal
  imports Wal_Buffer
begin

text \<open>
  What \<open>finalize_buffer_records\<close> of \<open>crates/wal/src/wal_impl.rs\<close> leaves in a sealed buffer: the same
  entries with the checksums of their payloads, which the validation on the reading side accepts.
\<close>

section \<open>Entries that can be sealed\<close>

definition good_entry :: "log_entry \<Rightarrow> bool" where
  "good_entry = (\<lambda>(e, d). length d = PAGE_SIZE \<and>
     (be_kind e = RECORD_KIND_PAGE_IMAGE \<and> be_flags e = 0 \<or>
      be_kind e = RECORD_KIND_LOGICAL \<and> unat (be_len e) \<le> PAGE_SIZE \<and>
        be_flags e AND NOT (LOGICAL_FLAG_FIRST OR LOGICAL_FLAG_LAST) = 0 \<or>
      be_kind e = RECORD_KIND_LOGICAL_PACKED \<and> unat (be_len e) \<le> PAGE_SIZE \<and> be_flags e = 0))"

definition entry_payload :: "log_entry \<Rightarrow> bytes" where
  "entry_payload = (\<lambda>(e, d). if be_kind e = RECORD_KIND_PAGE_IMAGE then d else take (unat (be_len e)) d)"

definition sealed :: "crc_fn \<Rightarrow> log_entry \<Rightarrow> BatchEntry" where
  "sealed crc r = (fst r)\<lparr> be_crc := payload_crc crc (entry_payload r) \<rparr>"

lemmas record_kinds = RECORD_KIND_PAGE_IMAGE_def RECORD_KIND_LOGICAL_def RECORD_KIND_LOGICAL_PACKED_def

lemma good_entry_page: "good_entry r \<Longrightarrow> length (snd r) = PAGE_SIZE"
  by (cases r) (simp add: good_entry_def)

lemma record_crc_good:
  "good_entry (e, d) \<Longrightarrow> record_crc crc e d = Some (payload_crc crc (entry_payload (e, d)))"
  by (auto simp: good_entry_def record_crc_def entry_payload_def page_crc_def record_kinds)

lemma validate_sealed:
  "good_entry (e, d) \<Longrightarrow> validate_entry_data crc (sealed crc (e, d)) d = Some (entry_payload (e, d))"
  by (auto simp: good_entry_def validate_entry_data_def entry_payload_def page_crc_def sealed_def
      LOGICAL_CHUNK_MAX_LEN_def record_kinds Let_def)

section \<open>Sealed batches\<close>

definition batch_sealed :: "crc_fn \<Rightarrow> bytes \<Rightarrow> log_entry list \<Rightarrow> bool" where
  "batch_sealed crc bs rs = (\<exists>meta. bs = meta @ concat (map snd rs) \<and> length meta = PAGE_SIZE \<and>
     batch_meta_count crc meta = Some (length rs) \<and>
     (\<forall>i < length rs. read_batch_entry meta i = Some (sealed crc (rs ! i))) \<and>
     (\<forall>r \<in> set rs. good_entry r))"

definition batches_sealed :: "crc_fn \<Rightarrow> bytes \<Rightarrow> log_entry list list \<Rightarrow> bool" where
  "batches_sealed crc bs rss = (\<exists>bss. bs = concat bss \<and> list_all2 (batch_sealed crc) bss rss)"

lemma batches_sealed_simps [simp]:
  "batches_sealed crc [] []" "batches_sealed crc bs [] \<longleftrightarrow> bs = []"
  by (simp_all add: batches_sealed_def)

lemma batches_sealed_append:
  "batches_sealed crc A rss \<Longrightarrow> batches_sealed crc B qss \<Longrightarrow> batches_sealed crc (A @ B) (rss @ qss)"
  unfolding batches_sealed_def by (metis concat_append list_all2_appendI)

lemma batches_sealed_Cons:
  "batches_sealed crc bs (rs # rss) \<longleftrightarrow>
    (\<exists>A B. bs = A @ B \<and> batch_sealed crc A rs \<and> batches_sealed crc B rss)"
proof
  assume "batches_sealed crc bs (rs # rss)"
  then obtain A bss where "bs = A @ concat bss" "batch_sealed crc A rs" "list_all2 (batch_sealed crc) bss rss"
    by (auto simp: batches_sealed_def list_all2_Cons2)
  then show "\<exists>A B. bs = A @ B \<and> batch_sealed crc A rs \<and> batches_sealed crc B rss"
    by (auto simp: batches_sealed_def)
next
  assume "\<exists>A B. bs = A @ B \<and> batch_sealed crc A rs \<and> batches_sealed crc B rss"
  then obtain A bss where "bs = concat (A # bss)" "list_all2 (batch_sealed crc) (A # bss) (rs # rss)"
    by (auto simp: batches_sealed_def)
  then show "batches_sealed crc bs (rs # rss)" unfolding batches_sealed_def by blast
qed

lemma batch_sealed_length: "batch_sealed crc bs rs \<Longrightarrow> length bs = (length rs + 1) * PAGE_SIZE"
proof -
  assume "batch_sealed crc bs rs"
  then obtain meta where "bs = meta @ concat (map snd rs)" "length meta = PAGE_SIZE"
    "\<forall>r \<in> set rs. length (snd r) = PAGE_SIZE"
    by (auto simp: batch_sealed_def good_entry_page)
  then show ?thesis using length_data_pages [of rs PAGE_SIZE] by simp
qed

lemma batches_sealed_length: "batches_sealed crc bs rss \<Longrightarrow> length bs = log_bytes rss"
  by (induction rss arbitrary: bs) (auto simp: batches_sealed_Cons batch_sealed_length)

section \<open>Finalizing a buffer\<close>

text \<open>A batch whose first \<open>i\<close> entries have their checksums.\<close>

definition half_sealed :: "crc_fn \<Rightarrow> nat \<Rightarrow> log_entry list \<Rightarrow> bytes \<Rightarrow> bool" where
  "half_sealed crc i rs meta = (length meta = PAGE_SIZE \<and>
     batch_meta_count_unchecked meta = Some (length rs) \<and>
     (\<forall>j < length rs. read_batch_entry meta j =
       Some (if j < i then sealed crc (rs ! j) else fst (rs ! j))))"

lemma data_page_at:
  assumes "\<forall>r \<in> set rs. length (snd r) = n" "i < length rs"
  shows "read_at (i * n) n (concat (map snd rs) @ X) = snd (rs ! i)"
  using assms
proof (induction rs arbitrary: i)
  case (Cons r rs)
  then show ?case
    by (cases i) (auto simp: read_at_def)
qed simp

lemma finalize_entries_run:
  assumes "\<forall>r \<in> set rs. good_entry r" "half_sealed crc i rs meta" "i \<le> length rs"
  shows "\<exists>meta'. finalize_entries crc (length A) [i..<length rs] (A @ meta @ concat (map snd rs) @ X) =
      Some (A @ meta' @ concat (map snd rs) @ X) \<and> half_sealed crc (length rs) rs meta'"
  using assms(2,3)
proof (induction "length rs - i" arbitrary: i meta)
  case 0
  then show ?case by (intro exI [of _ meta]) (auto simp: half_sealed_def)
next
  case (Suc k)
  then have i: "i < length rs" by simp
  let ?D = "concat (map snd rs)"
  have pages: "\<forall>r \<in> set rs. length (snd r) = PAGE_SIZE" using assms(1) by (auto simp: good_entry_page)
  have m: "length meta = PAGE_SIZE" "read_batch_entry meta i = Some (fst (rs ! i))"
    "batch_meta_count_unchecked meta = Some (length rs)"
    using Suc.prems i by (auto simp: half_sealed_def)
  let ?c = "payload_crc crc (entry_payload (rs ! i))"
  obtain m1 where m1: "overwrite_batch_entry_crc i ?c meta = Some m1"
    "read_batch_entry m1 i = Some (sealed crc (rs ! i))" "entry_changed i meta m1"
    using overwrite_batch_entry_crc_run [OF m(1,2), of ?c] by (auto simp: sealed_def)
  have l1: "length m1 = PAGE_SIZE" using m1(3) by (simp add: entry_changed_def)
  have h1: "half_sealed crc (Suc i) rs m1"
    using Suc.prems(1) m1 l1 entry_changed_count [OF m(1) m1(3)] m(3)
    by (auto simp: half_sealed_def entry_changed_def less_Suc_eq)
  have arith_less: "k = length rs - Suc i" using Suc.hyps(2) by simp
  obtain meta' where IH: "finalize_entries crc (length A) [Suc i..<length rs] (A @ m1 @ ?D @ X) =
      Some (A @ meta' @ ?D @ X)" "half_sealed crc (length rs) rs meta'"
    using Suc.hyps(1) [of "Suc i" m1] h1 i arith_less by auto
  have up: "update_slice (length A) PAGE_SIZE (overwrite_batch_entry_crc i ?c) (A @ meta @ ?D @ X) =
      Some (A @ m1 @ ?D @ X)"
    by (rule update_slice_mid) (use m m1 l1 in auto)
  have rm: "read_at (length A) PAGE_SIZE (A @ meta @ ?D @ X) = meta"
    using m(1) by (simp add: read_at_def)
  have "read_at (length (A @ meta) + i * PAGE_SIZE) PAGE_SIZE ((A @ meta) @ ?D @ X) = snd (rs ! i)"
    unfolding read_at_prefix_plus by (rule data_page_at [OF pages i])
  then have rp: "read_at (length A + PAGE_SIZE * (i + 1)) PAGE_SIZE (A @ meta @ ?D @ X) = snd (rs ! i)"
    using m(1) by (simp add: algebra_simps)
  have "(i + 1) * PAGE_SIZE \<le> length rs * PAGE_SIZE" using i by (intro mult_le_mono1) simp
  then have fit: "length A + PAGE_SIZE * (i + 1) + PAGE_SIZE \<le> length (A @ meta @ ?D @ X)"
    using m(1) length_data_pages [OF pages] by (simp add: algebra_simps)
  have "record_crc crc (fst (rs ! i)) (snd (rs ! i)) = Some ?c"
    using record_crc_good [of "fst (rs ! i)" "snd (rs ! i)" crc] assms(1) i by simp
  then have "finalize_entries crc (length A) (i # [Suc i..<length rs]) (A @ meta @ ?D @ X) =
      Some (A @ meta' @ ?D @ X)"
    using fit rm rp m(2) up IH(1) by (simp add: WAL_RECORD_SIZE_def Let_def)
  then show ?case using IH(2) i by (simp add: upt_conv_Cons)
qed

declare finalize_batches.simps [simp del]

lemma finalize_batches_run:
  assumes "batches_in B rss" "\<forall>rs \<in> set rss. \<forall>r \<in> set rs. good_entry r"
  shows "\<exists>B'. finalize_batches crc (length A + length B) (length A) (A @ B @ X) = Some (A @ B' @ X) \<and>
    batches_sealed crc B' rss"
  using assms
proof (induction rss arbitrary: A B)
  case Nil
  then show ?case by (simp add: finalize_batches.simps)
next
  case (Cons rs rss)
  obtain A0 meta C where s: "B = A0 @ meta @ concat (map snd rs) @ C" "batches_in A0 []"
    "meta_holds meta (map fst rs)" "\<forall>r \<in> set rs. length (snd r) = PAGE_SIZE" "batches_in C rss"
    using Cons.prems(1) batches_in_split [of B "[]" rs rss] by auto
  let ?D = "concat (map snd rs)" and ?n = "length rs"
  have B: "B = meta @ ?D @ C" using s(1,2) by simp
  have m: "length meta = PAGE_SIZE" "batch_meta_count_unchecked meta = Some ?n" "half_sealed crc 0 rs meta"
    using s(3) by (auto simp: meta_holds_def half_sealed_def)
  obtain m1 where m1: "finalize_entries crc (length A) [0..<?n] (A @ meta @ ?D @ C @ X) =
      Some (A @ m1 @ ?D @ C @ X)" "half_sealed crc ?n rs m1"
    using finalize_entries_run [OF _ m(3), of A "C @ X"] Cons.prems(2) by auto
  have l1: "length m1 = PAGE_SIZE" using m1(2) by (simp add: half_sealed_def)
  obtain m2 where m2: "finalize_batch_meta crc m1 = Some m2" "length m2 = PAGE_SIZE"
    "batch_meta_count crc m2 = batch_meta_count_unchecked m1"
    "\<forall>j. read_batch_entry m2 j = read_batch_entry m1 j"
    using finalize_batch_meta_run [OF l1, of crc] by blast
  have "batch_sealed crc (m2 @ ?D) rs"
    using m1(2) m2 Cons.prems(2) by (auto simp: batch_sealed_def half_sealed_def)
  let ?A = "A @ m2 @ ?D"
  have lD: "length ?D = ?n * PAGE_SIZE" by (rule length_data_pages [OF s(4)])
  obtain C' where C': "finalize_batches crc (length ?A + length C) (length ?A) (?A @ C @ X) = Some (?A @ C' @ X)"
    "batches_sealed crc C' rss"
    using Cons.IH [OF s(5), of ?A] Cons.prems(2) by auto
  have up: "update_slice (length A) PAGE_SIZE (finalize_batch_meta crc) (A @ m1 @ ?D @ C @ X) =
      Some (A @ m2 @ ?D @ C @ X)"
    by (rule update_slice_mid) (use m2 l1 in auto)
  have rm: "read_at (length A) PAGE_SIZE (A @ meta @ ?D @ C @ X) = meta" using m(1) by (simp add: read_at_def)
  have "0 < PAGE_SIZE" by (simp add: PAGE_SIZE_def)
  then have "finalize_batches crc (length A + length B) (length A) (A @ B @ X) = Some (A @ (m2 @ ?D @ C') @ X)"
    using C'(1) up rm m m1(1) m2(2) lD
    by (subst finalize_batches.simps) (simp add: B WAL_RECORD_SIZE_def Let_def add.assoc)
  moreover have "batches_sealed crc (m2 @ ?D @ C') (rs # rss)"
    unfolding batches_sealed_Cons
    using C'(2) \<open>batch_sealed crc (m2 @ ?D) rs\<close> by (intro exI [of _ "m2 @ ?D"] exI [of _ C']) simp
  ultimately show ?case by blast
qed

lemma finalize_buffer_run:
  assumes "buffer_holds b rss" "\<forall>rs \<in> set rss. \<forall>r \<in> set rs. good_entry r"
  shows "\<exists>b' B. finalize_buffer_records crc (wb_used b) b = Some b' \<and> wb_used b' = wb_used b \<and>
    length (wb_buffer b') = length (wb_buffer b) \<and> take (wb_used b) (wb_buffer b') = B \<and>
    batches_sealed crc B rss \<and> b' = b\<lparr> wb_buffer := wb_buffer b' \<rparr>"
proof -
  let ?B = "take (wb_used b) (wb_buffer b)" and ?X = "drop (wb_used b) (wb_buffer b)"
  have b: "batches_in ?B rss" "length ?B = wb_used b" using assms(1) by (auto simp: buffer_holds_def)
  obtain B' where B': "finalize_batches crc (wb_used b) 0 (wb_buffer b) = Some (B' @ ?X)"
    "batches_sealed crc B' rss"
    using finalize_batches_run [OF b(1) assms(2), of crc "[]" ?X] b(2) by auto
  have "length B' = wb_used b" using batches_sealed_length [OF B'(2)] buffer_holds_used [OF assms(1)] by simp
  then show ?thesis
    using B' b(2) by (simp add: finalize_buffer_records_def)
qed

end
