(* ===== verification/Wal_Replay.thy ===== *)
theory Wal_Replay
  imports Wal_Seal
begin

text \<open>
  Reading a log shard back, \<open>crates/wal/src/wal_impl.rs\<close>: the scan for the valid prefix that
  \<open>open_wal_file\<close> runs, and the loop of \<open>replay_records\<close> that reassembles the records. The file is
  the byte string the operating system keeps; the only read error modelled is the end of the file.
\<close>

section \<open>Files\<close>

definition pread_all :: "bytes \<Rightarrow> nat \<Rightarrow> nat \<Rightarrow> io_error + bytes" where
  "pread_all file n offset =
     (if offset + n \<le> length file then Inr (read_at offset n file) else Inl UnexpectedEof)"

text \<open>\<open>pwrite\<close> past the end of the file fills the gap with zeros.\<close>

definition pwrite_all :: "bytes \<Rightarrow> nat \<Rightarrow> bytes \<Rightarrow> bytes" where
  "pwrite_all data offset file =
     write_at offset data (file @ replicate (offset + length data - length file) 0)"

definition extend_file :: "nat \<Rightarrow> bytes \<Rightarrow> bytes" where
  "extend_file new_size file = take new_size file @ replicate (new_size - length file) 0"

section \<open>Replaying one entry\<close>

datatype WalReplayRecord = PageImage Lsn PageId bytes | Logical Lsn u64 bytes

text \<open>\<open>logical_lsn\<close>, \<open>logical_kind\<close> and \<open>logical_payload\<close>: the chunks of a record seen so far.\<close>

type_synonym partial_record = "Lsn \<times> u64 \<times> bytes"

abbreviation no_partial :: partial_record where "no_partial \<equiv> (0, 0, [])"

text \<open>\<open>Stop\<close> is the early \<open>return Ok(())\<close> of the loop.\<close>

datatype flow = Fail io_error | Stop | Continue partial_record

definition forget_partial :: "partial_record \<Rightarrow> partial_record" where
  "forget_partial = (\<lambda>(lsn, kind, payload). if payload \<noteq> [] then no_partial else (lsn, kind, payload))"

definition replay_chunk :: "BatchEntry \<Rightarrow> bytes \<Rightarrow> partial_record \<Rightarrow> WalReplayRecord list \<times> flow" where
  "replay_chunk entry payload = (\<lambda>(logical_lsn, logical_kind, logical_payload).
     let first = (be_flags entry AND LOGICAL_FLAG_FIRST = LOGICAL_FLAG_FIRST);
         last = (be_flags entry AND LOGICAL_FLAG_LAST = LOGICAL_FLAG_LAST) in
     if \<not> first \<and> (logical_payload = [] \<or> be_lsn entry \<noteq> logical_lsn \<or> be_arg entry \<noteq> logical_kind)
     then ([], Stop)
     else
       let (logical_lsn, logical_kind, logical_payload) =
             (if first then (be_lsn entry, be_arg entry, []) else (logical_lsn, logical_kind, logical_payload));
           logical_payload = logical_payload @ payload in
       if \<not> last then ([], Continue (logical_lsn, logical_kind, logical_payload))
       else if logical_kind = LOGICAL_KIND_PAGE_IMAGE_BYTES then
         (case decode_page_image_bytes_payload logical_payload of
            None \<Rightarrow> ([], Stop)
          | Some (page_id, page) \<Rightarrow> ([PageImage logical_lsn page_id page], Continue no_partial))
       else ([Logical logical_lsn logical_kind logical_payload], Continue no_partial))"

definition replay_entry :: "crc_fn \<Rightarrow> BatchEntry \<Rightarrow> bytes \<Rightarrow> partial_record \<Rightarrow> WalReplayRecord list \<times> flow" where
  "replay_entry crc entry page partial =
     (case validate_entry_data crc entry page of
        None \<Rightarrow> ([], Stop)
      | Some payload \<Rightarrow>
          if be_kind entry = RECORD_KIND_PAGE_IMAGE then
            ([PageImage (be_lsn entry) (be_arg entry) payload], Continue (forget_partial partial))
          else if be_kind entry = RECORD_KIND_LOGICAL then replay_chunk entry payload partial
          else if be_kind entry = RECORD_KIND_LOGICAL_PACKED then
            (case for_each_packed_logical_record payload of
               (records, ok) \<Rightarrow>
                 (map (\<lambda>(lsn, kind, payload). Logical lsn kind payload) records,
                  if ok then Continue (forget_partial partial) else Stop))
          else ([], Stop))"

section \<open>Replaying a file\<close>

fun replay_entries ::
    "crc_fn \<Rightarrow> bytes \<Rightarrow> bytes \<Rightarrow> nat \<Rightarrow> nat list \<Rightarrow> partial_record \<Rightarrow> (WalReplayRecord list \<times> flow) option" where
  "replay_entries crc file meta batch_offset [] partial = Some ([], Continue partial)"
| "replay_entries crc file meta batch_offset (idx # idxs) partial =
     (let offset = batch_offset + WAL_RECORD_SIZE * (idx + 1) in
      case pread_all file WAL_RECORD_SIZE offset of
        Inl e \<Rightarrow> Some ([], Fail e)
      | Inr page \<Rightarrow> do {
          entry \<leftarrow> read_batch_entry meta idx;
          (case replay_entry crc entry page partial of
             (records, Continue partial) \<Rightarrow> do {
               (records', flow) \<leftarrow> replay_entries crc file meta batch_offset idxs partial;
               Some (records @ records', flow) }
           | (records, flow) \<Rightarrow> Some (records, flow)) })"

function replay_batches ::
    "crc_fn \<Rightarrow> bytes \<Rightarrow> nat \<Rightarrow> nat \<Rightarrow> partial_record \<Rightarrow> (WalReplayRecord list \<times> (io_error + unit)) option" where
  "replay_batches crc file end_offset batch_offset partial =
     (if batch_offset + WAL_RECORD_SIZE \<le> end_offset then
        (case pread_all file WAL_RECORD_SIZE batch_offset of
           Inl e \<Rightarrow> Some ([], Inl e)
         | Inr meta \<Rightarrow>
             (case batch_meta_count crc meta of
                None \<Rightarrow> Some ([], Inr ())
              | Some count \<Rightarrow>
                  let batch_len = WAL_RECORD_SIZE * (count + 1) in
                  if batch_offset + batch_len > end_offset then Some ([], Inr ())
                  else do {
                    (records, flow) \<leftarrow> replay_entries crc file meta batch_offset [0..<count] partial;
                    (case flow of
                       Fail e \<Rightarrow> Some (records, Inl e)
                     | Stop \<Rightarrow> Some (records, Inr ())
                     | Continue partial \<Rightarrow> do {
                         (records', res) \<leftarrow> replay_batches crc file end_offset (batch_offset + batch_len) partial;
                         Some (records @ records', res) }) }))
      else Some ([], Inr ()))"
  by pat_completeness auto
termination
  by (relation "measure (\<lambda>(crc, file, end_offset, batch_offset, partial). end_offset - batch_offset)")
    (auto simp: WAL_RECORD_SIZE_def PAGE_SIZE_def)

text \<open>The records are delivered to the callback in order; the second component is the result.\<close>

definition replay_records ::
    "crc_fn \<Rightarrow> bytes \<Rightarrow> nat \<Rightarrow> (WalReplayRecord list \<times> (io_error + unit)) option" where
  "replay_records crc file file_offset = replay_batches crc file file_offset WAL_HEADER_SIZE no_partial"

text \<open>\<open>replay\<close> delivers the page images of one page.\<close>

definition replay :: "crc_fn \<Rightarrow> bytes \<Rightarrow> nat \<Rightarrow> ((Lsn \<times> PageId \<times> bytes) list \<times> (io_error + unit)) option" where
  "replay crc file file_offset = do {
     (records, res) \<leftarrow> replay_records crc file file_offset;
     Some ([(lsn, page_id, data). PageImage lsn page_id data \<leftarrow> records, length data = PAGE_SIZE], res) }"

section \<open>The valid prefix of a file\<close>

text \<open>The entries of one batch: the largest log sequence number, and whether they are all valid.\<close>

fun scan_entries :: "crc_fn \<Rightarrow> bytes \<Rightarrow> bytes \<Rightarrow> nat \<Rightarrow> nat list \<Rightarrow> Lsn \<Rightarrow> (Lsn \<times> bool) option" where
  "scan_entries crc file meta batch_offset [] max_lsn = Some (max_lsn, True)"
| "scan_entries crc file meta batch_offset (idx # idxs) max_lsn =
     (case pread_all file WAL_RECORD_SIZE (batch_offset + WAL_RECORD_SIZE * (idx + 1)) of
        Inl e \<Rightarrow> Some (max_lsn, False)
      | Inr page \<Rightarrow> do {
          entry \<leftarrow> read_batch_entry meta idx;
          if validate_entry_data crc entry page = None then Some (max_lsn, False)
          else scan_entries crc file meta batch_offset idxs
            (if entry_completes entry then max max_lsn (be_lsn entry) else max_lsn) })"

function scan_batches :: "crc_fn \<Rightarrow> bytes \<Rightarrow> nat \<Rightarrow> nat \<Rightarrow> Lsn \<Rightarrow> nat \<Rightarrow> (Lsn \<times> nat) option" where
  "scan_batches crc file file_end batch_offset max_lsn valid_data_bytes =
     (if batch_offset + WAL_RECORD_SIZE \<le> file_end then
        (case pread_all file WAL_RECORD_SIZE batch_offset of
           Inl e \<Rightarrow> Some (max_lsn, valid_data_bytes)
         | Inr meta \<Rightarrow>
             (case batch_meta_count crc meta of
                None \<Rightarrow> Some (max_lsn, valid_data_bytes)
              | Some count \<Rightarrow>
                  let batch_len = WAL_RECORD_SIZE * (count + 1) in
                  if batch_offset + batch_len > file_end then Some (max_lsn, valid_data_bytes)
                  else do {
                    (max_lsn, batch_valid) \<leftarrow> scan_entries crc file meta batch_offset [0..<count] max_lsn;
                    if \<not> batch_valid then Some (max_lsn, valid_data_bytes)
                    else scan_batches crc file file_end (batch_offset + batch_len) max_lsn
                      (batch_offset + batch_len - WAL_HEADER_SIZE) }))
      else Some (max_lsn, valid_data_bytes))"
  by pat_completeness auto
termination
  by (relation "measure (\<lambda>(crc, file, file_end, batch_offset, max_lsn, valid). file_end - batch_offset)")
    (auto simp: WAL_RECORD_SIZE_def PAGE_SIZE_def)

definition scan_valid_records :: "crc_fn \<Rightarrow> bytes \<Rightarrow> nat \<Rightarrow> (Lsn \<times> nat) option" where
  "scan_valid_records crc file data_size =
     scan_batches crc file (WAL_HEADER_SIZE + data_size) WAL_HEADER_SIZE 0 0"

section \<open>Opening a file\<close>

definition SEGMENT_SIZE :: nat where "SEGMENT_SIZE = 64 * 1024 * 1024"

definition round_up_u64 :: "nat \<Rightarrow> nat \<Rightarrow> nat option" where
  "round_up_u64 n align = do {
     ensure (n + align - 1 < 2 ^ 64);
     Some (unat ((word_of_nat (n + align - 1) :: u64) AND NOT (word_of_nat (align - 1)))) }"

record OpenWalFile =
  owf_file_offset :: nat
  owf_allocated_size :: nat
  owf_max_lsn :: Lsn

definition open_wal_file :: "crc_fn \<Rightarrow> bool \<Rightarrow> bytes \<Rightarrow> (io_error + OpenWalFile \<times> bytes) option" where
  "open_wal_file crc direct_io file =
     (let file_size = length file in
      if file_size < WAL_HEADER_SIZE then
        Some (Inr (\<lparr> owf_file_offset = WAL_HEADER_SIZE, owf_allocated_size = SEGMENT_SIZE, owf_max_lsn = 0 \<rparr>,
          extend_file SEGMENT_SIZE (pwrite_all (build_wal_header direct_io) 0 file)))
      else (case pread_all file WAL_HEADER_SIZE 0 of
        Inl e \<Rightarrow> Some (Inl e)
      | Inr hdr \<Rightarrow>
          (case validate_wal_header hdr of
             Inl e \<Rightarrow> Some (Inl e)
           | Inr _ \<Rightarrow> do {
               (max_lsn, data_valid_end) \<leftarrow> scan_valid_records crc file (file_size - WAL_HEADER_SIZE);
               let valid_end = WAL_HEADER_SIZE + data_valid_end;
               let file = (if valid_end < file_size then extend_file valid_end file else file);
               target \<leftarrow> round_up_u64 valid_end SEGMENT_SIZE;
               let target = max target SEGMENT_SIZE;
               let file = (if target > valid_end then extend_file target file else file);
               Some (Inr (\<lparr> owf_file_offset = valid_end, owf_allocated_size = target,
                 owf_max_lsn = max_lsn \<rparr>, file)) })))"

section \<open>Delivering a list of entries\<close>

fun deliver :: "crc_fn \<Rightarrow> log_entry list \<Rightarrow> partial_record \<Rightarrow> WalReplayRecord list \<times> flow" where
  "deliver crc [] partial = ([], Continue partial)"
| "deliver crc (r # rs) partial =
     (case replay_entry crc (sealed crc r) (snd r) partial of
        (records, Continue partial) \<Rightarrow>
          (let (records', flow) = deliver crc rs partial in (records @ records', flow))
      | (records, flow) \<Rightarrow> (records, flow))"

lemma deliver_append:
  "deliver crc (rs @ qs) partial = (case deliver crc rs partial of
     (records, Continue partial) \<Rightarrow>
       (let (records', flow) = deliver crc qs partial in (records @ records', flow))
   | (records, flow) \<Rightarrow> (records, flow))"
  by (induction rs arbitrary: partial) (auto split: prod.splits flow.splits)

lemma replay_chunk_no_fail: "snd (replay_chunk entry payload partial) \<noteq> Fail e"
  by (auto simp: replay_chunk_def Let_def split: prod.splits option.splits)

lemma replay_entry_no_fail: "snd (replay_entry crc entry page partial) \<noteq> Fail e"
  by (auto simp: replay_entry_def replay_chunk_no_fail split: prod.splits option.splits)

lemma deliver_no_fail: "snd (deliver crc rs partial) \<noteq> Fail e"
proof (induction rs arbitrary: partial)
  case (Cons r rs)
  then show ?case
    using replay_entry_no_fail [of crc "sealed crc r" "snd r" partial e]
    by (auto split: prod.splits flow.splits) (metis snd_conv)
qed simp

lemma pread_mid: "length P = n \<Longrightarrow> pread_all (A @ P @ X) n (length A) = Inr P"
  by (simp add: pread_all_def read_at_def)

lemma read_data_page:
  assumes "length meta = PAGE_SIZE" "\<forall>r \<in> set rs. good_entry r" "i < length rs"
  shows "pread_all (A @ meta @ concat (map snd rs) @ X) PAGE_SIZE (length A + PAGE_SIZE * (i + 1)) =
    Inr (snd (rs ! i))"
proof -
  let ?D = "concat (map snd rs)"
  have pages: "\<forall>r \<in> set rs. length (snd r) = PAGE_SIZE" using assms(2) by (auto simp: good_entry_page)
  have "read_at (length (A @ meta) + i * PAGE_SIZE) PAGE_SIZE ((A @ meta) @ ?D @ X) = snd (rs ! i)"
    unfolding read_at_prefix_plus by (rule data_page_at [OF pages assms(3)])
  then have "read_at (length A + PAGE_SIZE * (i + 1)) PAGE_SIZE (A @ meta @ ?D @ X) = snd (rs ! i)"
    using assms(1) by (simp add: algebra_simps)
  moreover have "(i + 1) * PAGE_SIZE \<le> length rs * PAGE_SIZE" using assms(3) by (intro mult_le_mono1) simp
  then have "length A + PAGE_SIZE * (i + 1) + PAGE_SIZE \<le> length (A @ meta @ ?D @ X)"
    using assms(1) length_data_pages [OF pages] by (simp add: algebra_simps)
  ultimately show ?thesis by (simp add: pread_all_def)
qed

lemma replay_entries_sealed:
  assumes "length meta = PAGE_SIZE" "\<forall>r \<in> set rs. good_entry r"
    and "\<forall>j < length rs. read_batch_entry meta j = Some (sealed crc (rs ! j))" "i \<le> length rs"
  shows "replay_entries crc (A @ meta @ concat (map snd rs) @ X) meta (length A) [i..<length rs] partial =
    Some (deliver crc (drop i rs) partial)"
  using assms(4)
proof (induction "length rs - i" arbitrary: i partial)
  case (Suc k)
  then have i: "i < length rs" "k = length rs - Suc i" by simp_all
  have d: "drop i rs = rs ! i # drop (Suc i) rs" using i(1) by (simp add: Cons_nth_drop_Suc)
  show ?case
    using read_data_page [OF assms(1,2) i(1), of A X] assms(3) i Suc.hyps(1) [OF i(2)]
    by (auto simp: d upt_conv_Cons WAL_RECORD_SIZE_def split: prod.splits flow.splits)
qed simp

declare replay_batches.simps [simp del] scan_batches.simps [simp del]

definition after :: "WalReplayRecord list \<times> flow \<Rightarrow>
    (partial_record \<Rightarrow> (WalReplayRecord list \<times> (io_error + unit)) option) \<Rightarrow>
    (WalReplayRecord list \<times> (io_error + unit)) option" where
  "after = (\<lambda>(records, flow) k. case flow of
     Fail e \<Rightarrow> Some (records, Inl e)
   | Stop \<Rightarrow> Some (records, Inr ())
   | Continue partial \<Rightarrow> do { (records', res) \<leftarrow> k partial; Some (records @ records', res) })"

lemma replay_batches_sealed:
  assumes "batches_sealed crc B rss" "length A + length B \<le> end_offset"
  shows "replay_batches crc (A @ B @ X) end_offset (length A) partial =
    after (deliver crc (concat rss) partial)
      (replay_batches crc (A @ B @ X) end_offset (length A + length B))"
  using assms
proof (induction rss arbitrary: A B partial)
  case Nil
  then show ?case by (auto simp: after_def split: option.splits prod.splits)
next
  case (Cons rs rss)
  obtain B1 B2 where B: "B = B1 @ B2" "batch_sealed crc B1 rs" "batches_sealed crc B2 rss"
    using Cons.prems(1) by (auto simp: batches_sealed_Cons)
  then obtain meta where m: "B1 = meta @ concat (map snd rs)" "length meta = PAGE_SIZE"
    "batch_meta_count crc meta = Some (length rs)"
    "\<forall>i < length rs. read_batch_entry meta i = Some (sealed crc (rs ! i))" "\<forall>r \<in> set rs. good_entry r"
    by (auto simp: batch_sealed_def)
  let ?D = "concat (map snd rs)" and ?F = "A @ B @ X"
  have F: "?F = A @ meta @ ?D @ B2 @ X" using B(1) m(1) by simp
  have l1: "length B1 = PAGE_SIZE * (length rs + 1)" using batch_sealed_length [OF B(2)] by (simp add: mult.commute)
  have e: "replay_entries crc ?F meta (length A) [0..<length rs] partial = Some (deliver crc rs partial)"
    unfolding F using replay_entries_sealed [OF m(2,5,4), of 0 A "B2 @ X" partial] by simp
  have p: "pread_all ?F PAGE_SIZE (length A) = Inr meta" unfolding F by (rule pread_mid [OF m(2)])
  have IH: "replay_batches crc ?F end_offset (length A + PAGE_SIZE * (length rs + 1)) q =
      after (deliver crc (concat rss) q) (replay_batches crc ?F end_offset (length A + length B))" for q
    using Cons.IH [OF B(3), of "A @ B1" q] Cons.prems(2) B(1) l1 by (simp add: add.assoc)
  have fit: "length A + PAGE_SIZE * (length rs + 1) \<le> end_offset" using Cons.prems(2) B(1) l1 by simp
  then have "length A + PAGE_SIZE \<le> end_offset" by simp
  then have "replay_batches crc ?F end_offset (length A) partial =
      after (deliver crc rs partial) (\<lambda>q. after (deliver crc (concat rss) q)
        (replay_batches crc ?F end_offset (length A + length B)))"
    using e p m(3) fit IH
    by (subst replay_batches.simps) (auto simp: WAL_RECORD_SIZE_def after_def Let_def split: prod.splits flow.splits)
  then show ?case
    by (simp add: deliver_append after_def)
      (auto simp: Let_def intro!: Option.bind_cong split: prod.splits flow.splits)
qed

lemma replay_records_sealed:
  assumes "batches_sealed crc B rss" "length H = WAL_HEADER_SIZE"
  shows "replay_records crc (H @ B @ X) (length H + length B) =
    Some (fst (deliver crc (concat rss) no_partial), Inr ())"
proof -
  have "replay_batches crc (H @ B @ X) (length H + length B) (length H + length B) q = Some ([], Inr ())" for q
    by (subst replay_batches.simps) (simp add: WAL_RECORD_SIZE_def PAGE_SIZE_def)
  then show ?thesis
    using replay_batches_sealed [OF assms(1), of H "length H + length B" X no_partial] assms(2)
      deliver_no_fail [of crc "concat rss" no_partial]
    by (auto simp: replay_records_def after_def split: prod.splits flow.splits)
qed

section \<open>Scanning and opening a sealed log\<close>

definition entry_max :: "Lsn \<Rightarrow> log_entry \<Rightarrow> Lsn" where
  "entry_max m r = (if entry_completes (fst r) then max m (be_lsn (fst r)) else m)"

lemma sealed_completes [simp]:
  "entry_completes (sealed crc r) = entry_completes (fst r)" "be_lsn (sealed crc r) = be_lsn (fst r)"
  by (simp_all add: sealed_def entry_completes_def)

lemma validate_sealed_pair: "good_entry r \<Longrightarrow> validate_entry_data crc (sealed crc r) (snd r) = Some (entry_payload r)"
  using validate_sealed [of "fst r" "snd r" crc] by simp

lemma scan_entries_sealed:
  assumes "length meta = PAGE_SIZE" "\<forall>r \<in> set rs. good_entry r"
    and "\<forall>j < length rs. read_batch_entry meta j = Some (sealed crc (rs ! j))" "i \<le> length rs"
  shows "scan_entries crc (A @ meta @ concat (map snd rs) @ X) meta (length A) [i..<length rs] m =
    Some (foldl entry_max m (drop i rs), True)"
  using assms(4)
proof (induction "length rs - i" arbitrary: i m)
  case (Suc k)
  then have i: "i < length rs" "k = length rs - Suc i" by simp_all
  have d: "drop i rs = rs ! i # drop (Suc i) rs" using i(1) by (simp add: Cons_nth_drop_Suc)
  show ?case
    using read_data_page [OF assms(1,2) i(1), of A X] assms(2,3) i Suc.hyps(1) [OF i(2)]
    by (simp add: d upt_conv_Cons WAL_RECORD_SIZE_def validate_sealed_pair entry_max_def)
qed simp

lemma scan_batches_sealed:
  assumes "batches_sealed crc B rss" "length A + length B \<le> file_end" "WAL_HEADER_SIZE \<le> length A"
  shows "scan_batches crc (A @ B @ X) file_end (length A) m (length A - WAL_HEADER_SIZE) =
    scan_batches crc (A @ B @ X) file_end (length A + length B) (foldl entry_max m (concat rss))
      (length A + length B - WAL_HEADER_SIZE)"
  using assms
proof (induction rss arbitrary: A B m)
  case (Cons rs rss)
  obtain B1 B2 where B: "B = B1 @ B2" "batch_sealed crc B1 rs" "batches_sealed crc B2 rss"
    using Cons.prems(1) by (auto simp: batches_sealed_Cons)
  then obtain meta where m: "B1 = meta @ concat (map snd rs)" "length meta = PAGE_SIZE"
    "batch_meta_count crc meta = Some (length rs)"
    "\<forall>i < length rs. read_batch_entry meta i = Some (sealed crc (rs ! i))" "\<forall>r \<in> set rs. good_entry r"
    by (auto simp: batch_sealed_def)
  let ?D = "concat (map snd rs)" and ?F = "A @ B @ X"
  have F: "?F = A @ meta @ ?D @ B2 @ X" using B(1) m(1) by simp
  have l1: "length B1 = PAGE_SIZE * (length rs + 1)" using batch_sealed_length [OF B(2)] by (simp add: mult.commute)
  have e: "scan_entries crc ?F meta (length A) [0..<length rs] m = Some (foldl entry_max m rs, True)"
    unfolding F using scan_entries_sealed [OF m(2,5,4), of 0 A "B2 @ X" m] by simp
  have p: "pread_all ?F PAGE_SIZE (length A) = Inr meta" unfolding F by (rule pread_mid [OF m(2)])
  have IH: "scan_batches crc ?F file_end (length A + PAGE_SIZE * (length rs + 1)) q
        (length A + PAGE_SIZE * (length rs + 1) - WAL_HEADER_SIZE) =
      scan_batches crc ?F file_end (length A + length B) (foldl entry_max q (concat rss))
        (length A + length B - WAL_HEADER_SIZE)" for q
    using Cons.IH [OF B(3), of "A @ B1" q] Cons.prems(2,3) B(1) l1 by (simp add: add.assoc)
  have fit: "length A + PAGE_SIZE * (length rs + 1) \<le> file_end" using Cons.prems(2) B(1) l1 by simp
  then have "length A + PAGE_SIZE \<le> file_end" by simp
  then show ?case
    using e p m(3) fit IH [of "foldl entry_max m rs"]
    by (subst scan_batches.simps) (simp add: WAL_RECORD_SIZE_def Let_def)
qed simp

text \<open>No batch starts at an offset.\<close>

definition log_ends :: "crc_fn \<Rightarrow> bytes \<Rightarrow> nat \<Rightarrow> bool" where
  "log_ends crc file offset = (offset + PAGE_SIZE \<le> length file \<longrightarrow>
     batch_meta_count crc (read_at offset PAGE_SIZE file) = None)"

lemma zeros_end_log: "log_ends crc (A @ replicate n 0) (length A)"
proof -
  have "read_at (length A) PAGE_SIZE (A @ replicate n 0) = replicate PAGE_SIZE 0" if "PAGE_SIZE \<le> n"
    using that by (simp add: read_at_def)
  moreover have "batch_meta_count crc (replicate PAGE_SIZE 0) = None"
  proof -
    have "rd 4 0 (replicate PAGE_SIZE 0) = 0" by (simp add: rd_replicate_zero PAGE_SIZE_def)
    then show ?thesis
      by (simp add: batch_meta_count_def batch_meta_count_unchecked_def batch_layout BATCH_META_MAGIC_def)
  qed
  ultimately show ?thesis by (auto simp: log_ends_def)
qed

lemma scan_sealed:
  assumes "batches_sealed crc B rss" "length H = WAL_HEADER_SIZE" "log_ends crc (H @ B @ X) (length H + length B)"
  shows "scan_valid_records crc (H @ B @ X) (length (H @ B @ X) - WAL_HEADER_SIZE) =
    Some (foldl entry_max 0 (concat rss), length B)"
proof -
  let ?F = "H @ B @ X"
  have stop: "scan_batches crc ?F (length ?F) (length H + length B) m v = Some (m, v)" for m v
    using assms(3)
    by (subst scan_batches.simps) (auto simp: log_ends_def pread_all_def WAL_RECORD_SIZE_def)
  have "scan_batches crc ?F (length ?F) (length H) 0 (length H - WAL_HEADER_SIZE) =
      Some (foldl entry_max 0 (concat rss), length H + length B - WAL_HEADER_SIZE)"
    using scan_batches_sealed [OF assms(1), of H "length ?F" X 0] assms(2) stop by simp
  then show ?thesis using assms(2) by (simp add: scan_valid_records_def)
qed

lemma round_up_bounds:
  assumes "n + 2 ^ k - 1 < 2 ^ 64" "k < 64"
  shows "\<exists>t. round_up_u64 n (2 ^ k) = Some t \<and> n \<le> t \<and> t \<le> n + 2 ^ k - 1"
proof -
  let ?x = "word_of_nat (n + 2 ^ k - 1) :: u64"
  have x: "unat ?x = n + 2 ^ k - 1" using assms(1) by (simp add: unat_of_nat take_bit_eq_mod)
  have "(word_of_nat (2 ^ k - 1) :: u64) = mask k"
    by (simp add: mask_eq_exp_minus_1 of_nat_diff)
  then have "?x AND NOT (word_of_nat (2 ^ k - 1)) = push_bit k (drop_bit k ?x)"
    by (auto intro!: bit_eqI simp: bit_simps)
  moreover have "unat (push_bit k (drop_bit k ?x)) = unat ?x div 2 ^ k * 2 ^ k mod 2 ^ 64"
    unfolding unsigned_push_bit_eq unsigned_drop_bit_eq x
    using assms(1) by (simp add: push_bit_eq_mult drop_bit_eq_div take_bit_eq_mod)
  ultimately have "unat (?x AND NOT (word_of_nat (2 ^ k - 1))) = unat ?x div 2 ^ k * 2 ^ k mod 2 ^ 64"
    by simp
  moreover have le: "(n + 2 ^ k - 1) div 2 ^ k * 2 ^ k \<le> n + 2 ^ k - 1" by simp
  moreover have "(n + 2 ^ k - 1) div 2 ^ k * 2 ^ k mod 2 ^ 64 = (n + 2 ^ k - 1) div 2 ^ k * 2 ^ k"
    using le assms(1) by (intro mod_less) linarith
  moreover have "n \<le> (n + 2 ^ k - 1) div 2 ^ k * 2 ^ k"
  proof -
    have p: "0 < (2 :: nat) ^ k" by simp
    then have "(n + 2 ^ k - 1) mod 2 ^ k < 2 ^ k" by (rule mod_less_divisor)
    then show ?thesis using div_mult_mod_eq [of "n + 2 ^ k - 1" "2 ^ k"] p by linarith
  qed
  ultimately show ?thesis using assms(1) x by (simp add: round_up_u64_def)
qed

lemma open_sealed:
  assumes "batches_sealed crc B rss" "length H = WAL_HEADER_SIZE" "validate_wal_header H = Inr ()"
    and "log_ends crc (H @ B @ X) (length H + length B)" "length H + length B + SEGMENT_SIZE \<le> 2 ^ 64"
  shows "\<exists>t. length H + length B \<le> t \<and>
    open_wal_file crc direct_io (H @ B @ X) =
      Some (Inr (\<lparr> owf_file_offset = length H + length B, owf_allocated_size = t,
        owf_max_lsn = foldl entry_max 0 (concat rss) \<rparr>, H @ B @ replicate (t - (length H + length B)) 0))"
proof -
  let ?F = "H @ B @ X" and ?v = "length H + length B"
  have S: "SEGMENT_SIZE = 2 ^ 26" by (simp add: SEGMENT_SIZE_def)
  obtain t where t: "round_up_u64 ?v SEGMENT_SIZE = Some t" "?v \<le> t"
    using round_up_bounds [of ?v 26] assms(5) unfolding S by auto
  have hdr: "pread_all ?F WAL_HEADER_SIZE 0 = Inr H" using pread_mid [OF assms(2), of "[]"] by simp
  let ?t = "max t SEGMENT_SIZE" and ?F1 = "if ?v < length ?F then extend_file ?v ?F else ?F"
  have F1: "?F1 = H @ B" by (auto simp: extend_file_def)
  have F2: "(if ?v < ?t then extend_file ?t (H @ B) else H @ B) = H @ B @ replicate (?t - ?v) 0"
    by (auto simp: extend_file_def)
  have "open_wal_file crc direct_io ?F = Some (Inr (\<lparr> owf_file_offset = ?v, owf_allocated_size = ?t,
      owf_max_lsn = foldl entry_max 0 (concat rss) \<rparr>, if ?v < ?t then extend_file ?t ?F1 else ?F1))"
    using hdr assms(2,3) scan_sealed [OF assms(1,2,4)] t(1)
    by (simp add: open_wal_file_def Let_def)
  then show ?thesis using t(2) unfolding F1 F2 by (intro exI [of _ ?t]) simp
qed

end
