(* ===== verification/Wal_Shard.thy ===== *)
theory Wal_Shard
  imports Wal_Replay
begin

text \<open>
  One shard of the log, \<open>crates/wal/src/wal_impl.rs\<close>: the state behind its lock (\<open>WalState\<close> with
  the atomic log sequence numbers of \<open>WalInner\<close>), appending, sealing, and the writes of the driver
  with the synchronous back ends of \<open>backend.rs\<close>. The file is part of the state. Statistics,
  telemetry, timers and the thread handles are left out.
\<close>

section \<open>Submitted writes\<close>

record SubmittedWrites =
  sw_entries :: "(Lsn \<times> bool) list"
  sw_high_water_lsn :: Lsn

definition submitted_writes_new :: "Lsn \<Rightarrow> SubmittedWrites" where
  "submitted_writes_new high_water_lsn = \<lparr> sw_entries = [], sw_high_water_lsn = high_water_lsn \<rparr>"

definition submitted_writes_push :: "Lsn \<Rightarrow> SubmittedWrites \<Rightarrow> SubmittedWrites" where
  "submitted_writes_push max_lsn s = s\<lparr> sw_entries := sw_entries s @ [(max_lsn, False)] \<rparr>"

text \<open>The first entry with this log sequence number that is not completed is marked; there is a
  panic when there is none.\<close>

fun mark_completed :: "Lsn \<Rightarrow> (Lsn \<times> bool) list \<Rightarrow> (Lsn \<times> bool) list option" where
  "mark_completed max_lsn [] = None"
| "mark_completed max_lsn ((l, completed) # entries) =
     (if l = max_lsn \<and> \<not> completed then Some ((l, True) # entries)
      else do { entries \<leftarrow> mark_completed max_lsn entries; Some ((l, completed) # entries) })"

fun pop_completed :: "(Lsn \<times> bool) list \<Rightarrow> Lsn \<Rightarrow> (Lsn \<times> bool) list \<times> Lsn" where
  "pop_completed ((l, True) # entries) high_water = pop_completed entries (max high_water l)"
| "pop_completed entries high_water = (entries, high_water)"

definition submitted_writes_complete :: "Lsn \<Rightarrow> SubmittedWrites \<Rightarrow> (SubmittedWrites \<times> Lsn option) option" where
  "submitted_writes_complete max_lsn s = do {
     entries \<leftarrow> mark_completed max_lsn (sw_entries s);
     let previous_high_water = sw_high_water_lsn s;
     let (entries, high_water) = pop_completed entries previous_high_water;
     Some (\<lparr> sw_entries = entries, sw_high_water_lsn = high_water \<rparr>,
       if high_water > previous_high_water then Some high_water else None) }"

definition should_submit_sync :: "bool \<Rightarrow> bool \<Rightarrow> Lsn \<Rightarrow> Lsn \<Rightarrow> bool" where
  "should_submit_sync pending_sync sync_in_flight written_lsn sync_target =
     (pending_sync \<and> (\<not> sync_in_flight \<or> written_lsn > sync_target))"

definition can_submit_write :: "nat \<Rightarrow> nat \<Rightarrow> bool" where
  "can_submit_write writes_in_progress max_in_flight_writes = (writes_in_progress < max_in_flight_writes)"

section \<open>The state of a shard\<close>

record PendingWalWrite =
  pw_buffer :: WalBuffer
  pw_file_offset :: nat
  pw_len :: nat
  pw_max_lsn :: Lsn

text \<open>\<open>ws_in_flight\<close> holds the writes handed to the back end and not completed yet.\<close>

record WalShard =
  ws_file :: bytes
  ws_active :: WalBuffer
  ws_spare_buffers :: "WalBuffer list"
  ws_pending_writes :: "PendingWalWrite list"
  ws_in_flight :: "PendingWalWrite list"
  ws_submitted_writes :: SubmittedWrites
  ws_writes_in_progress :: nat
  ws_file_offset :: nat
  ws_allocated_size :: nat
  ws_next_buffer_epoch :: u64
  ws_buffer_count_limit :: nat
  ws_buffer_capacity_bytes :: nat
  ws_appended_lsn :: Lsn
  ws_written_lsn :: Lsn
  ws_durable_lsn :: Lsn
  ws_requested_write_lsn :: Lsn
  ws_requested_durable_lsn :: Lsn

definition wal_inner_new :: "OpenWalFile \<Rightarrow> bytes \<Rightarrow> nat \<Rightarrow> nat \<Rightarrow> WalShard" where
  "wal_inner_new opened file max_in_flight_writes buffer_capacity_bytes =
     (let buffer_count_limit = (if max_in_flight_writes > 1 then 3 else 2);
          max_lsn = owf_max_lsn opened in
      \<lparr> ws_file = file,
        ws_active = wal_buffer_new 1 buffer_capacity_bytes,
        ws_spare_buffers =
          map (\<lambda>index. wal_buffer_new (word_of_nat index + 1) buffer_capacity_bytes) [1..<buffer_count_limit],
        ws_pending_writes = [], ws_in_flight = [],
        ws_submitted_writes = submitted_writes_new max_lsn,
        ws_writes_in_progress = 0, ws_file_offset = owf_file_offset opened,
        ws_allocated_size = owf_allocated_size opened,
        ws_next_buffer_epoch = word_of_nat buffer_count_limit + 1,
        ws_buffer_count_limit = buffer_count_limit,
        ws_buffer_capacity_bytes = buffer_capacity_bytes,
        ws_appended_lsn = max_lsn, ws_written_lsn = max_lsn, ws_durable_lsn = max_lsn,
        ws_requested_write_lsn = max_lsn, ws_requested_durable_lsn = max_lsn \<rparr>)"

section \<open>Sealing the active buffer\<close>

definition next_buffer_epoch_locked :: "WalShard \<Rightarrow> WalShard \<times> u64" where
  "next_buffer_epoch_locked ws =
     (ws\<lparr> ws_next_buffer_epoch := max (ws_next_buffer_epoch ws + 1) 1 \<rparr>, ws_next_buffer_epoch ws)"

definition empty_buffer_locked :: "WalShard \<Rightarrow> (WalShard \<times> WalBuffer) option" where
  "empty_buffer_locked ws = do {
     let (ws, epoch) = next_buffer_epoch_locked ws;
     ensure (ws_spare_buffers ws \<noteq> []);
     let buffer = last (ws_spare_buffers ws);
     Some (ws\<lparr> ws_spare_buffers := butlast (ws_spare_buffers ws) \<rparr>, wal_buffer_reset epoch buffer) }"

definition WAL_PREALLOCATE_SEGMENTS :: nat where "WAL_PREALLOCATE_SEGMENTS = 8"

definition seal_active_buffer_locked :: "WalShard \<Rightarrow> (WalShard \<times> bool) option" where
  "seal_active_buffer_locked ws =
     (if wb_used (ws_active ws) = 0 then Some (ws, False)
      else do {
        let len = wb_used (ws_active ws);
        let max_lsn = wb_max_lsn (ws_active ws);
        let file_offset = ws_file_offset ws;
        let write_end = file_offset + len;
        ensure (write_end < 2 ^ 64);
        ws \<leftarrow> (if write_end > ws_allocated_size ws then do {
               size \<leftarrow> round_up_u64 write_end SEGMENT_SIZE;
               let new_size = size + SEGMENT_SIZE * (WAL_PREALLOCATE_SEGMENTS - 1);
               ensure (new_size < 2 ^ 64);
               Some (ws\<lparr> ws_file := extend_file new_size (ws_file ws), ws_allocated_size := new_size \<rparr>) }
             else Some ws);
        let ws = ws\<lparr> ws_file_offset := write_end \<rparr>;
        (ws, new_active) \<leftarrow> empty_buffer_locked ws;
        let buffer = ws_active ws;
        Some (ws\<lparr> ws_active := new_active,
          ws_pending_writes := ws_pending_writes ws @
            [\<lparr> pw_buffer = buffer, pw_file_offset = file_offset, pw_len = len, pw_max_lsn = max_lsn \<rparr>] \<rparr>, True) })"

section \<open>Appending\<close>

text \<open>The first half of \<open>reserve_active_record_slot_locked\<close>. When there is neither room in the
  active buffer nor a spare buffer the thread waits for \<open>flush_done\<close> with the lock released, and
  the second component is \<open>False\<close>; \<open>waited\<close> says that the thread comes back from such a wait,
  and then it seals without looking at the active buffer again.\<close>

definition reserve_room :: "bool \<Rightarrow> WalShard \<Rightarrow> (WalShard \<times> bool) option" where
  "reserve_room waited ws =
     (let active = (ws_active ws)\<lparr> wb_packed_logical := None \<rparr>;
          ws = ws\<lparr> ws_active := (if waited then ws_active ws else active) \<rparr> in
      if waited \<or> wb_used active + record_bytes_needed active > ws_buffer_capacity_bytes ws then
        if ws_spare_buffers ws = [] then Some (ws, False)
        else do { (ws, _) \<leftarrow> seal_active_buffer_locked ws; Some (ws, True) }
      else Some (ws, True))"

text \<open>One turn of an appending loop: a slot is reserved, its page filled, its entry written.\<close>

definition append_slot :: "bool \<Rightarrow> BatchEntry \<Rightarrow> bytes \<Rightarrow> WalShard \<Rightarrow> (WalShard \<times> (nat \<times> nat) option) option" where
  "append_slot waited entry data ws = do {
     (ws, ready) \<leftarrow> reserve_room waited ws;
     if \<not> ready then Some (ws, None)
     else do {
       (active, meta_start, slot_idx, data_start) \<leftarrow> append_entry entry data (ws_active ws);
       Some (ws\<lparr> ws_active := active \<rparr>, Some (meta_start, slot_idx)) } }"

definition note_appended :: "Lsn \<Rightarrow> WalShard \<Rightarrow> WalShard" where
  "note_appended lsn ws = ws\<lparr> ws_appended_lsn := max (ws_appended_lsn ws) lsn \<rparr>"

record BufferedWalRecord =
  br_epoch :: u64
  br_offset :: u32
  br_shard_idx :: nat

text \<open>A page image; the page is what the caller's closure fills in. No handle means that the thread
  waits.\<close>

definition append_page_image_with_lsn ::
    "bool \<Rightarrow> nat \<Rightarrow> Lsn \<Rightarrow> PageId \<Rightarrow> bytes \<Rightarrow> WalShard \<Rightarrow> (WalShard \<times> BufferedWalRecord option) option" where
  "append_page_image_with_lsn waited shard_idx lsn page_id page ws = do {
     (ws, pos) \<leftarrow> append_slot waited (page_image lsn page_id 0) page ws;
     (case pos of
        None \<Rightarrow> Some (ws, None)
      | Some (meta_start, slot_idx) \<Rightarrow> do {
          off \<leftarrow> encode_record_offset meta_start slot_idx;
          let ws = note_appended lsn ws;
          Some (ws, Some \<lparr> br_epoch = wb_epoch (ws_active ws), br_offset = off, br_shard_idx = shard_idx \<rparr>) }) }"

text \<open>The chunk loop of \<open>append_logical_record_with_lsn\<close>: the entry and the page of one chunk.\<close>

definition chunk_entry :: "Lsn \<Rightarrow> u64 \<Rightarrow> bytes \<Rightarrow> nat \<Rightarrow> log_entry" where
  "chunk_entry lsn kind payload chunk_idx =
     (let chunks = chunk_count (length payload);
          start = chunk_idx * LOGICAL_CHUNK_MAX_LEN;
          chunk = (if start < length payload
                   then read_at start (min (start + LOGICAL_CHUNK_MAX_LEN) (length payload) - start) payload
                   else []);
          flags = (if chunk_idx = 0 then LOGICAL_FLAG_FIRST else 0) OR
                  (if chunk_idx + 1 = chunks then LOGICAL_FLAG_LAST else 0) in
      (logical_chunk lsn kind 0 flags (length chunk), padded chunk))"

definition chunk_entries :: "Lsn \<Rightarrow> u64 \<Rightarrow> bytes \<Rightarrow> log_entry list" where
  "chunk_entries lsn kind payload = map (chunk_entry lsn kind payload) [0..<chunk_count (length payload)]"

text \<open>The chunks that are still to be appended; the loop runs until it is done or has to wait.\<close>

fun append_chunks :: "bool \<Rightarrow> log_entry list \<Rightarrow> WalShard \<Rightarrow> (WalShard \<times> log_entry list) option" where
  "append_chunks waited [] ws = Some (ws, [])"
| "append_chunks waited ((entry, data) # chunks) ws = do {
     (ws, pos) \<leftarrow> append_slot waited entry data ws;
     if pos = None then Some (ws, (entry, data) # chunks) else append_chunks False chunks ws }"

text \<open>\<open>append_packed_logical_with_lsn\<close>; the last component says whether the record is in the log, or
  the thread waits.\<close>

definition append_packed_logical_with_lsn ::
    "bool \<Rightarrow> Lsn \<Rightarrow> u64 \<Rightarrow> bytes \<Rightarrow> WalShard \<Rightarrow> (io_error + WalShard \<times> bool) option" where
  "append_packed_logical_with_lsn waited lsn kind payload ws =
     (case packed_logical_entry_len (length payload) of
        None \<Rightarrow> Some (Inl InvalidInput)
      | Some entry_len \<Rightarrow>
          if entry_len > WAL_RECORD_SIZE then Some (Inl InvalidInput)
          else do {
            (active, added) \<leftarrow> (if waited then Some (ws_active ws, False)
              else try_append_packed_logical_locked lsn kind payload entry_len (ws_active ws));
            let ws = ws\<lparr> ws_active := active \<rparr>;
            if added then Some (Inr (note_appended lsn ws, True))
            else do {
              (ws, ready) \<leftarrow> reserve_room waited ws;
              if \<not> ready then Some (Inr (ws, False))
              else do {
                active \<leftarrow> append_packed_slot lsn kind payload (ws_active ws);
                Some (Inr (note_appended lsn (ws\<lparr> ws_active := active \<rparr>), True)) } } })"

section \<open>Overwriting a buffered page image\<close>

definition shard_idx_for_lsn :: "nat \<Rightarrow> Lsn \<Rightarrow> nat" where
  "shard_idx_for_lsn shard_count lsn =
     (if shard_count = 1 then 0 else (unat lsn - 1) mod shard_count)"

definition overwrite_buffered_page_image_with_lsn ::
    "nat \<Rightarrow> BufferedWalRecord \<Rightarrow> Lsn \<Rightarrow> PageId \<Rightarrow> bytes \<Rightarrow> WalShard \<Rightarrow> (WalShard \<times> bool) option" where
  "overwrite_buffered_page_image_with_lsn shard_count record lsn page_id page ws =
     (if br_shard_idx record \<noteq> shard_idx_for_lsn shard_count lsn then Some (ws, False)
      else if wb_epoch (ws_active ws) \<noteq> br_epoch record then Some (ws, False)
      else do {
        (active, done') \<leftarrow> overwrite_buffered_page_image (br_offset record) lsn page_id page (ws_active ws);
        if done' then Some (note_appended lsn (ws\<lparr> ws_active := active \<rparr>), True) else Some (ws, False) })"

section \<open>The driver\<close>

definition pop_pending_write_locked :: "WalShard \<Rightarrow> WalShard" where
  "pop_pending_write_locked ws =
     (case ws_pending_writes ws of
        [] \<Rightarrow> ws
      | w # writes \<Rightarrow> ws\<lparr> ws_pending_writes := writes, ws_in_flight := ws_in_flight ws @ [w],
          ws_submitted_writes := submitted_writes_push (pw_max_lsn w) (ws_submitted_writes ws),
          ws_writes_in_progress := ws_writes_in_progress ws + 1 \<rparr>)"

text \<open>The critical section of one turn of \<open>driver_loop\<close>: seal the active buffer if nothing is
  pending, and take the next write. \<open>relaxed_due\<close> is \<open>relaxed_mode && should_write_relaxed\<close>, which
  depends on the clock; \<open>shutting_down\<close> is the shutdown flag.\<close>

definition should_write :: "nat \<Rightarrow> bool \<Rightarrow> bool \<Rightarrow> WalShard \<Rightarrow> bool" where
  "should_write max_in_flight_writes relaxed_due shutting_down ws =
     (can_submit_write (ws_writes_in_progress ws) max_in_flight_writes \<and>
      (ws_pending_writes ws \<noteq> [] \<or> ws_spare_buffers ws \<noteq> []) \<and>
      (ws_requested_write_lsn ws > ws_written_lsn ws \<or> ws_pending_writes ws \<noteq> [] \<or> relaxed_due \<or>
       (shutting_down \<and> wb_used (ws_active ws) > 0)))"

definition driver_submit :: "nat \<Rightarrow> bool \<Rightarrow> bool \<Rightarrow> WalShard \<Rightarrow> WalShard option" where
  "driver_submit max_in_flight_writes relaxed_due shutting_down ws =
     (if should_write max_in_flight_writes relaxed_due shutting_down ws then do {
        ws \<leftarrow> (if ws_pending_writes ws = [] \<and> wb_used (ws_active ws) > 0
               then map_option fst (seal_active_buffer_locked ws) else Some ws);
        Some (pop_pending_write_locked ws) }
      else Some ws)"

text \<open>\<open>submit_write\<close> of the synchronous back ends: the checksums are filled in and the buffer is
  written to the file.\<close>

definition submit_write :: "crc_fn \<Rightarrow> PendingWalWrite \<Rightarrow> WalShard \<Rightarrow> (WalShard \<times> PendingWalWrite) option" where
  "submit_write crc w ws = do {
     buffer \<leftarrow> finalize_buffer_records crc (pw_len w) (pw_buffer w);
     ensure (pw_len w \<le> length (wb_buffer buffer));
     Some (ws\<lparr> ws_file := pwrite_all (take (pw_len w) (wb_buffer buffer)) (pw_file_offset w) (ws_file ws) \<rparr>,
       w\<lparr> pw_buffer := buffer \<rparr>) }"

definition advance_durable_lsn :: "Lsn \<Rightarrow> WalShard \<Rightarrow> WalShard" where
  "advance_durable_lsn lsn ws = ws\<lparr> ws_durable_lsn := max (ws_durable_lsn ws) lsn \<rparr>"

text \<open>\<open>handle_completion\<close> of a write: the buffer goes back to the spare ones. \<open>durable\<close> is the
  number the back end reports as durable with the write.\<close>

definition handle_written :: "PendingWalWrite \<Rightarrow> Lsn option \<Rightarrow> WalShard \<Rightarrow> WalShard option" where
  "handle_written w durable ws = do {
     (submitted, contiguous_written) \<leftarrow> submitted_writes_complete (pw_max_lsn w) (ws_submitted_writes ws);
     let ws = ws\<lparr> ws_submitted_writes := submitted \<rparr>;
     let (ws, epoch) = next_buffer_epoch_locked ws;
     ensure (ws_writes_in_progress ws > 0);
     let ws = ws\<lparr> ws_spare_buffers := ws_spare_buffers ws @ [wal_buffer_reset epoch (pw_buffer w)],
       ws_writes_in_progress := ws_writes_in_progress ws - 1 \<rparr>;
     let ws = (case contiguous_written of None \<Rightarrow> ws
               | Some written \<Rightarrow> ws\<lparr> ws_written_lsn := max (ws_written_lsn ws) written \<rparr>);
     Some (case durable of None \<Rightarrow> ws | Some lsn \<Rightarrow> advance_durable_lsn lsn ws) }"

text \<open>\<open>write_sealed_buffer\<close>: \<open>pwritev2\<close> is the back end whose writes are durable when they return.\<close>

definition write_sealed_buffer :: "crc_fn \<Rightarrow> bool \<Rightarrow> PendingWalWrite \<Rightarrow> WalShard \<Rightarrow> WalShard option" where
  "write_sealed_buffer crc pwritev2 w ws = do {
     (ws, w) \<leftarrow> submit_write crc w ws;
     handle_written w (if pwritev2 then Some (pw_max_lsn w) else None) ws }"

text \<open>\<open>ws_in_flight\<close> is the local variable of \<open>driver_loop\<close> between the critical section and the
  write, which happens without the lock.\<close>

definition driver_write :: "crc_fn \<Rightarrow> bool \<Rightarrow> WalShard \<Rightarrow> WalShard option" where
  "driver_write crc pwritev2 ws =
     (case ws_in_flight ws of
        [] \<Rightarrow> Some ws
      | w # writes \<Rightarrow> write_sealed_buffer crc pwritev2 w (ws\<lparr> ws_in_flight := writes \<rparr>))"

definition request_durable :: "Lsn \<Rightarrow> WalShard \<Rightarrow> WalShard" where
  "request_durable target_lsn ws = ws\<lparr> ws_requested_durable_lsn := max (ws_requested_durable_lsn ws) target_lsn,
     ws_requested_write_lsn := max (ws_requested_write_lsn ws) target_lsn \<rparr>"

definition current_flush_target :: "WalShard \<Rightarrow> Lsn" where
  "current_flush_target ws = ws_appended_lsn ws"

definition advance_lsn_past :: "Lsn \<Rightarrow> WalShard \<Rightarrow> WalShard" where
  "advance_lsn_past min_lsn ws = ws\<lparr> ws_appended_lsn := max (ws_appended_lsn ws) min_lsn,
     ws_written_lsn := max (ws_written_lsn ws) min_lsn, ws_durable_lsn := max (ws_durable_lsn ws) min_lsn,
     ws_requested_write_lsn := max (ws_requested_write_lsn ws) min_lsn,
     ws_requested_durable_lsn := max (ws_requested_durable_lsn ws) min_lsn \<rparr>"

section \<open>Resetting a shard\<close>

fun fresh_spares :: "nat \<Rightarrow> WalShard \<Rightarrow> WalShard" where
  "fresh_spares 0 ws = ws"
| "fresh_spares (Suc n) ws =
     (let (ws, epoch) = next_buffer_epoch_locked ws in
      fresh_spares n (ws\<lparr> ws_spare_buffers :=
        ws_spare_buffers ws @ [wal_buffer_new epoch (ws_buffer_capacity_bytes ws)] \<rparr>))"

definition wal_inner_reset :: "bool \<Rightarrow> WalShard \<Rightarrow> WalShard" where
  "wal_inner_reset direct_io ws =
     (let ws = ws\<lparr> ws_file := pwrite_all (build_wal_header direct_io) 0 (extend_file 0 (ws_file ws)),
            ws_file_offset := WAL_HEADER_SIZE \<rparr>;
          (ws, epoch) = next_buffer_epoch_locked ws;
          ws = ws\<lparr> ws_active := wal_buffer_reset epoch (ws_active ws), ws_pending_writes := [],
            ws_spare_buffers := [] \<rparr>;
          ws = fresh_spares (ws_buffer_count_limit ws - 1) ws in
      ws\<lparr> ws_file := extend_file SEGMENT_SIZE (ws_file ws), ws_allocated_size := SEGMENT_SIZE \<rparr>)"

section \<open>What a shard holds\<close>

text \<open>A queue of writes, one behind the other in the file from an offset on.\<close>

fun writes_at :: "nat \<Rightarrow> nat \<Rightarrow> PendingWalWrite list \<Rightarrow> log_entry list list list \<Rightarrow> bool" where
  "writes_at cap off [] [] = True"
| "writes_at cap off (w # writes) (rss # rsss) = (pw_file_offset w = off \<and>
     buffer_holds (pw_buffer w) rss \<and> pw_len w = wb_used (pw_buffer w) \<and>
     pw_max_lsn w = wb_max_lsn (pw_buffer w) \<and>
     length (wb_buffer (pw_buffer w)) = cap \<and> (\<forall>rs \<in> set rss. \<forall>r \<in> set rs. good_entry r) \<and>
     writes_at cap (off + pw_len w) writes rsss)"
| "writes_at cap off _ _ = False"

lemma writes_at_append:
  assumes "writes_at cap off ws rsss" "writes_at cap (off + log_bytes (concat rsss)) us usss"
  shows "writes_at cap off (ws @ us) (rsss @ usss)"
  using assms
  by (induction cap off ws rsss rule: writes_at.induct) (auto simp: buffer_holds_used add.assoc)

lemma writes_at_Cons:
  "writes_at cap off (w # writes) rsss \<longleftrightarrow> (\<exists>rss rsss'. rsss = rss # rsss' \<and> pw_file_offset w = off \<and>
     buffer_holds (pw_buffer w) rss \<and> pw_len w = wb_used (pw_buffer w) \<and>
     pw_max_lsn w = wb_max_lsn (pw_buffer w) \<and>
     length (wb_buffer (pw_buffer w)) = cap \<and> (\<forall>rs \<in> set rss. \<forall>r \<in> set rs. good_entry r) \<and>
     writes_at cap (off + pw_len w) writes rsss')"
  by (cases rsss) auto

text \<open>The log of a shard: the batches in the file, those of the queued writes, those of the active
  buffer.\<close>

definition file_holds :: "crc_fn \<Rightarrow> bytes \<Rightarrow> log_entry list list \<Rightarrow> bool" where
  "file_holds crc file rss = (\<exists>H B n. file = H @ B @ replicate n 0 \<and> length H = WAL_HEADER_SIZE \<and>
     validate_wal_header H = Inr () \<and> batches_sealed crc B rss)"

definition shard_holds ::
    "crc_fn \<Rightarrow> WalShard \<Rightarrow> log_entry list list \<Rightarrow> log_entry list list list \<Rightarrow> log_entry list list \<Rightarrow> bool" where
  "shard_holds crc ws fss qsss ass = (file_holds crc (ws_file ws) fss \<and>
     length (ws_file ws) = ws_allocated_size ws \<and> ws_file_offset ws \<le> ws_allocated_size ws \<and>
     ws_file_offset ws = WAL_HEADER_SIZE + log_bytes fss + log_bytes (concat qsss) \<and>
     writes_at (ws_buffer_capacity_bytes ws) (WAL_HEADER_SIZE + log_bytes fss)
       (ws_in_flight ws @ ws_pending_writes ws) qsss \<and>
     ws_writes_in_progress ws = length (ws_in_flight ws) \<and>
     sw_entries (ws_submitted_writes ws) = map (\<lambda>w. (pw_max_lsn w, False)) (ws_in_flight ws) \<and>
     buffer_holds (ws_active ws) ass \<and> packed_slot_ok (ws_active ws) ass \<and>
     (\<forall>rs \<in> set ass. \<forall>r \<in> set rs. good_entry r) \<and>
     length (wb_buffer (ws_active ws)) = ws_buffer_capacity_bytes ws \<and>
     (\<forall>b \<in> set (ws_spare_buffers ws). length (wb_buffer b) = ws_buffer_capacity_bytes ws) \<and>
     2 * PAGE_SIZE \<le> ws_buffer_capacity_bytes ws \<and>
     1 + length (ws_spare_buffers ws) + length (ws_in_flight ws) + length (ws_pending_writes ws) =
       ws_buffer_count_limit ws \<and> 2 \<le> ws_buffer_count_limit ws \<and>
     (ass = [] \<longrightarrow> wb_max_lsn (ws_active ws) = 0))"

lemma reset_holds [simp]:
  "buffer_holds (wal_buffer_reset epoch b) []" "packed_slot_ok (wal_buffer_reset epoch b) []"
  "buffer_holds (wal_buffer_new epoch cap) []" "packed_slot_ok (wal_buffer_new epoch cap) []"
  "wb_buffer (wal_buffer_reset epoch b) = wb_buffer b" "wb_used (wal_buffer_reset epoch b) = 0"
  "wb_max_lsn (wal_buffer_reset epoch b) = 0"
  by (simp_all add: buffer_holds_def packed_slot_ok_def wal_buffer_reset_def wal_buffer_new_def)

lemma buffer_holds_nonempty: "buffer_holds b rss \<Longrightarrow> wb_used b = 0 \<longleftrightarrow> rss = []"
  by (cases rss) (auto simp: buffer_holds_used PAGE_SIZE_def)

lemma file_holds_extend:
  "file_holds crc file rss \<Longrightarrow> length file \<le> sz \<Longrightarrow> file_holds crc (extend_file sz file) rss"
  by (auto simp: file_holds_def extend_file_def replicate_add [symmetric]) blast

lemma round_up_segment: "round_up_u64 n SEGMENT_SIZE = Some t \<Longrightarrow> n \<le> t"
  using round_up_bounds [of n 26] by (auto simp: SEGMENT_SIZE_def round_up_u64_def)

lemma seal_shape:
  assumes "seal_active_buffer_locked ws = Some (ws', sd)" "wb_used (ws_active ws) \<noteq> 0"
  shows "sd \<and> (\<exists>sz e e'. ws_file_offset ws + wb_used (ws_active ws) \<le> sz \<and> ws_allocated_size ws \<le> sz \<and>
    ws_spare_buffers ws \<noteq> [] \<and>
    ws' = ws\<lparr> ws_file := (if sz = ws_allocated_size ws then ws_file ws else extend_file sz (ws_file ws)),
      ws_allocated_size := sz, ws_file_offset := ws_file_offset ws + wb_used (ws_active ws),
      ws_next_buffer_epoch := e, ws_spare_buffers := butlast (ws_spare_buffers ws),
      ws_active := wal_buffer_reset e' (last (ws_spare_buffers ws)),
      ws_pending_writes := ws_pending_writes ws @ [\<lparr> pw_buffer = ws_active ws,
        pw_file_offset = ws_file_offset ws, pw_len = wb_used (ws_active ws),
        pw_max_lsn = wb_max_lsn (ws_active ws) \<rparr>] \<rparr>)"
proof -
  let ?we = "ws_file_offset ws + wb_used (ws_active ws)"
  show ?thesis
  proof (cases "?we > ws_allocated_size ws")
    case False
    then show ?thesis
      using assms
      by (intro conjI exI [of _ "ws_allocated_size ws"])
        (auto simp: seal_active_buffer_locked_def empty_buffer_locked_def next_buffer_epoch_locked_def Let_def
          bind_eq_Some_conv)
  next
    case True
    then obtain t where t: "round_up_u64 ?we SEGMENT_SIZE = Some t"
      using assms by (auto simp: seal_active_buffer_locked_def Let_def bind_eq_Some_conv)
    let ?sz = "t + SEGMENT_SIZE * (WAL_PREALLOCATE_SEGMENTS - 1)"
    have "?we \<le> ?sz" "?sz \<noteq> ws_allocated_size ws" using round_up_segment [OF t] True by simp_all
    then show ?thesis
      using assms t True
      by (intro conjI exI [of _ ?sz])
        (auto simp: seal_active_buffer_locked_def empty_buffer_locked_def next_buffer_epoch_locked_def Let_def
          bind_eq_Some_conv)
  qed
qed

text \<open>The parts of a shard that appending leaves alone.\<close>

definition same_progress :: "WalShard \<Rightarrow> WalShard \<Rightarrow> bool" where
  "same_progress ws ws' = (ws_in_flight ws' = ws_in_flight ws \<and>
     ws_submitted_writes ws' = ws_submitted_writes ws \<and> ws_writes_in_progress ws' = ws_writes_in_progress ws \<and>
     ws_buffer_capacity_bytes ws' = ws_buffer_capacity_bytes ws \<and>
     ws_buffer_count_limit ws' = ws_buffer_count_limit ws \<and> ws_appended_lsn ws' = ws_appended_lsn ws \<and>
     ws_written_lsn ws' = ws_written_lsn ws \<and> ws_durable_lsn ws' = ws_durable_lsn ws \<and>
     ws_requested_write_lsn ws' = ws_requested_write_lsn ws \<and>
     ws_requested_durable_lsn ws' = ws_requested_durable_lsn ws)"

lemma same_progress_trans: "same_progress a b \<Longrightarrow> same_progress b c \<Longrightarrow> same_progress a c"
  by (simp add: same_progress_def)

text \<open>The active buffer may have been sealed, and nothing else happened to the log.\<close>

definition maybe_sealed :: "WalShard \<Rightarrow> log_entry list list list \<Rightarrow> log_entry list list \<Rightarrow>
    WalShard \<Rightarrow> log_entry list list list \<Rightarrow> log_entry list list \<Rightarrow> bool" where
  "maybe_sealed ws qsss ass ws' qsss' ass' = (same_progress ws ws' \<and>
     (qsss' = qsss \<and> ass' = ass \<and> ws_pending_writes ws' = ws_pending_writes ws \<and>
      ws_spare_buffers ws' = ws_spare_buffers ws \<and>
      wb_max_lsn (ws_active ws') = wb_max_lsn (ws_active ws) \<or>
      qsss' = qsss @ [ass] \<and> ass' = [] \<and> ass \<noteq> [] \<and> ws_spare_buffers ws' = butlast (ws_spare_buffers ws) \<and>
      (\<exists>w. ws_pending_writes ws' = ws_pending_writes ws @ [w] \<and> pw_max_lsn w = wb_max_lsn (ws_active ws)) \<and>
      wb_max_lsn (ws_active ws') = 0))"

lemma maybe_sealed_concat: "maybe_sealed ws qsss ass ws' qsss' ass' \<Longrightarrow> concat qsss' @ ass' = concat qsss @ ass"
  by (auto simp: maybe_sealed_def)

lemma seal_holds:
  assumes "shard_holds crc ws fss qsss ass" "seal_active_buffer_locked ws = Some (ws', sd)"
  shows "shard_holds crc ws' fss (if ass = [] then qsss else qsss @ [ass]) [] \<and>
    maybe_sealed ws qsss ass ws' (if ass = [] then qsss else qsss @ [ass]) []"
proof (cases "ass = []")
  case True
  then have "wb_used (ws_active ws) = 0" using assms(1) buffer_holds_nonempty by (auto simp: shard_holds_def)
  then show ?thesis
    using assms True by (auto simp: seal_active_buffer_locked_def maybe_sealed_def same_progress_def)
next
  case False
  have h: "buffer_holds (ws_active ws) ass" using assms(1) by (simp add: shard_holds_def)
  then have u: "wb_used (ws_active ws) \<noteq> 0" "wb_used (ws_active ws) = log_bytes ass"
    using False buffer_holds_nonempty [OF h] buffer_holds_used [OF h] by blast+
  obtain sz e e' where w: "ws_file_offset ws + log_bytes ass \<le> sz" "ws_allocated_size ws \<le> sz"
    "ws_spare_buffers ws \<noteq> []"
    "ws' = ws\<lparr> ws_file := (if sz = ws_allocated_size ws then ws_file ws else extend_file sz (ws_file ws)),
      ws_allocated_size := sz, ws_file_offset := ws_file_offset ws + log_bytes ass,
      ws_next_buffer_epoch := e, ws_spare_buffers := butlast (ws_spare_buffers ws),
      ws_active := wal_buffer_reset e' (last (ws_spare_buffers ws)),
      ws_pending_writes := ws_pending_writes ws @ [\<lparr> pw_buffer = ws_active ws,
        pw_file_offset = ws_file_offset ws, pw_len = log_bytes ass,
        pw_max_lsn = wb_max_lsn (ws_active ws) \<rparr>] \<rparr>"
    using seal_shape [OF assms(2) u(1)] unfolding u(2) by blast
  have q: "writes_at (ws_buffer_capacity_bytes ws) (WAL_HEADER_SIZE + log_bytes fss)
      (ws_in_flight ws' @ ws_pending_writes ws') (qsss @ [ass])"
    unfolding w(4) using assms(1) u
    by (auto simp: shard_holds_def simp flip: append_assoc intro!: writes_at_append)
  have "length (extend_file sz (ws_file ws)) = sz" if "length (ws_file ws) \<le> sz"
    using that by (simp add: extend_file_def)
  then have f: "file_holds crc (ws_file ws') fss" "length (ws_file ws') = sz"
    using assms(1) w(2) unfolding w(4) by (auto simp: shard_holds_def intro: file_holds_extend)
  have sp: "length (wb_buffer b) = ws_buffer_capacity_bytes ws" if "b \<in> set (ws_spare_buffers ws)" for b
    using that assms(1) by (simp add: shard_holds_def)
  have "length (wb_buffer (last (ws_spare_buffers ws))) = ws_buffer_capacity_bytes ws"
    "0 < length (ws_spare_buffers ws)"
    using sp w(3) by simp_all
  then show ?thesis
    using assms(1) False w(1) q f sp
    unfolding w(4) by (auto simp: shard_holds_def maybe_sealed_def same_progress_def dest: in_set_butlastD)
qed

lemma reserve_room_holds:
  assumes "shard_holds crc ws fss qsss ass" "reserve_room waited ws = Some (ws', ready)"
  shows "\<exists>qsss' ass'. shard_holds crc ws' fss qsss' ass' \<and> maybe_sealed ws qsss ass ws' qsss' ass' \<and>
    (ready \<longrightarrow> wb_used (ws_active ws') + record_bytes_needed (ws_active ws') \<le> length (wb_buffer (ws_active ws')))"
proof -
  let ?a = "(ws_active ws)\<lparr> wb_packed_logical := None \<rparr>"
  let ?ws = "ws\<lparr> ws_active := (if waited then ws_active ws else ?a) \<rparr>"
  have h: "shard_holds crc ?ws fss qsss ass"
    using assms(1) by (auto simp: shard_holds_def buffer_holds_def packed_slot_ok_def)
  have same: "maybe_sealed ws qsss ass ?ws qsss ass" by (simp add: maybe_sealed_def same_progress_def)
  have n: "record_bytes_needed b \<le> 2 * PAGE_SIZE" for b
    by (simp add: record_bytes_needed_def WAL_RECORD_SIZE_def)
  show ?thesis
  proof (cases "waited \<or> wb_used ?a + record_bytes_needed ?a > ws_buffer_capacity_bytes ws")
    case False
    then have "ws' = ?ws" "ready" using assms(2) by (auto simp: reserve_room_def Let_def)
    then show ?thesis using h False same
      by (intro exI [of _ qsss] exI [of _ ass]) (auto simp: shard_holds_def)
  next
    case True
    show ?thesis
    proof (cases "ws_spare_buffers ws = []")
      case True': True
      then have "ws' = ?ws" "\<not> ready" using assms(2) True by (auto simp: reserve_room_def Let_def)
      then show ?thesis using h same by (intro exI [of _ qsss] exI [of _ ass]) auto
    next
      case False
      then obtain sd where "seal_active_buffer_locked ?ws = Some (ws', sd)"
        using assms(2) True by (auto simp: reserve_room_def Let_def bind_eq_Some_conv split: if_splits)
      from seal_holds [OF h this]
      have h': "shard_holds crc ws' fss (if ass = [] then qsss else qsss @ [ass]) []"
        and same': "maybe_sealed ?ws qsss ass ws' (if ass = [] then qsss else qsss @ [ass]) []" by simp_all
      have "maybe_sealed ws qsss ass ws' (if ass = [] then qsss else qsss @ [ass]) []"
        using same' by (auto simp: maybe_sealed_def same_progress_def split: if_splits)
      moreover have "wb_used (ws_active ws') = 0" "length (wb_buffer (ws_active ws')) = ws_buffer_capacity_bytes ws'"
        "2 * PAGE_SIZE \<le> ws_buffer_capacity_bytes ws'"
        using h' by (auto simp: shard_holds_def buffer_holds_nonempty)
      ultimately show ?thesis
        using h' n [of "ws_active ws'"]
        by (intro exI [of _ "if ass = [] then qsss else qsss @ [ass]"] exI [of _ "[]"]) auto
    qed
  qed
qed

text \<open>Appending an entry: the batches \<open>as\<close> of the active buffer, after it may have been sealed, get
  one more entry.\<close>

lemma append_slot_holds:
  assumes "shard_holds crc ws fss qsss ass" "append_slot waited e d ws = Some (ws', pos)" "good_entry (e, d)"
  shows "\<exists>w qsss' as ass'. shard_holds crc ws' fss qsss' ass' \<and> maybe_sealed ws qsss ass w qsss' as \<and>
    same_progress w ws' \<and> ws_pending_writes ws' = ws_pending_writes w \<and>
    ws_spare_buffers ws' = ws_spare_buffers w \<and>
    concat ass' = concat as @ (if pos = None then [] else [(e, d)]) \<and>
    wb_max_lsn (ws_active ws') = (if pos \<noteq> None \<and> entry_completes e
      then max (wb_max_lsn (ws_active w)) (be_lsn e) else wb_max_lsn (ws_active w)) \<and>
    (\<forall>m i. pos = Some (m, i) \<longrightarrow> m mod WAL_RECORD_SIZE = 0 \<and> i < BATCH_MAX_RECORDS)"
proof -
  obtain w ready where w: "reserve_room waited ws = Some (w, ready)"
    using assms(2) by (auto simp: append_slot_def bind_eq_Some_conv)
  obtain qs as where h: "shard_holds crc w fss qs as" "maybe_sealed ws qsss ass w qs as"
    "ready \<longrightarrow> wb_used (ws_active w) + record_bytes_needed (ws_active w) \<le> length (wb_buffer (ws_active w))"
    using reserve_room_holds [OF assms(1) w] by blast
  show ?thesis
  proof (cases ready)
    case False
    then show ?thesis
      using assms(2) w h(1,2)
      by (intro exI [of _ w] exI [of _ qs] exI [of _ as]) (auto simp: append_slot_def same_progress_def)
  next
    case True
    have bh: "buffer_holds (ws_active w) as" and ld: "length d = PAGE_SIZE"
      using h(1) assms(3) by (simp_all add: shard_holds_def good_entry_def)
    have room: "wb_used (ws_active w) + record_bytes_needed (ws_active w) \<le> length (wb_buffer (ws_active w))"
      using h(3) True by simp
    obtain a init rs where a: "append_entry e d (ws_active w) =
        Some (a, log_bytes init, length rs, log_bytes init + (length rs + 1) * PAGE_SIZE)"
      "buffer_holds a (init @ [rs @ [(e, d)]])" "concat init @ rs = concat as"
      "length (wb_buffer a) = length (wb_buffer (ws_active w))" "wb_packed_logical a = None"
      "wb_max_lsn a = (if entry_completes e then max (wb_max_lsn (ws_active w)) (be_lsn e)
        else wb_max_lsn (ws_active w))"
      using append_entry_holds [OF bh room ld, of e] by blast
    have r: "ws' = w\<lparr> ws_active := a \<rparr>" "pos = Some (log_bytes init, length rs)"
      using assms(2) w True a(1) by (auto simp: append_slot_def)
    have "set (concat init @ rs) = set (concat as)" using a(3) by simp
    then have g: "\<forall>q \<in> set (init @ [rs @ [(e, d)]]). \<forall>r \<in> set q. good_entry r"
      using h(1) assms(3) unfolding shard_holds_def by auto
    have "length (rs @ [(e, d)]) \<le> BATCH_MAX_RECORDS"
    proof -
      obtain A B where "batch_ok B (rs @ [(e, d)])" "batches_in A init"
        using a(2) by (auto simp: buffer_holds_def elim: batches_in_snoc)
      then show ?thesis using meta_count_magic by (auto simp: batch_ok_def meta_holds_def)
    qed
    moreover have "log_bytes init mod WAL_RECORD_SIZE = 0"
      by (induction init) (auto simp: WAL_RECORD_SIZE_def mod_add_eq)
    moreover have "shard_holds crc ws' fss qs (init @ [rs @ [(e, d)]])"
      using h(1) a(2,4,5) g unfolding r(1) by (simp add: shard_holds_def packed_slot_ok_def)
    moreover have "concat (init @ [rs @ [(e, d)]]) = concat as @ [(e, d)]" using a(3) by simp
    ultimately show ?thesis
      using r h(2) a(6)
      by (intro exI [of _ w] exI [of _ qs] exI [of _ as] exI [of _ "init @ [rs @ [(e, d)]]"])
        (simp add: same_progress_def)
  qed
qed

end
