(* ===== verification/Wal_Log.thy ===== *)
theory Wal_Log
  imports Wal_Shard
begin

text \<open>
  The log of a shard as a sequence of records: what the entries in its file, its queued writes and
  its active buffer deliver when they are replayed, and how every operation of the shard changes it.
  The appending threads, the driver and the syncer are the steps of a transition relation.
\<close>

section \<open>The entries of the three kinds of records\<close>

lemma deliver_image:
  assumes "length page = PAGE_SIZE"
  shows "good_entry (page_image lsn pid c, page)"
    "replay_entry crc (sealed crc (page_image lsn pid c, page)) page p =
      ([PageImage lsn pid page], Continue (forget_partial p))"
proof -
  show g: "good_entry (page_image lsn pid c, page)"
    using assms by (simp add: good_entry_def page_image_def)
  show "replay_entry crc (sealed crc (page_image lsn pid c, page)) page p =
      ([PageImage lsn pid page], Continue (forget_partial p))"
    using validate_sealed [OF g, of crc]
    by (simp add: replay_entry_def sealed_def page_image_def entry_payload_def)
qed

definition packed_records :: "(Lsn \<times> u64 \<times> bytes) list \<Rightarrow> WalReplayRecord list" where
  "packed_records = map (\<lambda>(lsn, kind, payload). Logical lsn kind payload)"

lemma unat_u32_page: "n \<le> PAGE_SIZE \<Longrightarrow> unat (word_of_nat n :: u32) = n"
  by (simp add: unat_of_nat take_bit_eq_mod PAGE_SIZE_def)

lemma deliver_packed:
  assumes "packed_entry recs l r"
  shows "good_entry r"
    "replay_entry crc (sealed crc r) (snd r) p = (packed_records recs, Continue (forget_partial p))"
proof -
  let ?C = "concat (map packed_bytes recs)"
  obtain e d where r: "r = (e, d)" by (cases r)
  have e: "e = packed_logical l 0 (length ?C)" "length d = PAGE_SIZE" "length ?C \<le> PAGE_SIZE"
    "take (length ?C) d = ?C"
    using assms r by (auto simp: packed_entry_def Let_def)
  have n: "unat (be_len e) = length ?C" using e(1) unat_u32_page [OF e(3)] by (simp add: packed_logical_def)
  have k: "be_kind e = RECORD_KIND_LOGICAL_PACKED" "be_flags e = 0" using e(1) by (simp_all add: packed_logical_def)
  show g: "good_entry r" using e n k by (simp add: good_entry_def r)
  have pay: "entry_payload r = ?C" using e(4) n k by (simp add: entry_payload_def r record_kinds)
  have "length (snd (snd q)) < 2 ^ 32" if "q \<in> set recs" for q
  proof -
    have "length (packed_bytes q) \<le> length ?C" using that by (induction recs) auto
    then show ?thesis using e(3) by (simp add: PAGE_SIZE_def)
  qed
  then have "for_each_packed_logical_record ?C = (recs, True)" by (intro for_each_packed) blast
  then show "replay_entry crc (sealed crc r) (snd r) p = (packed_records recs, Continue (forget_partial p))"
    using validate_sealed_pair [OF g, of crc] pay k
    by (simp add: replay_entry_def sealed_def r packed_records_def record_kinds)
qed

section \<open>Chunks\<close>

definition chunk_part :: "Lsn \<Rightarrow> u64 \<Rightarrow> bytes \<Rightarrow> nat \<Rightarrow> partial_record" where
  "chunk_part lsn kind payload i = (if i = 0 then no_partial else (lsn, kind, take (i * PAGE_SIZE) payload))"

text \<open>What a complete logical record delivers.\<close>

definition logical_records :: "Lsn \<Rightarrow> u64 \<Rightarrow> bytes \<Rightarrow> WalReplayRecord list \<times> flow" where
  "logical_records lsn kind payload =
     (if kind = LOGICAL_KIND_PAGE_IMAGE_BYTES then
        (case decode_page_image_bytes_payload payload of
           None \<Rightarrow> ([], Stop) | Some (pid, page) \<Rightarrow> ([PageImage lsn pid page], Continue no_partial))
      else ([Logical lsn kind payload], Continue no_partial))"

lemma chunk_count_bounds:
  "0 < chunk_count n" "n \<le> chunk_count n * PAGE_SIZE" "0 < n \<Longrightarrow> (chunk_count n - 1) * PAGE_SIZE < n"
proof -
  let ?q = "(n + PAGE_SIZE - 1) div PAGE_SIZE"
  have c: "chunk_count n = max ?q 1" by (simp add: chunk_count_def LOGICAL_CHUNK_MAX_LEN_def)
  have p: "0 < PAGE_SIZE" by (simp add: PAGE_SIZE_def)
  have eq: "?q * PAGE_SIZE + (n + PAGE_SIZE - 1) mod PAGE_SIZE = n + PAGE_SIZE - 1" by (rule div_mult_mod_eq)
  have md: "(n + PAGE_SIZE - 1) mod PAGE_SIZE < PAGE_SIZE" using p by (rule mod_less_divisor)
  show "0 < chunk_count n" by (simp add: c)
  have "n \<le> ?q * PAGE_SIZE" using eq md p by linarith
  also have "\<dots> \<le> chunk_count n * PAGE_SIZE" by (simp add: c)
  finally show "n \<le> chunk_count n * PAGE_SIZE" .
  show "(chunk_count n - 1) * PAGE_SIZE < n" if "0 < n"
  proof (cases "?q \<le> 1")
    case True
    then have "chunk_count n = 1" by (simp add: c max_def)
    then show ?thesis using that by simp
  next
    case False
    then have "chunk_count n - 1 = ?q - 1" by (simp add: c)
    moreover have "(?q - 1) * PAGE_SIZE = ?q * PAGE_SIZE - PAGE_SIZE" by (simp add: diff_mult_distrib)
    moreover have "?q * PAGE_SIZE - PAGE_SIZE < n" using eq p that by linarith
    ultimately show ?thesis by simp
  qed
qed

lemma chunk_entry_shape:
  assumes "i < chunk_count (length payload)"
  shows "\<exists>c. fst (chunk_entry lsn kind payload i) = logical_chunk lsn kind 0
      ((if i = 0 then 1 else 0) OR (if i + 1 = chunk_count (length payload) then 2 else 0)) (length c) \<and>
    snd (chunk_entry lsn kind payload i) = c @ replicate (PAGE_SIZE - length c) 0 \<and>
    length c \<le> PAGE_SIZE \<and> take (i * PAGE_SIZE) payload @ c = take (Suc i * PAGE_SIZE) payload"
proof -
  let ?s = "i * PAGE_SIZE"
  let ?c = "if ?s < length payload then read_at ?s (min (?s + PAGE_SIZE) (length payload) - ?s) payload else []"
  have l: "length ?c \<le> PAGE_SIZE" by auto
  have "take ?s payload @ ?c = take (Suc i * PAGE_SIZE) payload"
  proof (cases "?s < length payload")
    case True
    then have "take (min (?s + PAGE_SIZE) (length payload) - ?s) (drop ?s payload) = take PAGE_SIZE (drop ?s payload)"
      by (auto simp: min_def)
    moreover have "take (Suc i * PAGE_SIZE) payload = take ?s payload @ take PAGE_SIZE (drop ?s payload)"
      using take_add [of ?s PAGE_SIZE payload] by (simp add: add.commute)
    ultimately show ?thesis using True by (simp add: read_at_def)
  qed simp
  then show ?thesis
    using l by (intro exI [of _ ?c]) (simp add: chunk_entry_def Let_def LOGICAL_CHUNK_MAX_LEN_def padded_def
        WAL_RECORD_SIZE_def LOGICAL_FLAG_FIRST_def LOGICAL_FLAG_LAST_def)
qed

lemma chunk_flags:
  fixes a b :: bool
  defines "f \<equiv> ((if a then 1 else 0) OR (if b then 2 else 0) :: byte)"
  shows "f AND NOT (LOGICAL_FLAG_FIRST OR LOGICAL_FLAG_LAST) = 0"
    "f AND LOGICAL_FLAG_FIRST = LOGICAL_FLAG_FIRST \<longleftrightarrow> a" "f AND LOGICAL_FLAG_LAST = LOGICAL_FLAG_LAST \<longleftrightarrow> b"
  by (cases a; cases b; simp add: f_def LOGICAL_FLAG_FIRST_def LOGICAL_FLAG_LAST_def)+

lemma deliver_chunk:
  fixes lsn :: Lsn and kind :: u64
  assumes "i < chunk_count (length payload)"
  defines "r \<equiv> chunk_entry lsn kind payload i"
  shows "good_entry r"
    "i + 1 < chunk_count (length payload) \<Longrightarrow> 0 < i \<longrightarrow> p = chunk_part lsn kind payload i \<Longrightarrow>
      replay_entry crc (sealed crc r) (snd r) p = ([], Continue (chunk_part lsn kind payload (Suc i)))"
    "i + 1 = chunk_count (length payload) \<Longrightarrow> 0 < i \<longrightarrow> p = chunk_part lsn kind payload i \<Longrightarrow>
      replay_entry crc (sealed crc r) (snd r) p = logical_records lsn kind payload"
proof -
  let ?n = "chunk_count (length payload)"
  obtain c where c: "fst r = logical_chunk lsn kind 0 ((if i = 0 then 1 else 0) OR (if i + 1 = ?n then 2 else 0)) (length c)"
    "snd r = c @ replicate (PAGE_SIZE - length c) 0" "length c \<le> PAGE_SIZE"
    "take (i * PAGE_SIZE) payload @ c = take (Suc i * PAGE_SIZE) payload"
    using chunk_entry_shape [OF assms(1), of lsn kind] unfolding r_def by blast
  have l: "unat (be_len (fst r)) = length c" using c(1) unat_u32_page [OF c(3)] by (simp add: logical_chunk_def)
  have k: "be_kind (fst r) = RECORD_KIND_LOGICAL" "be_lsn (fst r) = lsn" "be_arg (fst r) = kind"
    "be_flags (fst r) = (if i = 0 then 1 else 0) OR (if i + 1 = ?n then 2 else 0)"
    using c(1) by (simp_all add: logical_chunk_def)
  note fl = chunk_flags [of "i = 0" "i + 1 = ?n"]
  show g: "good_entry r"
    using c(2,3) k l fl(1) by (cases r) (auto simp: good_entry_def)
  have pay: "entry_payload r = c" using c(2) k l by (cases r) (simp add: entry_payload_def record_kinds)
  have pl: "take (i * PAGE_SIZE) payload \<noteq> []" if "0 < i"
  proof -
    have "payload \<noteq> []" using that assms(1) by (auto simp: chunk_count_def LOGICAL_CHUNK_MAX_LEN_def PAGE_SIZE_def)
    then show ?thesis using that by (simp add: PAGE_SIZE_def)
  qed
  have run: "replay_entry crc (sealed crc r) (snd r) p = replay_chunk (sealed crc r) c p" for p
    using validate_sealed_pair [OF g, of crc] pay k
    by (simp add: replay_entry_def sealed_def record_kinds)
  have sk: "be_lsn (fst r) = lsn" "be_arg (sealed crc r) = kind"
    "be_flags (sealed crc r) AND LOGICAL_FLAG_FIRST = LOGICAL_FLAG_FIRST \<longleftrightarrow> i = 0"
    "be_flags (sealed crc r) AND LOGICAL_FLAG_LAST = LOGICAL_FLAG_LAST \<longleftrightarrow> i + 1 = ?n"
    using k fl(2,3) by (simp_all add: sealed_def)
  show "replay_entry crc (sealed crc r) (snd r) p = ([], Continue (chunk_part lsn kind payload (Suc i)))"
    if "i + 1 < ?n" "0 < i \<longrightarrow> p = chunk_part lsn kind payload i"
    using that pl c(4) unfolding run
    by (cases "i = 0"; cases p) (simp_all add: replay_chunk_def sk Let_def chunk_part_def)
  have full: "take (Suc i * PAGE_SIZE) payload = payload" if "i + 1 = ?n"
    using chunk_count_bounds(2) [of "length payload"] that by simp
  show "replay_entry crc (sealed crc r) (snd r) p = logical_records lsn kind payload"
    if "i + 1 = ?n" "0 < i \<longrightarrow> p = chunk_part lsn kind payload i"
    using that pl c(4) full unfolding run
    by (cases "i = 0"; cases p) (simp_all add: replay_chunk_def sk Let_def chunk_part_def logical_records_def)
qed

section \<open>Appending a packed record\<close>

lemma deliver_snoc:
  assumes "deliver crc es p = (rlog, Continue q)"
  shows "deliver crc (es @ [r]) p = (let (recs, f) = replay_entry crc (sealed crc r) (snd r) q in (rlog @ recs, f))"
  using assms by (auto simp: deliver_append split: prod.splits flow.splits)

lemma deliver_snocD:
  assumes "deliver crc (es @ [r]) p = (rlog, Continue q)"
  obtains rlog' q' where "deliver crc es p = (rlog', Continue q')"
    "(let (recs, f) = replay_entry crc (sealed crc r) (snd r) q' in (rlog' @ recs, f)) = (rlog, Continue q)"
  using assms that by (auto simp: deliver_append split: prod.splits flow.splits)

abbreviation shard_entries ::
    "log_entry list list \<Rightarrow> log_entry list list list \<Rightarrow> log_entry list list \<Rightarrow> log_entry list" where
  "shard_entries fss qsss ass \<equiv> concat (fss @ concat qsss @ ass)"

lemma append_packed_holds:
  assumes "shard_holds crc ws fss qsss ass"
    and "append_packed_logical_with_lsn waited lsn kind payload ws = Some (Inr (ws', added))"
    and "length payload \<le> PACKED_LOGICAL_MAX_PAYLOAD_LEN"
    and "deliver crc (shard_entries fss qsss ass) no_partial = (rlog, Continue q)"
  shows "\<exists>w w' qsss' as ass' q'. shard_holds crc ws' fss qsss' ass' \<and> maybe_sealed ws qsss ass w qsss' as \<and>
    same_progress w w' \<and> ws_pending_writes ws' = ws_pending_writes w \<and>
    ws' = (if added then note_appended lsn w' else w') \<and>
    deliver crc (shard_entries fss qsss' ass') no_partial =
      (rlog @ (if added then [Logical lsn kind payload] else []), Continue q') \<and>
    wb_max_lsn (ws_active ws') = (if added then max (wb_max_lsn (ws_active w)) lsn else wb_max_lsn (ws_active w))"
proof -
  let ?n = "20 + length payload"
  have fit: "packed_logical_entry_len (length payload) = Some ?n" "?n \<le> WAL_RECORD_SIZE"
    using assms(3)
    by (simp_all add: packed_logical_entry_len_def checked_add_def PACKED_LOGICAL_ENTRY_HEADER_LEN_def
        PACKED_LOGICAL_MAX_PAYLOAD_LEN_def WAL_RECORD_SIZE_def PAGE_SIZE_def)
  have bh: "buffer_holds (ws_active ws) ass" "packed_slot_ok (ws_active ws) ass"
    using assms(1) by (simp_all add: shard_holds_def)
  let ?tr = "if waited then Some (ws_active ws, False)
    else try_append_packed_logical_locked lsn kind payload ?n (ws_active ws)"
  consider (old) "?tr = Some (ws_active ws, False)"
    | (new) b' xs rs r recs l r' where "?tr = Some (b', True)" "ass = xs @ [rs @ [r]]" "packed_entry recs l r"
      "buffer_holds b' (xs @ [rs @ [r']])" "packed_slot_ok b' (xs @ [rs @ [r']])"
      "packed_entry (recs @ [(lsn, kind, payload)]) (max l lsn) r'"
      "length (wb_buffer b') = length (wb_buffer (ws_active ws))"
      "wb_max_lsn b' = max (wb_max_lsn (ws_active ws)) lsn"
  proof (cases waited)
    case True
    then show ?thesis using that(1) by simp
  next
    case False
    then have eq: "?tr = try_append_packed_logical_locked lsn kind payload ?n (ws_active ws)" by simp
    show ?thesis using try_append_packed_holds [OF bh assms(3), of lsn kind] that unfolding eq by blast
  qed
  then show ?thesis
  proof cases
    case new
    let ?w = "ws\<lparr> ws_active := b' \<rparr>" and ?as = "xs @ [rs @ [r']]"
    have r: "ws' = note_appended lsn ?w" "added"
      using assms(2) fit new(1) by (auto simp: append_packed_logical_with_lsn_def)
    obtain rlog' q' where d: "deliver crc (concat fss @ concat (concat qsss) @ concat xs @ rs) no_partial = (rlog', Continue q')"
      "rlog = rlog' @ packed_records recs" "forget_partial q' = q"
      using assms(4) new(2) deliver_packed(2) [OF new(3), of crc]
      by (auto simp flip: append_assoc elim!: deliver_snocD)
    have "deliver crc (shard_entries fss qsss ?as) no_partial =
        (rlog @ [Logical lsn kind payload], Continue q)"
      using deliver_snoc [OF d(1), of r'] deliver_packed(2) [OF new(6), of crc q'] d(2,3)
      by (simp add: packed_records_def)
    moreover have "shard_holds crc ws' fss qsss ?as"
      using assms(1) new(2,4,5,7) deliver_packed(1) [OF new(6)] unfolding r(1)
      by (auto simp: shard_holds_def note_appended_def)
    ultimately show ?thesis
      using r new(8)
      by (intro exI [of _ ws] exI [of _ ?w] exI [of _ qsss] exI [of _ ass] exI [of _ ?as] exI [of _ q])
        (simp add: maybe_sealed_def same_progress_def note_appended_def)
  next
    case old
    obtain w ready where w: "reserve_room waited ws = Some (w, ready)"
      using assms(2) fit old by (auto simp: append_packed_logical_with_lsn_def bind_eq_Some_conv)
    obtain qs as where h: "shard_holds crc w fss qs as" "maybe_sealed ws qsss ass w qs as"
      "ready \<longrightarrow> wb_used (ws_active w) + record_bytes_needed (ws_active w) \<le> length (wb_buffer (ws_active w))"
      using reserve_room_holds [OF assms(1) w] by blast
    have es: "concat (concat qs @ as) = concat (concat qsss @ ass)"
      using maybe_sealed_concat [OF h(2)] by simp
    then have de: "deliver crc (shard_entries fss qs as) no_partial = (rlog, Continue q)"
      using assms(4) by simp
    show ?thesis
    proof (cases ready)
      case False
      then have "ws' = w" "\<not> added"
        using assms(2) fit old w by (auto simp: append_packed_logical_with_lsn_def)
      then show ?thesis
        using h de by (intro exI [of _ w] exI [of _ qs] exI [of _ as] exI [of _ q]) (simp add: same_progress_def)
    next
      case True
      have ba: "buffer_holds (ws_active w) as" using h(1) by (simp add: shard_holds_def)
      have room: "wb_used (ws_active w) + record_bytes_needed (ws_active w) \<le> length (wb_buffer (ws_active w))"
        using h(3) True by simp
      obtain b' xs rs r where b: "append_packed_slot lsn kind payload (ws_active w) = Some b'"
        "buffer_holds b' (xs @ [rs @ [r]])" "packed_slot_ok b' (xs @ [rs @ [r]])"
        "concat xs @ rs = concat as" "packed_entry [(lsn, kind, payload)] lsn r"
        "length (wb_buffer b') = length (wb_buffer (ws_active w))"
        "wb_max_lsn b' = max (wb_max_lsn (ws_active w)) lsn"
        using append_packed_slot_holds [OF ba room assms(3), of lsn kind] by blast
      let ?w = "w\<lparr> ws_active := b' \<rparr>" and ?as = "xs @ [rs @ [r]]"
      have r: "ws' = note_appended lsn ?w" "added"
        using assms(2) fit old w b(1) True by (auto simp: append_packed_logical_with_lsn_def)
      have "set (concat xs @ rs) = set (concat as)" using b(4) by simp
      then have g: "\<forall>q \<in> set ?as. \<forall>r \<in> set q. good_entry r"
        using h(1) deliver_packed(1) [OF b(5)] unfolding shard_holds_def by auto
      have sh: "shard_holds crc ws' fss qs ?as"
        using h(1) b(2,3,6) g unfolding r(1) by (simp add: shard_holds_def note_appended_def)
      have se: "shard_entries fss qs ?as = shard_entries fss qs as @ [r]" using b(4) by simp
      have "deliver crc (shard_entries fss qs ?as) no_partial =
          (rlog @ [Logical lsn kind payload], Continue (forget_partial q))"
        unfolding se using deliver_snoc [OF de, of r] deliver_packed(2) [OF b(5), of crc q]
        by (simp add: packed_records_def)
      then show ?thesis
        using r sh h(2) b(7)
        by (intro exI [of _ w] exI [of _ ?w] exI [of _ qs] exI [of _ as] exI [of _ ?as]
            exI [of _ "forget_partial q"])
          (simp add: same_progress_def note_appended_def)
    qed
  qed
qed

end
