(* ===== verification/Wal_System.thy ===== *)
theory Wal_System
  imports Wal_Log
begin

text \<open>
  A log shard as a concurrent system: one appending thread, the driver and the syncer of
  \<open>crates/wal/src/wal_impl.rs\<close> and \<open>backend.rs\<close>, which interleave wherever the code releases the
  lock of the shard. Records are appended in the order of their log sequence numbers. The theorems
  say what a reader of the file finds, at every moment and after a crash.
\<close>

section \<open>Appending threads\<close>

datatype job = ImageJob Lsn PageId bytes | PackedJob Lsn u64 bytes | ChunkJob Lsn u64 bytes "log_entry list"

fun job_lsn :: "job \<Rightarrow> Lsn" where
  "job_lsn (ImageJob lsn pid page) = lsn"
| "job_lsn (PackedJob lsn kind payload) = lsn"
| "job_lsn (ChunkJob lsn kind payload chunks) = lsn"

text \<open>The choice \<open>append_logical_record_with_lsn\<close> makes between one packed record and chunks.\<close>

definition append_logical_record_with_lsn :: "Lsn \<Rightarrow> u64 \<Rightarrow> bytes \<Rightarrow> job" where
  "append_logical_record_with_lsn lsn kind payload =
     (if kind \<noteq> LOGICAL_KIND_PAGE_IMAGE_BYTES \<and> length payload \<le> PACKED_LOGICAL_MAX_PAYLOAD_LEN
      then PackedJob lsn kind payload
      else ChunkJob lsn kind payload (chunk_entries lsn kind payload))"

definition append_page_image_bytes_with_lsn :: "Lsn \<Rightarrow> PageId \<Rightarrow> nat \<Rightarrow> bytes \<Rightarrow> job option" where
  "append_page_image_bytes_with_lsn lsn page_id page_len page = do {
     payload \<leftarrow> encode_page_image_bytes_payload page_id page_len page;
     Some (append_logical_record_with_lsn lsn LOGICAL_KIND_PAGE_IMAGE_BYTES payload) }"

definition append_page_patch_ranges_with_lsn :: "Lsn \<Rightarrow> PageId \<Rightarrow> (nat \<times> bytes) list \<Rightarrow> job option" where
  "append_page_patch_ranges_with_lsn lsn page_id ranges = do {
     payload \<leftarrow> encode_page_patch_ranges_payload page_id ranges;
     Some (append_logical_record_with_lsn lsn LOGICAL_KIND_PAGE_PATCH payload) }"

definition append_logical_with_lsn :: "Lsn \<Rightarrow> u64 \<Rightarrow> bytes \<Rightarrow> io_error + job" where
  "append_logical_with_lsn lsn kind payload =
     (case validate_caller_logical_kind kind of
        Inl e \<Rightarrow> Inl e | Inr _ \<Rightarrow> Inr (append_logical_record_with_lsn lsn kind payload))"

text \<open>An append runs with the lock held until it is finished, or until it waits for a spare buffer:
  then what is left of it is returned.\<close>

fun run_job :: "bool \<Rightarrow> job \<Rightarrow> WalShard \<Rightarrow> (WalShard \<times> job option) option" where
  "run_job waited (ImageJob lsn pid page) ws = do {
     (ws, handle) \<leftarrow> append_page_image_with_lsn waited 0 lsn pid page ws;
     Some (ws, if handle = None then Some (ImageJob lsn pid page) else None) }"
| "run_job waited (PackedJob lsn kind payload) ws = do {
     res \<leftarrow> append_packed_logical_with_lsn waited lsn kind payload ws;
     (case res of
        Inl e \<Rightarrow> None
      | Inr (ws, added) \<Rightarrow> Some (ws, if added then None else Some (PackedJob lsn kind payload))) }"
| "run_job waited (ChunkJob lsn kind payload chunks) ws = do {
     (ws, rest) \<leftarrow> append_chunks waited chunks ws;
     Some (if rest = [] then (note_appended lsn ws, None) else (ws, Some (ChunkJob lsn kind payload rest))) }"

text \<open>The record a job writes.\<close>

fun job_record :: "job \<Rightarrow> WalReplayRecord" where
  "job_record (ImageJob lsn pid page) = PageImage lsn pid page"
| "job_record (PackedJob lsn kind payload) = Logical lsn kind payload"
| "job_record (ChunkJob lsn kind payload chunks) = hd (fst (logical_records lsn kind payload))"

fun rec_lsn :: "WalReplayRecord \<Rightarrow> Lsn" where
  "rec_lsn (PageImage lsn pid page) = lsn"
| "rec_lsn (Logical lsn kind payload) = lsn"

text \<open>The calls of the interface that start an append.\<close>

inductive new_job :: "job \<Rightarrow> bool" where
  image: "length page = PAGE_SIZE \<Longrightarrow> new_job (ImageJob lsn pid page)"
| image_bytes: "append_page_image_bytes_with_lsn lsn pid n page = Some j \<Longrightarrow> new_job j"
| patch: "append_page_patch_ranges_with_lsn lsn pid ranges = Some j \<Longrightarrow> new_job j"
| logical: "append_logical_with_lsn lsn kind payload = Inr j \<Longrightarrow> new_job j"

section \<open>The system\<close>

text \<open>\<open>sys_log\<close> lists the records whose append has returned. \<open>sys_syncing\<close> is the number the syncer
  has read before it called \<open>fdatasync\<close>, with the file at that moment, and \<open>sys_disk\<close> is the
  content that is safe on disk.\<close>

record log_system =
  sys_shard :: WalShard
  sys_job :: "job option"
  sys_log :: "WalReplayRecord list"
  sys_syncing :: "(Lsn \<times> bytes) option"
  sys_disk :: bytes

definition sys_append :: "bool \<Rightarrow> job \<Rightarrow> log_system \<Rightarrow> log_system option" where
  "sys_append waited j s = do {
     (ws, rest) \<leftarrow> run_job waited j (sys_shard s);
     Some (s\<lparr> sys_shard := ws, sys_job := rest,
       sys_log := (if rest = None then sys_log s @ [job_record j] else sys_log s) \<rparr>) }"

text \<open>\<open>pwritev2\<close> selects the back end; the syncer exists only for the other one.\<close>

inductive log_step :: "crc_fn \<Rightarrow> bool \<Rightarrow> log_system \<Rightarrow> log_system \<Rightarrow> bool" for crc pwritev2 where
  append: "sys_job s = None \<Longrightarrow> new_job j \<Longrightarrow> ws_appended_lsn (sys_shard s) < job_lsn j \<Longrightarrow>
    sys_append False j s = Some s' \<Longrightarrow> log_step crc pwritev2 s s'"
| resume: "sys_job s = Some j \<Longrightarrow> ws_spare_buffers (sys_shard s) \<noteq> [] \<Longrightarrow>
    sys_append True j s = Some s' \<Longrightarrow> log_step crc pwritev2 s s'"
| request: "log_step crc pwritev2 s (s\<lparr> sys_shard := request_durable target (sys_shard s) \<rparr>)"
| submit: "driver_submit 1 relaxed_due shutting_down (sys_shard s) = Some ws \<Longrightarrow>
    log_step crc pwritev2 s (s\<lparr> sys_shard := ws \<rparr>)"
| write_file: "driver_write crc pwritev2 (sys_shard s) = Some ws \<Longrightarrow>
    log_step crc pwritev2 s (s\<lparr> sys_shard := ws, sys_disk := (if pwritev2 then ws_file ws else sys_disk s) \<rparr>)"
| sync_begin: "\<not> pwritev2 \<Longrightarrow> sys_syncing s = None \<Longrightarrow>
    ws_written_lsn (sys_shard s) > ws_durable_lsn (sys_shard s) \<Longrightarrow>
    log_step crc pwritev2 s (s\<lparr> sys_syncing := Some (ws_written_lsn (sys_shard s), ws_file (sys_shard s)) \<rparr>)"
| sync_end: "sys_syncing s = Some (lsn, file) \<Longrightarrow>
    log_step crc pwritev2 s (s\<lparr> sys_shard := advance_durable_lsn lsn (sys_shard s), sys_disk := file,
      sys_syncing := None \<rparr>)"

inductive log_reachable :: "crc_fn \<Rightarrow> bool \<Rightarrow> log_system \<Rightarrow> log_system \<Rightarrow> bool" for crc pwritev2 s where
  start: "log_reachable crc pwritev2 s s"
| step: "log_reachable crc pwritev2 s t \<Longrightarrow> log_step crc pwritev2 t u \<Longrightarrow> log_reachable crc pwritev2 s u"

text \<open>The system after a file has been opened.\<close>

definition opened_system :: "crc_fn \<Rightarrow> OpenWalFile \<Rightarrow> bytes \<Rightarrow> nat \<Rightarrow> log_system" where
  "opened_system crc opened file records =
     \<lparr> sys_shard = wal_inner_new opened file 1 (wal_buffer_capacity_for_records records), sys_job = None,
       sys_log = (case replay_records crc file (owf_file_offset opened) of
         Some (records, _) \<Rightarrow> records | None \<Rightarrow> []),
       sys_syncing = None, sys_disk = file \<rparr>"

section \<open>The order of the log sequence numbers\<close>

text \<open>The records of the log that a prefix of its entries does not deliver.\<close>

definition unlogged :: "crc_fn \<Rightarrow> WalReplayRecord list \<Rightarrow> log_entry list \<Rightarrow> WalReplayRecord list" where
  "unlogged crc rlog es = drop (length (fst (deliver crc es no_partial))) rlog"

abbreviation queue :: "WalShard \<Rightarrow> PendingWalWrite list" where
  "queue ws \<equiv> ws_in_flight ws @ ws_pending_writes ws"

definition lsn_ok :: "crc_fn \<Rightarrow> WalShard \<Rightarrow> log_entry list list \<Rightarrow> log_entry list list list \<Rightarrow>
    WalReplayRecord list \<Rightarrow> bool" where
  "lsn_ok crc ws fss qsss rlog = (
     (\<forall>k \<le> length qsss. \<forall>r \<in> set (unlogged crc rlog (concat (fss @ concat (take k qsss)))).
        \<forall>m \<in> set (map pw_max_lsn (take k (queue ws))). m < rec_lsn r) \<and>
     (\<forall>r \<in> set (unlogged crc rlog (concat fss)). ws_written_lsn ws < rec_lsn r) \<and>
     sw_high_water_lsn (ws_submitted_writes ws) = ws_written_lsn ws \<and>
     (\<forall>m \<in> insert (wb_max_lsn (ws_active ws)) (set (map pw_max_lsn (queue ws))). m \<le> ws_appended_lsn ws) \<and>
     ws_written_lsn ws \<le> ws_appended_lsn ws \<and>
     (\<exists>m \<in> {ws_written_lsn ws, wb_max_lsn (ws_active ws)} \<union> set (map pw_max_lsn (queue ws)).
        ws_appended_lsn ws \<le> m))"

lemma deliver_prefix:
  assumes "deliver crc (es @ fs) p = (rlog, Continue q)"
  obtains log' q' log'' where "deliver crc es p = (log', Continue q')"
    "deliver crc fs q' = (log'', Continue q)" "rlog = log' @ log''"
  using assms that by (auto simp: deliver_append split: prod.splits flow.splits)

lemma unlogged_all: "deliver crc es no_partial = (rlog, Continue q) \<Longrightarrow> unlogged crc rlog es = []"
  by (simp add: unlogged_def)

lemma unlogged_append:
  assumes "deliver crc (es @ fs) no_partial = (rlog, Continue q)"
  shows "unlogged crc (rlog @ rs) es = unlogged crc rlog es @ rs"
  using assms by (auto simp: unlogged_def elim!: deliver_prefix)

lemma writes_at_length: "writes_at cap off ws rsss \<Longrightarrow> length ws = length rsss"
  by (induction cap off ws rsss rule: writes_at.induct) auto

lemma shard_queue_length: "shard_holds crc ws fss qsss ass \<Longrightarrow> length (queue ws) = length qsss"
  unfolding shard_holds_def by (elim conjE, rule writes_at_length)

lemma maybe_sealed_lsn:
  assumes "shard_holds crc ws fss qsss ass" "deliver crc (shard_entries fss qsss ass) no_partial = (rlog, Continue q)"
    and "maybe_sealed ws qsss ass w qsss' as" "lsn_ok crc ws fss qsss rlog"
  shows "lsn_ok crc w fss qsss' rlog"
  using assms(3) unfolding maybe_sealed_def
proof (elim conjE disjE)
  assume s: "same_progress ws w" "qsss' = qsss @ [ass]"
    "\<exists>v. ws_pending_writes w = ws_pending_writes ws @ [v] \<and> pw_max_lsn v = wb_max_lsn (ws_active ws)"
    "wb_max_lsn (ws_active w) = 0"
  then obtain v where v: "queue w = queue ws @ [v]" "pw_max_lsn v = wb_max_lsn (ws_active ws)"
    by (auto simp: same_progress_def)
  have l: "length (queue ws) = length qsss" by (rule shard_queue_length [OF assms(1)])
  have "unlogged crc rlog (concat (fss @ concat (take k qsss'))) =
      (if k \<le> length qsss then unlogged crc rlog (concat (fss @ concat (take k qsss))) else [])"
    if "k \<le> length qsss'" for k
    using that s(2) unlogged_all [OF assms(2)] by (auto simp: le_Suc_eq)
  moreover have "take k (queue w) = (if k \<le> length qsss then take k (queue ws) else queue ws @ [v])"
    if "k \<le> length qsss'" for k
    using that s(2) l v(1) by (auto simp: le_Suc_eq simp del: append_assoc)
  ultimately show ?thesis
    using assms(4) s(1,4) v unfolding lsn_ok_def
    by (auto simp: same_progress_def s(2))
qed (use assms(4) in \<open>auto simp: lsn_ok_def same_progress_def\<close>)

lemma append_lsn:
  assumes "lsn_ok crc w fss qsss rlog"
    and "deliver crc (shard_entries fss qsss as) no_partial = (rlog, Continue q)"
    and "same_progress w w'" "ws' = note_appended lsn w'" "queue ws' = queue w"
    and "wb_max_lsn (ws_active ws') = max (wb_max_lsn (ws_active w)) lsn"
    and "rec_lsn r = lsn" "ws_appended_lsn w < lsn"
  shows "lsn_ok crc ws' fss qsss (rlog @ [r])"
proof -
  have u: "unlogged crc (rlog @ [r]) (concat (fss @ concat (take k qsss))) =
      unlogged crc rlog (concat (fss @ concat (take k qsss))) @ [r]" for k
  proof (rule unlogged_append)
    have "concat qsss = concat (take k qsss) @ concat (drop k qsss)"
      by (metis append_take_drop_id concat_append)
    then show "deliver crc (concat (fss @ concat (take k qsss)) @ concat (concat (drop k qsss) @ as)) no_partial =
        (rlog, Continue q)"
      using assms(2) by simp
  qed
  have f: "ws_written_lsn ws' = ws_written_lsn w" "ws_appended_lsn ws' = lsn"
    "sw_high_water_lsn (ws_submitted_writes ws') = sw_high_water_lsn (ws_submitted_writes w)"
    using assms(3,8) unfolding assms(4) by (auto simp: same_progress_def note_appended_def)
  have old: "m \<le> ws_appended_lsn w" if "m \<in> insert (wb_max_lsn (ws_active w)) (set (map pw_max_lsn (queue w)))" for m
    using assms(1) that unfolding lsn_ok_def by blast
  have lt: "m < lsn" if "m \<in> set (map pw_max_lsn (take k (queue w)))" for m k
    using old [of m] that assms(8) by (auto dest!: in_set_takeD intro: le_less_trans)
  have wr: "ws_written_lsn w < lsn" using assms(1,8) unfolding lsn_ok_def by (auto intro: le_less_trans)
  have mx: "wb_max_lsn (ws_active ws') = lsn"
    using old [of "wb_max_lsn (ws_active w)"] assms(6,8) by (auto simp: max_def)
  show ?thesis
    unfolding lsn_ok_def assms(5) f u mx
  proof (intro conjI)
    show "\<forall>k\<le>length qsss. \<forall>r\<in>set (unlogged crc rlog (concat (fss @ concat (take k qsss))) @ [r]).
        \<forall>m\<in>set (map pw_max_lsn (take k (queue w))). m < rec_lsn r"
      using assms(1) lt assms(7) unfolding lsn_ok_def by auto
    show "\<forall>r\<in>set (unlogged crc (rlog @ [r]) (concat fss)). ws_written_lsn w < rec_lsn r"
      using assms(1) wr assms(7) u [of 0] unfolding lsn_ok_def by auto
    show "sw_high_water_lsn (ws_submitted_writes w) = ws_written_lsn w"
      using assms(1) unfolding lsn_ok_def by blast
    show "\<forall>m\<in>insert lsn (set (map pw_max_lsn (queue w))). m \<le> lsn"
      using old assms(8) by (auto intro: order.trans less_imp_le)
  qed (use wr in auto)
qed

lemma lsn_ok_cong:
  assumes "lsn_ok crc w fss qsss rlog" "same_progress w w'" "ws_pending_writes w' = ws_pending_writes w"
    and "wb_max_lsn (ws_active w') = wb_max_lsn (ws_active w)"
  shows "lsn_ok crc w' fss qsss rlog"
  using assms by (simp add: lsn_ok_def same_progress_def)

section \<open>Running an append\<close>

text \<open>How far an append is, in terms of the chunks at the end of the log.\<close>

fun job_part :: "job option \<Rightarrow> partial_record \<Rightarrow> bool" where
  "job_part None q = True"
| "job_part (Some (ImageJob lsn pid page)) q = (length page = PAGE_SIZE)"
| "job_part (Some (PackedJob lsn kind payload)) q = (length payload \<le> PACKED_LOGICAL_MAX_PAYLOAD_LEN)"
| "job_part (Some (ChunkJob lsn kind payload chunks)) q =
     (\<exists>i < chunk_count (length payload). chunks = drop i (chunk_entries lsn kind payload) \<and>
        (0 < i \<longrightarrow> q = chunk_part lsn kind payload i) \<and>
        (\<exists>r. logical_records lsn kind payload = ([r], Continue no_partial) \<and> rec_lsn r = lsn))"

lemma logical_job_part:
  assumes "logical_records lsn kind payload = ([r], Continue no_partial)" "rec_lsn r = lsn"
  shows "job_part (Some (append_logical_record_with_lsn lsn kind payload)) q \<and>
    job_lsn (append_logical_record_with_lsn lsn kind payload) = lsn \<and>
    rec_lsn (job_record (append_logical_record_with_lsn lsn kind payload)) = lsn"
  using assms chunk_count_bounds(1) [of "length payload"]
  by (auto simp: append_logical_record_with_lsn_def intro!: exI [of _ 0])

lemma new_job_part:
  assumes "new_job j"
  shows "job_part (Some j) q \<and> rec_lsn (job_record j) = job_lsn j"
  using assms
proof cases
  case (image_bytes lsn pid n page)
  then obtain payload where p: "encode_page_image_bytes_payload pid n page = Some payload"
    "j = append_logical_record_with_lsn lsn LOGICAL_KIND_PAGE_IMAGE_BYTES payload"
    by (auto simp: append_page_image_bytes_with_lsn_def bind_eq_Some_conv)
  have "logical_records lsn LOGICAL_KIND_PAGE_IMAGE_BYTES payload = ([PageImage lsn pid page], Continue no_partial)"
    using page_image_bytes_codec(1) [OF p(1)] by (simp add: logical_records_def)
  from logical_job_part [OF this] show ?thesis using p(2) by simp
next
  case (patch lsn pid ranges)
  then obtain payload where "j = append_logical_record_with_lsn lsn LOGICAL_KIND_PAGE_PATCH payload"
    by (auto simp: append_page_patch_ranges_with_lsn_def bind_eq_Some_conv)
  moreover have "logical_records lsn LOGICAL_KIND_PAGE_PATCH payload =
      ([Logical lsn LOGICAL_KIND_PAGE_PATCH payload], Continue no_partial)"
    by (simp add: logical_records_def LOGICAL_KIND_PAGE_PATCH_def LOGICAL_KIND_PAGE_IMAGE_BYTES_def)
  ultimately show ?thesis using logical_job_part by simp
next
  case (logical lsn kind payload)
  then have "j = append_logical_record_with_lsn lsn kind payload" "kind \<noteq> LOGICAL_KIND_PAGE_IMAGE_BYTES"
    by (auto simp: append_logical_with_lsn_def validate_caller_logical_kind_def is_internal_logical_kind_def
        split: if_splits sum.splits)
  moreover have "logical_records lsn kind payload = ([Logical lsn kind payload], Continue no_partial)"
    using calculation(2) by (simp add: logical_records_def)
  ultimately show ?thesis using logical_job_part by simp
qed simp

lemma chunk_completes:
  assumes "i < chunk_count (length payload)"
  shows "entry_completes (fst (chunk_entry lsn kind payload i)) \<longleftrightarrow> i + 1 = chunk_count (length payload)"
    "be_lsn (fst (chunk_entry lsn kind payload i)) = lsn"
proof -
  obtain c :: bytes where c: "fst (chunk_entry lsn kind payload i) = logical_chunk lsn kind 0
      ((if i = 0 then 1 else 0) OR (if i + 1 = chunk_count (length payload) then 2 else 0)) (length c)"
    using chunk_entry_shape [OF assms, of lsn kind] by blast
  show "entry_completes (fst (chunk_entry lsn kind payload i)) \<longleftrightarrow> i + 1 = chunk_count (length payload)"
    using chunk_flags(3) [of "i = 0" "i + 1 = chunk_count (length payload)"]
    unfolding c by (simp add: entry_completes_def logical_chunk_def record_kinds)
  show "be_lsn (fst (chunk_entry lsn kind payload i)) = lsn" unfolding c by (simp add: logical_chunk_def)
qed

text \<open>The state of the log between two steps, without the synced content.\<close>

definition log_inv :: "crc_fn \<Rightarrow> WalShard \<Rightarrow> log_entry list list \<Rightarrow> WalReplayRecord list \<Rightarrow> partial_record \<Rightarrow> bool" where
  "log_inv crc ws fss rlog q = (\<exists>qsss ass. shard_holds crc ws fss qsss ass \<and>
     deliver crc (shard_entries fss qsss ass) no_partial = (rlog, Continue q) \<and> lsn_ok crc ws fss qsss rlog)"

lemma append_slot_inv:
  assumes "log_inv crc ws fss rlog q" "append_slot waited e d ws = Some (ws', pos)" "good_entry (e, d)"
    and "ws_appended_lsn ws < lsn" "be_lsn e = lsn"
  shows "ws_appended_lsn ws' = ws_appended_lsn ws"
    "pos = None \<Longrightarrow> log_inv crc ws' fss rlog q"
    "pos \<noteq> None \<Longrightarrow> replay_entry crc (sealed crc (e, d)) d q = ([], Continue q') \<Longrightarrow> \<not> entry_completes e \<Longrightarrow>
      log_inv crc ws' fss rlog q'"
    "pos \<noteq> None \<Longrightarrow> replay_entry crc (sealed crc (e, d)) d q = ([r], Continue q') \<Longrightarrow> entry_completes e \<Longrightarrow>
      rec_lsn r = lsn \<Longrightarrow> log_inv crc (note_appended lsn ws') fss (rlog @ [r]) q'"
    "pos = Some (m, i) \<Longrightarrow> m mod WAL_RECORD_SIZE = 0 \<and> i < BATCH_MAX_RECORDS"
proof -
  obtain qsss ass where inv: "shard_holds crc ws fss qsss ass"
    "deliver crc (shard_entries fss qsss ass) no_partial = (rlog, Continue q)" "lsn_ok crc ws fss qsss rlog"
    using assms(1) unfolding log_inv_def by blast
  obtain w qs as bs where a: "shard_holds crc ws' fss qs bs" "maybe_sealed ws qsss ass w qs as"
    "same_progress w ws'" "ws_pending_writes ws' = ws_pending_writes w"
    "concat bs = concat as @ (if pos = None then [] else [(e, d)])"
    "wb_max_lsn (ws_active ws') = (if pos \<noteq> None \<and> entry_completes e
      then max (wb_max_lsn (ws_active w)) (be_lsn e) else wb_max_lsn (ws_active w))"
    "\<forall>m i. pos = Some (m, i) \<longrightarrow> m mod WAL_RECORD_SIZE = 0 \<and> i < BATCH_MAX_RECORDS"
    using append_slot_holds [OF inv(1) assms(2,3)] by blast
  have lw: "lsn_ok crc w fss qs rlog" by (rule maybe_sealed_lsn [OF inv(1,2) a(2) inv(3)])
  have dw: "deliver crc (shard_entries fss qs as) no_partial = (rlog, Continue q)"
    using inv(2) maybe_sealed_concat [OF a(2)] by (simp flip: concat_append)
  have se: "shard_entries fss qs bs = shard_entries fss qs as @ (if pos = None then [] else [(e, d)])"
    using a(5) by simp
  have ds: "deliver crc (shard_entries fss qs bs) no_partial = (rlog @ recs, f)"
    if "pos \<noteq> None" "replay_entry crc (sealed crc (e, d)) d q = (recs, f)" for recs f
    unfolding se if_not_P [OF that(1)] using that(2) deliver_snoc [OF dw, of "(e, d)"]
    by (simp del: concat_append)
  have app: "ws_appended_lsn w = ws_appended_lsn ws" "ws_appended_lsn ws' = ws_appended_lsn ws"
    "ws_in_flight ws' = ws_in_flight w"
    using a(2,3) by (auto simp: maybe_sealed_def same_progress_def)
  then show "ws_appended_lsn ws' = ws_appended_lsn ws" by simp
  show "log_inv crc ws' fss rlog q" if "pos = None"
    unfolding log_inv_def
    using that a(1) dw se lsn_ok_cong [OF lw a(3,4)] a(6) by (intro exI [of _ qs] exI [of _ bs]) simp
  show "log_inv crc ws' fss rlog q'"
    if "pos \<noteq> None" "replay_entry crc (sealed crc (e, d)) d q = ([], Continue q')" "\<not> entry_completes e"
    unfolding log_inv_def
    using that a(1) ds [OF that(1,2)] lsn_ok_cong [OF lw a(3,4)] a(6)
    by (intro exI [of _ qs] exI [of _ bs]) (simp del: concat_append)
  show "log_inv crc (note_appended lsn ws') fss (rlog @ [r]) q'"
    if "pos \<noteq> None" "replay_entry crc (sealed crc (e, d)) d q = ([r], Continue q')" "entry_completes e"
      "rec_lsn r = lsn"
  proof -
    have "lsn_ok crc (note_appended lsn ws') fss qs (rlog @ [r])"
      by (rule append_lsn [OF lw dw a(3) HOL.refl])
        (use that a(4,6) assms(4,5) app in \<open>simp_all add: note_appended_def\<close>)
    moreover have "shard_holds crc (note_appended lsn ws') fss qs bs"
      using a(1) by (simp add: shard_holds_def note_appended_def)
    ultimately show ?thesis
      unfolding log_inv_def
      using ds [OF that(1,2)]
      by (intro exI [of _ qs] exI [of _ bs]) (simp del: concat_append)
  qed
  show "m mod WAL_RECORD_SIZE = 0 \<and> i < BATCH_MAX_RECORDS" if "pos = Some (m, i)" using that a(7) by blast
qed

lemma append_chunks_inv:
  assumes "log_inv crc ws fss rlog q" "0 < i \<longrightarrow> q = chunk_part lsn kind payload i"
    and "i < chunk_count (length payload)"
    and "append_chunks waited (drop i (chunk_entries lsn kind payload)) ws = Some (ws', rest)"
    and "logical_records lsn kind payload = ([r], Continue no_partial)" "rec_lsn r = lsn"
    and "ws_appended_lsn ws < lsn"
  shows "if rest = [] then log_inv crc (note_appended lsn ws') fss (rlog @ [r]) no_partial
    else \<exists>j < chunk_count (length payload). \<exists>q'. rest = drop j (chunk_entries lsn kind payload) \<and>
      (0 < j \<longrightarrow> q' = chunk_part lsn kind payload j) \<and>
      log_inv crc ws' fss rlog q' \<and> ws_appended_lsn ws' = ws_appended_lsn ws"
  using assms(1-4,7)
proof (induction "chunk_count (length payload) - i" arbitrary: i ws waited q)
  case (Suc m)
  let ?n = "chunk_count (length payload)"
  obtain e d where ed: "chunk_entry lsn kind payload i = (e, d)" by fastforce
  have dr: "drop i (chunk_entries lsn kind payload) = (e, d) # drop (Suc i) (chunk_entries lsn kind payload)"
    using Cons_nth_drop_Suc [of i "chunk_entries lsn kind payload"] Suc.prems(3) ed
    by (simp add: chunk_entries_def)
  obtain w pos where w: "append_slot waited e d ws = Some (w, pos)"
    using Suc.prems(4) unfolding dr by (auto simp: bind_eq_Some_conv)
  have g: "good_entry (e, d)" "be_lsn e = lsn" "entry_completes e \<longleftrightarrow> i + 1 = ?n"
    using deliver_chunk(1) [OF Suc.prems(3), of lsn kind] chunk_completes [OF Suc.prems(3), of lsn kind] ed by simp_all
  note inv = append_slot_inv [OF Suc.prems(1) w g(1) Suc.prems(5) g(2)]
  show ?case
  proof (cases pos)
    case None
    then have "rest = (e, d) # drop (Suc i) (chunk_entries lsn kind payload)" "ws' = w"
      using Suc.prems(4) w unfolding dr by auto
    moreover have "\<exists>j < ?n. \<exists>q'. drop i (chunk_entries lsn kind payload) = drop j (chunk_entries lsn kind payload) \<and>
        (0 < j \<longrightarrow> q' = chunk_part lsn kind payload j) \<and> log_inv crc w fss rlog q'"
      using inv(2) [OF None] Suc.prems(2,3) by blast
    ultimately show ?thesis using inv(1) dr by simp
  next
    case (Some pq)
    then have run: "append_chunks False (drop (Suc i) (chunk_entries lsn kind payload)) w = Some (ws', rest)"
      using Suc.prems(4) w unfolding dr by auto
    have ne: "pos \<noteq> None" using Some by simp
    show ?thesis
    proof (cases "i + 1 = ?n")
      case True
      then have "drop (Suc i) (chunk_entries lsn kind payload) = []" by (simp add: chunk_entries_def)
      then have "rest = []" "ws' = w" using run by auto
      moreover have "replay_entry crc (sealed crc (e, d)) d q = ([r], Continue no_partial)"
        using deliver_chunk(3) [OF Suc.prems(3) True Suc.prems(2), of crc] ed assms(5) by simp
      ultimately show ?thesis using inv(4) [OF ne] g(3) True assms(6) by simp
    next
      case False
      then have lt: "i + 1 < ?n" using Suc.prems(3) by simp
      have "replay_entry crc (sealed crc (e, d)) d q =
          ([], Continue (chunk_part lsn kind payload (Suc i)))"
        using deliver_chunk(2) [OF Suc.prems(3) lt Suc.prems(2), of crc] ed by simp
      then have "log_inv crc w fss rlog (chunk_part lsn kind payload (Suc i))"
        using inv(3) [OF ne] g(3) False by simp
      moreover have "m = ?n - Suc i" "Suc i < ?n" using Suc.hyps(2) lt by simp_all
      ultimately show ?thesis using Suc.hyps(1) [of "Suc i" w "chunk_part lsn kind payload (Suc i)" False] run inv(1) Suc.prems(5)
        by (auto split: if_splits)
    qed
  qed
qed simp

lemma case_sum_some:
  assumes "(case x of Inl e \<Rightarrow> None | Inr (a, b) \<Rightarrow> f a b) = Some y"
  obtains a b where "x = Inr (a, b)" "f a b = Some y"
  using assms by (cases x) (auto split: prod.splits)

lemma run_job_inv:
  assumes "log_inv crc ws fss rlog q" "job_part (Some j) q" "ws_appended_lsn ws < job_lsn j"
    and "run_job waited j ws = Some (ws', rest)" "rec_lsn (job_record j) = job_lsn j"
  shows "\<exists>q'. log_inv crc ws' fss (if rest = None then rlog @ [job_record j] else rlog) q' \<and> job_part rest q' \<and>
    (\<forall>j'. rest = Some j' \<longrightarrow> ws_appended_lsn ws' < job_lsn j' \<and> rec_lsn (job_record j') = job_lsn j')"
proof (cases j)
  case (ImageJob lsn pid page)
  let ?e = "page_image lsn pid 0"
  have q: "length page = PAGE_SIZE" using assms(2) ImageJob by simp
  obtain w pos where w: "append_slot waited ?e page ws = Some (w, pos)"
    using assms(4) ImageJob by (auto simp: append_page_image_with_lsn_def bind_eq_Some_conv)
  have lt: "ws_appended_lsn ws < lsn" and be: "be_lsn ?e = lsn" "entry_completes ?e"
    using assms(3) ImageJob by (simp_all add: page_image_def entry_completes_def)
  note inv = append_slot_inv [OF assms(1) w deliver_image(1) [OF q] lt be(1)]
  show ?thesis
  proof (cases pos)
    case None
    then have "ws' = w" "rest = Some j" using assms(4) ImageJob w by (auto simp: append_page_image_with_lsn_def)
    then show ?thesis using inv(1) inv(2) [OF None] assms(2,3,5) ImageJob lt by (intro exI [of _ q]) auto
  next
    case (Some mi)
    then obtain m i where mi: "pos = Some (m, i)" by fastforce
    then have "ws' = note_appended lsn w" "rest = None"
      using assms(4) ImageJob w inv(5) [OF mi]
      by (auto simp: append_page_image_with_lsn_def encode_record_offset_def Let_def)
    moreover have "log_inv crc (note_appended lsn w) fss (rlog @ [PageImage lsn pid page]) (forget_partial q)"
      using inv(4) [of "PageImage lsn pid page" "forget_partial q"] mi be(2) deliver_image(2) [OF q, of crc lsn pid 0 q]
      by simp
    ultimately show ?thesis using ImageJob by (intro exI [of _ "forget_partial q"]) simp
  qed
next
  case (PackedJob lsn kind payload)
  have q: "length payload \<le> PACKED_LOGICAL_MAX_PAYLOAD_LEN" using assms(2) PackedJob by simp
  obtain added where a: "append_packed_logical_with_lsn waited lsn kind payload ws = Some (Inr (ws', added))"
    "rest = (if added then None else Some j)"
    using assms(4) PackedJob by (auto simp: bind_eq_Some_conv elim!: case_sum_some)
  obtain qsss ass where inv: "shard_holds crc ws fss qsss ass"
    "deliver crc (shard_entries fss qsss ass) no_partial = (rlog, Continue q)" "lsn_ok crc ws fss qsss rlog"
    using assms(1) unfolding log_inv_def by blast
  obtain w w' qs as bs q' where h: "shard_holds crc ws' fss qs bs" "maybe_sealed ws qsss ass w qs as"
    "same_progress w w'" "ws_pending_writes ws' = ws_pending_writes w"
    "ws' = (if added then note_appended lsn w' else w')"
    "deliver crc (shard_entries fss qs bs) no_partial =
      (rlog @ (if added then [Logical lsn kind payload] else []), Continue q')"
    "wb_max_lsn (ws_active ws') = (if added then max (wb_max_lsn (ws_active w)) lsn else wb_max_lsn (ws_active w))"
    using append_packed_holds [OF inv(1) a(1) q inv(2)] by blast
  have lw: "lsn_ok crc w fss qs rlog" by (rule maybe_sealed_lsn [OF inv(1,2) h(2) inv(3)])
  have dw: "deliver crc (shard_entries fss qs as) no_partial = (rlog, Continue q)"
    using inv(2) maybe_sealed_concat [OF h(2)] by (simp flip: concat_append)
  have app: "ws_appended_lsn w = ws_appended_lsn ws" "ws_appended_lsn w' = ws_appended_lsn ws"
    "ws_in_flight w' = ws_in_flight w"
    using h(2,3) by (auto simp: maybe_sealed_def same_progress_def)
  show ?thesis
  proof (cases added)
    case True
    have "lsn_ok crc ws' fss qs (rlog @ [Logical lsn kind payload])"
      by (rule append_lsn [OF lw dw h(3)])
        (use True h(4,5,7) app assms(3) PackedJob in \<open>simp_all add: note_appended_def\<close>)
    then have "log_inv crc ws' fss (rlog @ [Logical lsn kind payload]) q'"
      unfolding log_inv_def using h(1,6) True by (intro exI [of _ qs] exI [of _ bs]) (simp del: concat_append)
    then show ?thesis using a(2) True PackedJob by (intro exI [of _ q']) simp
  next
    case False
    have "lsn_ok crc ws' fss qs rlog"
      by (rule lsn_ok_cong [OF lw]) (use False h(3,4,5,7) in simp_all)
    then have "log_inv crc ws' fss rlog q'"
      unfolding log_inv_def using h(1,6) False by (intro exI [of _ qs] exI [of _ bs]) (simp del: concat_append)
    then show ?thesis using a(2) False PackedJob q assms(3,5) app h(5) by (intro exI [of _ q']) auto
  qed
next
  case (ChunkJob lsn kind payload chunks)
  then obtain i r where i: "i < chunk_count (length payload)" "chunks = drop i (chunk_entries lsn kind payload)"
    "0 < i \<longrightarrow> q = chunk_part lsn kind payload i" "logical_records lsn kind payload = ([r], Continue no_partial)" "rec_lsn r = lsn"
    using assms(2) by auto
  obtain w rs where w: "append_chunks waited chunks ws = Some (w, rs)"
    "ws' = (if rs = [] then note_appended lsn w else w)"
    "rest = (if rs = [] then None else Some (ChunkJob lsn kind payload rs))"
    using assms(4) ChunkJob by (auto simp: bind_eq_Some_conv split: if_splits)
  note inv = append_chunks_inv [OF assms(1) i(3,1) w(1) [unfolded i(2)] i(4,5)]
  show ?thesis
  proof (cases "rs = []")
    case True
    then show ?thesis using inv assms(3) w(2,3) ChunkJob i(4) by (intro exI [of _ no_partial]) simp
  next
    case False
    then obtain k q' where "k < chunk_count (length payload)" "rs = drop k (chunk_entries lsn kind payload)"
      "0 < k \<longrightarrow> q' = chunk_part lsn kind payload k"
      "log_inv crc w fss rlog q'" "ws_appended_lsn w = ws_appended_lsn ws"
      using inv assms(3) ChunkJob by auto
    then show ?thesis
      using False assms(3,5) w(2,3) ChunkJob i(4,5) by (intro exI [of _ q']) auto
  qed
qed

section \<open>The driver\<close>

lemma pop_pending_inv:
  assumes "log_inv crc ws fss rlog q"
  shows "log_inv crc (pop_pending_write_locked ws) fss rlog q"
proof (cases "ws_pending_writes ws")
  case (Cons w writes)
  have "queue (pop_pending_write_locked ws) = queue ws"
    using Cons by (simp add: pop_pending_write_locked_def)
  moreover have "shard_holds crc (pop_pending_write_locked ws) fss qsss ass" if "shard_holds crc ws fss qsss ass" for qsss ass
    using that Cons by (simp add: shard_holds_def pop_pending_write_locked_def submitted_writes_push_def)
  moreover have "lsn_ok crc (pop_pending_write_locked ws) fss qsss rlog" if "lsn_ok crc ws fss qsss rlog" for qsss
    using that Cons by (simp add: lsn_ok_def pop_pending_write_locked_def submitted_writes_push_def)
  ultimately show ?thesis using assms unfolding log_inv_def by blast
qed (use assms in \<open>simp add: pop_pending_write_locked_def\<close>)

definition same_lsns :: "WalShard \<Rightarrow> WalShard \<Rightarrow> bool" where
  "same_lsns ws ws' = (ws_appended_lsn ws' = ws_appended_lsn ws \<and> ws_written_lsn ws' = ws_written_lsn ws \<and>
     ws_durable_lsn ws' = ws_durable_lsn ws)"

lemma pop_pending_lsns: "same_lsns ws (pop_pending_write_locked ws)"
  by (simp add: same_lsns_def pop_pending_write_locked_def split: list.splits)

lemma seal_inv:
  assumes "log_inv crc ws fss rlog q" "seal_active_buffer_locked ws = Some (ws', sd)"
  shows "log_inv crc ws' fss rlog q" "same_lsns ws ws'"
proof -
  obtain qsss ass where inv: "shard_holds crc ws fss qsss ass"
    "deliver crc (shard_entries fss qsss ass) no_partial = (rlog, Continue q)" "lsn_ok crc ws fss qsss rlog"
    using assms(1) unfolding log_inv_def by blast
  let ?qs = "if ass = [] then qsss else qsss @ [ass]"
  have s: "shard_holds crc ws' fss ?qs []" "maybe_sealed ws qsss ass ws' ?qs []"
    using seal_holds [OF inv(1) assms(2)] by blast+
  have "lsn_ok crc ws' fss ?qs rlog" by (rule maybe_sealed_lsn [OF inv(1,2) s(2) inv(3)])
  moreover have "deliver crc (shard_entries fss ?qs []) no_partial = (rlog, Continue q)"
    using inv(2) maybe_sealed_concat [OF s(2)] by (simp flip: concat_append)
  ultimately show "log_inv crc ws' fss rlog q" unfolding log_inv_def using s(1) by blast
  show "same_lsns ws ws'" using s(2) by (auto simp: maybe_sealed_def same_progress_def same_lsns_def)
qed

lemma driver_submit_inv:
  assumes "log_inv crc ws fss rlog q" "driver_submit n relaxed shutting ws = Some ws'"
  shows "log_inv crc ws' fss rlog q \<and> same_lsns ws ws'"
proof (cases "should_write n relaxed shutting ws")
  case False
  then show ?thesis using assms by (simp add: driver_submit_def same_lsns_def)
next
  case True
  then obtain w where w: "(if ws_pending_writes ws = [] \<and> wb_used (ws_active ws) > 0
      then map_option fst (seal_active_buffer_locked ws) else Some ws) = Some w" "ws' = pop_pending_write_locked w"
    using assms(2) by (auto simp: driver_submit_def bind_eq_Some_conv)
  have "log_inv crc w fss rlog q \<and> same_lsns ws w"
  proof (cases "ws_pending_writes ws = [] \<and> wb_used (ws_active ws) > 0")
    case True
    then obtain sd where "seal_active_buffer_locked ws = Some (w, sd)" using w(1) by auto
    then show ?thesis using seal_inv [OF assms(1)] by blast
  qed (use assms(1) w(1) in \<open>auto simp: same_lsns_def\<close>)
  then show ?thesis using pop_pending_inv [of crc w] pop_pending_lsns [of w] w(2) by (auto simp: same_lsns_def)
qed

lemma complete_first:
  assumes "sw_entries s = map (\<lambda>w. (pw_max_lsn w, False)) (w # writes)"
  shows "submitted_writes_complete (pw_max_lsn w) s =
    Some (\<lparr> sw_entries = map (\<lambda>w. (pw_max_lsn w, False)) writes,
      sw_high_water_lsn = max (sw_high_water_lsn s) (pw_max_lsn w) \<rparr>,
      if sw_high_water_lsn s < pw_max_lsn w then Some (pw_max_lsn w) else None)"
  using assms by (cases writes) (auto simp: submitted_writes_complete_def max_def)

lemma pwrite_zeros:
  assumes "length data \<le> n"
  shows "pwrite_all data (length A) (A @ replicate n 0) = A @ data @ replicate (n - length data) 0"
  using assms by (simp add: pwrite_all_def write_at_def)

lemma driver_write_shape:
  assumes "shard_holds crc ws fss (rss # qsss) ass" "ws_in_flight ws = w # writes"
  shows "\<exists>b file e. file_holds crc file (fss @ rss) \<and> length file = length (ws_file ws) \<and>
    length (wb_buffer b) = ws_buffer_capacity_bytes ws \<and>
    driver_write crc pwritev2 ws = Some (ws\<lparr> ws_file := file, ws_in_flight := writes,
      ws_submitted_writes := \<lparr> sw_entries = map (\<lambda>w. (pw_max_lsn w, False)) writes,
        sw_high_water_lsn = max (sw_high_water_lsn (ws_submitted_writes ws)) (pw_max_lsn w) \<rparr>,
      ws_next_buffer_epoch := e, ws_spare_buffers := ws_spare_buffers ws @ [wal_buffer_reset (ws_next_buffer_epoch ws) b],
      ws_writes_in_progress := length writes,
      ws_written_lsn := (if sw_high_water_lsn (ws_submitted_writes ws) < pw_max_lsn w
        then max (ws_written_lsn ws) (pw_max_lsn w) else ws_written_lsn ws),
      ws_durable_lsn := (if pwritev2 then max (ws_durable_lsn ws) (pw_max_lsn w) else ws_durable_lsn ws) \<rparr>)"
proof -
  have h: "writes_at (ws_buffer_capacity_bytes ws) (WAL_HEADER_SIZE + log_bytes fss)
      (w # writes @ ws_pending_writes ws) (rss # qsss)"
    "ws_writes_in_progress ws = Suc (length writes)"
    "sw_entries (ws_submitted_writes ws) = map (\<lambda>w. (pw_max_lsn w, False)) (w # writes)"
    "ws_file_offset ws = WAL_HEADER_SIZE + log_bytes fss + log_bytes (rss @ concat qsss)"
    "ws_file_offset ws \<le> length (ws_file ws)"
    using assms(1,2) unfolding shard_holds_def by auto
  then have w: "pw_file_offset w = WAL_HEADER_SIZE + log_bytes fss" "buffer_holds (pw_buffer w) rss"
    "pw_len w = wb_used (pw_buffer w)" "length (wb_buffer (pw_buffer w)) = ws_buffer_capacity_bytes ws"
    "\<forall>rs \<in> set rss. \<forall>r \<in> set rs. good_entry r"
    by simp_all
  obtain b B' where b: "finalize_buffer_records crc (pw_len w) (pw_buffer w) = Some b"
    "length (wb_buffer b) = length (wb_buffer (pw_buffer w))" "take (pw_len w) (wb_buffer b) = B'"
    "batches_sealed crc B' rss"
    using finalize_buffer_run [OF w(2,5), of crc] w(3) by auto
  have le: "pw_len w \<le> length (wb_buffer b)" using b(2) w(2,3) by (simp add: buffer_holds_def)
  obtain H B n where f: "ws_file ws = H @ B @ replicate n 0" "length H = WAL_HEADER_SIZE"
    "validate_wal_header H = Inr ()" "batches_sealed crc B fss"
    using assms(1) by (auto simp: shard_holds_def file_holds_def)
  have lB: "length B = log_bytes fss" "length B' = log_bytes rss"
    using f(4) b(4) by (simp_all add: batches_sealed_length)
  have fit: "length B' \<le> n" using h(4,5) f(1,2) lB by simp
  let ?file = "pwrite_all B' (pw_file_offset w) (ws_file ws)"
  have fl: "?file = H @ (B @ B') @ replicate (n - length B') 0"
    using pwrite_zeros [OF fit, of "H @ B"] w(1) f(1,2) lB(1) by simp
  have "file_holds crc ?file (fss @ rss)"
    unfolding fl file_holds_def using f(2,3) batches_sealed_append [OF f(4) b(4)] by blast
  moreover have "length ?file = length (ws_file ws)" using fl f(1) fit by simp
  moreover have "driver_write crc pwritev2 ws = Some (ws\<lparr> ws_file := ?file, ws_in_flight := writes,
      ws_submitted_writes := \<lparr> sw_entries = map (\<lambda>w. (pw_max_lsn w, False)) writes,
        sw_high_water_lsn = max (sw_high_water_lsn (ws_submitted_writes ws)) (pw_max_lsn w) \<rparr>,
      ws_next_buffer_epoch := max (ws_next_buffer_epoch ws + 1) 1,
      ws_spare_buffers := ws_spare_buffers ws @ [wal_buffer_reset (ws_next_buffer_epoch ws) b],
      ws_writes_in_progress := length writes,
      ws_written_lsn := (if sw_high_water_lsn (ws_submitted_writes ws) < pw_max_lsn w
        then max (ws_written_lsn ws) (pw_max_lsn w) else ws_written_lsn ws),
      ws_durable_lsn := (if pwritev2 then max (ws_durable_lsn ws) (pw_max_lsn w) else ws_durable_lsn ws) \<rparr>)"
    using assms(2) b(1,3) le h(2) complete_first [OF h(3)]
    by (simp add: driver_write_def write_sealed_buffer_def submit_write_def handle_written_def
        next_buffer_epoch_locked_def advance_durable_lsn_def Let_def)
  ultimately show ?thesis using b(2) w(4) by auto
qed

lemma driver_write_inv:
  assumes "log_inv crc ws fss rlog q" "driver_write crc pwritev2 ws = Some ws'" "ws_durable_lsn ws \<le> ws_written_lsn ws"
  shows "\<exists>rss. log_inv crc ws' (fss @ rss) rlog q \<and> ws_appended_lsn ws' = ws_appended_lsn ws \<and>
    ws_written_lsn ws \<le> ws_written_lsn ws' \<and>
    ws_durable_lsn ws' \<le> ws_written_lsn ws' \<and> (\<not> pwritev2 \<longrightarrow> ws_durable_lsn ws' = ws_durable_lsn ws) \<and>
    (pwritev2 \<longrightarrow> ws_durable_lsn ws = ws_written_lsn ws \<longrightarrow> ws_durable_lsn ws' = ws_written_lsn ws')"
proof (cases "ws_in_flight ws")
  case Nil
  then have "ws' = ws" using assms(2) by (simp add: driver_write_def)
  then show ?thesis using assms(1,3) by (intro exI [of _ "[]"]) simp
next
  case (Cons w writes)
  obtain qsss0 ass where inv0: "shard_holds crc ws fss qsss0 ass"
    "deliver crc (shard_entries fss qsss0 ass) no_partial = (rlog, Continue q)" "lsn_ok crc ws fss qsss0 rlog"
    using assms(1) unfolding log_inv_def by blast
  then have "length (queue ws) = length qsss0" by (intro shard_queue_length)
  then obtain rss qsss where qs: "qsss0 = rss # qsss" using Cons by (cases qsss0) auto
  note inv = inv0 [unfolded qs]
  obtain b fl e where s: "file_holds crc fl (fss @ rss)" "length fl = length (ws_file ws)"
    "length (wb_buffer b) = ws_buffer_capacity_bytes ws"
    "ws' = ws\<lparr> ws_file := fl, ws_in_flight := writes,
      ws_submitted_writes := \<lparr> sw_entries = map (\<lambda>w. (pw_max_lsn w, False)) writes,
        sw_high_water_lsn = max (sw_high_water_lsn (ws_submitted_writes ws)) (pw_max_lsn w) \<rparr>,
      ws_next_buffer_epoch := e, ws_spare_buffers := ws_spare_buffers ws @ [wal_buffer_reset (ws_next_buffer_epoch ws) b],
      ws_writes_in_progress := length writes,
      ws_written_lsn := (if sw_high_water_lsn (ws_submitted_writes ws) < pw_max_lsn w
        then max (ws_written_lsn ws) (pw_max_lsn w) else ws_written_lsn ws),
      ws_durable_lsn := (if pwritev2 then max (ws_durable_lsn ws) (pw_max_lsn w) else ws_durable_lsn ws) \<rparr>"
    using driver_write_shape [OF inv(1) Cons, of pwritev2] assms(2) by auto
  have hw: "sw_high_water_lsn (ws_submitted_writes ws) = ws_written_lsn ws"
    using inv(3) unfolding lsn_ok_def by blast
  have wr: "ws_written_lsn ws' = max (ws_written_lsn ws) (pw_max_lsn w)" unfolding s(4) by (auto simp: hw max_def)
  have "shard_holds crc ws' (fss @ rss) qsss ass"
    using inv(1) Cons s(1-3) unfolding s(4) shard_holds_def by (auto simp: buffer_holds_used add.assoc)
  moreover have "deliver crc (shard_entries (fss @ rss) qsss ass) no_partial = (rlog, Continue q)"
    using inv(2) by simp
  moreover have "lsn_ok crc ws' (fss @ rss) qsss rlog"
  proof -
    have old: "\<forall>k \<le> length (rss # qsss). \<forall>r \<in> set (unlogged crc rlog (concat (fss @ concat (take k (rss # qsss))))).
        \<forall>m \<in> set (map pw_max_lsn (take k (queue ws))). m < rec_lsn r"
      "\<forall>r \<in> set (unlogged crc rlog (concat fss)). ws_written_lsn ws < rec_lsn r"
      using inv(3) unfolding lsn_ok_def by blast+
    have p1: "\<forall>m \<in> set (map pw_max_lsn (take k (queue ws'))). m < rec_lsn r"
      if "k \<le> length qsss" "r \<in> set (unlogged crc rlog (concat ((fss @ rss) @ concat (take k qsss))))" for k r
      using old(1) [rule_format, of "Suc k" r] that Cons unfolding s(4) by auto
    obtain L0 q0 L1 q1 where d: "deliver crc (concat fss) no_partial = (L0, Continue q0)"
      "deliver crc (concat rss) q0 = (L1, Continue q1)"
      using inv(2) by (auto elim!: deliver_prefix)
    have "set (unlogged crc rlog (concat (fss @ rss))) \<subseteq> set (unlogged crc rlog (concat fss))"
      using d by (simp add: unlogged_def deliver_append set_drop_subset_set_drop)
    moreover have "pw_max_lsn w < rec_lsn r" if "r \<in> set (unlogged crc rlog (concat (fss @ rss)))" for r
      using old(1) [rule_format, of 1 r "pw_max_lsn w"] that Cons by simp
    ultimately have p2: "\<forall>r \<in> set (unlogged crc rlog (concat (fss @ rss))). ws_written_lsn ws' < rec_lsn r"
      using old(2) unfolding wr by auto
    have ap: "\<forall>m \<in> insert (wb_max_lsn (ws_active ws)) (set (map pw_max_lsn (queue ws))). m \<le> ws_appended_lsn ws"
      "ws_written_lsn ws \<le> ws_appended_lsn ws"
      "\<exists>m \<in> {ws_written_lsn ws, wb_max_lsn (ws_active ws)} \<union> set (map pw_max_lsn (queue ws)). ws_appended_lsn ws \<le> m"
      using inv(3) unfolding lsn_ok_def by blast+
    have qw: "queue ws = w # queue ws'" "ws_active ws' = ws_active ws" "ws_appended_lsn ws' = ws_appended_lsn ws"
      "sw_high_water_lsn (ws_submitted_writes ws') = ws_written_lsn ws'"
      using Cons hw wr unfolding s(4) by auto
    have p3: "\<exists>m \<in> {ws_written_lsn ws', wb_max_lsn (ws_active ws')} \<union> set (map pw_max_lsn (queue ws')).
        ws_appended_lsn ws' \<le> m"
      using ap(3) unfolding qw wr by (auto simp: max_def intro: order.trans)
    show ?thesis
      unfolding lsn_ok_def
    proof (intro conjI)
      show "\<forall>m\<in>insert (wb_max_lsn (ws_active ws')) (set (map pw_max_lsn (queue ws'))). m \<le> ws_appended_lsn ws'"
        using ap(1) unfolding qw by auto
      show "ws_written_lsn ws' \<le> ws_appended_lsn ws'" using ap(1,2) unfolding qw wr by auto
    qed (use p1 p2 p3 qw(4) in auto)
  qed
  ultimately have "log_inv crc ws' (fss @ rss) rlog q" unfolding log_inv_def by blast
  moreover have "ws_appended_lsn ws' = ws_appended_lsn ws"
    "ws_durable_lsn ws' = (if pwritev2 then max (ws_durable_lsn ws) (pw_max_lsn w) else ws_durable_lsn ws)"
    unfolding s(4) by simp_all
  ultimately show ?thesis using assms(3) wr by (intro exI [of _ rss]) (auto simp: max_def)
qed

end
