(* ===== verification/Wal_Crash.thy ===== *)
theory Wal_Crash
  imports Wal_System "HOL-Library.Sublist"
begin

text \<open>
  What survives a crash of the log of \<open>crates/wal\<close>: at every reachable state of a shard the file, and
  the content that the syncer made safe, can be opened again and replayed, and the records found are
  a prefix of the records appended, at least up to the number reported as written or durable.
\<close>

section \<open>The invariant of the system\<close>

text \<open>A file that holds the batches \<open>dss\<close>: those the log was opened with, and a prefix of those written
  since, and with them every record up to a log sequence number.\<close>

definition disk_ok :: "crc_fn \<Rightarrow> log_entry list list \<Rightarrow> bytes \<Rightarrow> log_entry list list \<Rightarrow> WalReplayRecord list \<Rightarrow>
    Lsn \<Rightarrow> bool" where
  "disk_ok crc bss disk fss rlog lsn = (\<exists>dss ess. file_holds crc disk dss \<and> fss = dss @ ess \<and> prefix bss dss \<and>
     (\<forall>r \<in> set (unlogged crc rlog (concat dss)). lsn < rec_lsn r))"

definition sys_inv :: "crc_fn \<Rightarrow> bool \<Rightarrow> log_entry list list \<Rightarrow> log_system \<Rightarrow> bool" where
  "sys_inv crc pwritev2 bss s = (\<exists>fss q. prefix bss fss \<and>
     log_inv crc (sys_shard s) fss (sys_log s) q \<and> job_part (sys_job s) q \<and>
     (\<forall>j. sys_job s = Some j \<longrightarrow> ws_appended_lsn (sys_shard s) < job_lsn j \<and> rec_lsn (job_record j) = job_lsn j) \<and>
     disk_ok crc bss (sys_disk s) fss (sys_log s) (ws_durable_lsn (sys_shard s)) \<and>
     (\<forall>lsn f. sys_syncing s = Some (lsn, f) \<longrightarrow> \<not> pwritev2 \<and> disk_ok crc bss f fss (sys_log s) lsn \<and>
        ws_durable_lsn (sys_shard s) \<le> lsn \<and> lsn \<le> ws_written_lsn (sys_shard s)) \<and>
     ws_durable_lsn (sys_shard s) \<le> ws_written_lsn (sys_shard s) \<and>
     (\<forall>r \<in> set (unlogged crc (sys_log s) (concat bss)). rec_lsn r \<le> ws_appended_lsn (sys_shard s)) \<and>
     (pwritev2 \<longrightarrow> ws_durable_lsn (sys_shard s) = ws_written_lsn (sys_shard s)))"

lemma disk_ok_more: "disk_ok crc bss disk fss rlog lsn \<Longrightarrow> disk_ok crc bss disk (fss @ rss) rlog lsn"
  by (auto simp: disk_ok_def)

lemma log_inv_prefix:
  assumes "log_inv crc ws (dss @ ess) rlog q"
  shows "\<exists>es q. deliver crc (concat dss @ es) no_partial = (rlog, Continue q)"
proof -
  obtain qsss ass where "deliver crc (shard_entries (dss @ ess) qsss ass) no_partial = (rlog, Continue q)"
    using assms unfolding log_inv_def by blast
  then have "deliver crc (concat dss @ concat (ess @ concat qsss @ ass)) no_partial = (rlog, Continue q)" by simp
  then show ?thesis by blast
qed

lemma disk_ok_append:
  assumes "disk_ok crc bss disk fss rlog lsn" "log_inv crc ws fss rlog q" "lsn < rec_lsn r"
  shows "disk_ok crc bss disk fss (rlog @ [r]) lsn"
proof -
  obtain dss ess where d: "file_holds crc disk dss" "fss = dss @ ess"
    "\<forall>r \<in> set (unlogged crc rlog (concat dss)). lsn < rec_lsn r" "prefix bss dss"
    using assms(1) by (auto simp: disk_ok_def)
  obtain es p where "deliver crc (concat dss @ es) no_partial = (rlog, Continue p)"
    using log_inv_prefix assms(2) d(2) by blast
  then have "unlogged crc (rlog @ [r]) (concat dss) = unlogged crc rlog (concat dss) @ [r]"
    by (rule unlogged_append)
  then show ?thesis unfolding disk_ok_def using d assms(3) by (intro exI [of _ dss] exI [of _ ess]) auto
qed

lemma file_disk_ok:
  assumes "log_inv crc ws fss rlog q" "prefix bss fss"
  shows "disk_ok crc bss (ws_file ws) fss rlog (ws_written_lsn ws)"
  using assms by (auto simp: log_inv_def shard_holds_def lsn_ok_def disk_ok_def)

lemma log_inv_appended: "log_inv crc ws fss rlog q \<Longrightarrow> ws_written_lsn ws \<le> ws_appended_lsn ws"
  by (auto simp: log_inv_def lsn_ok_def)

lemma run_job_lsns:
  assumes "run_job waited j ws = Some (ws', rest)"
  shows "ws_written_lsn ws' = ws_written_lsn ws \<and> ws_durable_lsn ws' = ws_durable_lsn ws \<and>
    ws_appended_lsn ws \<le> ws_appended_lsn ws' \<and> (rest = None \<longrightarrow> job_lsn j \<le> ws_appended_lsn ws')"
proof -
  have seal: "same_lsns w w'"
    if "seal_active_buffer_locked w = Some (w', sd)" for w w' sd
  proof (cases "wb_used (ws_active w) = 0")
    case True
    then show ?thesis using that by (simp add: seal_active_buffer_locked_def same_lsns_def)
  next
    case False
    then show ?thesis using seal_shape [OF that False] by (auto simp: same_lsns_def)
  qed
  have room: "same_lsns w w'"
    if "reserve_room waited' w = Some (w', ready)" for waited' w w' ready
    using that by (auto simp: same_lsns_def reserve_room_def Let_def bind_eq_Some_conv dest!: seal split: if_splits)
  have slot: "same_lsns w w'"
    if "append_slot waited' e d w = Some (w', pos)" for waited' e d w w' pos
    using that by (auto simp: same_lsns_def append_slot_def bind_eq_Some_conv dest!: room split: if_splits)
  have chunks: "same_lsns w w'"
    if "append_chunks waited' cs w = Some (w', rs)" for waited' cs w w' rs
    using that
  proof (induction cs arbitrary: waited' w)
    case (Cons c cs)
    obtain e d where c: "c = (e, d)" by (cases c)
    then obtain v pos where v: "append_slot waited' e d w = Some (v, pos)"
      "if pos = None then v = w' else append_chunks False cs v = Some (w', rs)"
      using Cons.prems by (auto simp: bind_eq_Some_conv split: if_splits)
    then show ?case using slot [OF v(1)] Cons.IH [of False v] by (auto simp: same_lsns_def split: if_splits)
  qed (simp add: same_lsns_def)
  show ?thesis
  proof (cases j)
    case (ImageJob lsn pid page)
    then show ?thesis
      using assms(1) by (auto simp: same_lsns_def append_page_image_with_lsn_def bind_eq_Some_conv note_appended_def Let_def
          dest!: slot split: option.splits prod.splits)
  next
    case (PackedJob lsn kind payload)
    then show ?thesis
      using assms(1) by (auto simp: same_lsns_def append_packed_logical_with_lsn_def bind_eq_Some_conv note_appended_def Let_def
          dest!: room elim!: case_sum_some split: option.splits if_splits prod.splits)
  next
    case (ChunkJob lsn kind payload cs)
    then show ?thesis
      using assms(1) by (auto simp: same_lsns_def bind_eq_Some_conv note_appended_def dest!: chunks split: if_splits)
  qed
qed

lemma sys_append_inv:
  assumes "sys_append waited j s = Some s'" "job_part (Some j) q" "log_inv crc (sys_shard s) fss (sys_log s) q"
    and "ws_appended_lsn (sys_shard s) < job_lsn j" "rec_lsn (job_record j) = job_lsn j"
    and "disk_ok crc bss (sys_disk s) fss (sys_log s) (ws_durable_lsn (sys_shard s))"
    and "\<forall>lsn f. sys_syncing s = Some (lsn, f) \<longrightarrow> \<not> pwritev2 \<and> disk_ok crc bss f fss (sys_log s) lsn \<and>
        ws_durable_lsn (sys_shard s) \<le> lsn \<and> lsn \<le> ws_written_lsn (sys_shard s)"
    and "ws_durable_lsn (sys_shard s) \<le> ws_written_lsn (sys_shard s)" "prefix bss fss"
    and "\<forall>r \<in> set (unlogged crc (sys_log s) (concat bss)). rec_lsn r \<le> ws_appended_lsn (sys_shard s)"
    and "pwritev2 \<longrightarrow> ws_durable_lsn (sys_shard s) = ws_written_lsn (sys_shard s)"
  shows "sys_inv crc pwritev2 bss s'"
proof -
  obtain ws rest where r: "run_job waited j (sys_shard s) = Some (ws, rest)"
    "s' = s\<lparr> sys_shard := ws, sys_job := rest,
       sys_log := (if rest = None then sys_log s @ [job_record j] else sys_log s) \<rparr>"
    using assms(1) by (auto simp: sys_append_def bind_eq_Some_conv)
  obtain q' where q': "log_inv crc ws fss (if rest = None then sys_log s @ [job_record j] else sys_log s) q'"
    "job_part rest q'"
    "\<forall>j'. rest = Some j' \<longrightarrow> ws_appended_lsn ws < job_lsn j' \<and> rec_lsn (job_record j') = job_lsn j'"
    using run_job_inv [OF assms(3,2,4) r(1) assms(5)] by blast
  have l: "ws_written_lsn ws = ws_written_lsn (sys_shard s)" "ws_durable_lsn ws = ws_durable_lsn (sys_shard s)"
    "ws_appended_lsn (sys_shard s) \<le> ws_appended_lsn ws" "rest = None \<longrightarrow> job_lsn j \<le> ws_appended_lsn ws"
    using run_job_lsns [OF r(1)] by simp_all
  obtain zs where "fss = bss @ zs" using assms(9) by (auto simp: prefix_def)
  then obtain es p where "deliver crc (concat bss @ es) no_partial = (sys_log s, Continue p)"
    using log_inv_prefix assms(3) by blast
  then have "unlogged crc (sys_log s @ [job_record j]) (concat bss) =
      unlogged crc (sys_log s) (concat bss) @ [job_record j]"
    by (rule unlogged_append)
  then have new: "\<forall>r \<in> set (unlogged crc (if rest = None then sys_log s @ [job_record j] else sys_log s) (concat bss)).
      rec_lsn r \<le> ws_appended_lsn ws"
    using assms(5,10) l(3,4) by (auto intro: order.trans)
  have ap: "ws_written_lsn (sys_shard s) < rec_lsn (job_record j)"
    using log_inv_appended [OF assms(3)] assms(4,5) by auto
  have disk: "disk_ok crc bss f fss (if rest = None then sys_log s @ [job_record j] else sys_log s) lsn"
    if "disk_ok crc bss f fss (sys_log s) lsn" "lsn \<le> ws_written_lsn (sys_shard s)" for f lsn
    using disk_ok_append [OF that(1) assms(3), of "job_record j"] that ap by auto
  show ?thesis
    unfolding sys_inv_def
    using q' l new disk [OF assms(6,8)] disk assms(7-9,11) r(2) by (intro exI [of _ fss] exI [of _ q']) auto
qed

lemma sys_inv_step:
  assumes "sys_inv crc pwritev2 bss s" "log_step crc pwritev2 s s'"
  shows "sys_inv crc pwritev2 bss s'"
proof -
  obtain fss q where inv: "log_inv crc (sys_shard s) fss (sys_log s) q" "job_part (sys_job s) q"
    "\<forall>j. sys_job s = Some j \<longrightarrow> ws_appended_lsn (sys_shard s) < job_lsn j \<and> rec_lsn (job_record j) = job_lsn j"
    "disk_ok crc bss (sys_disk s) fss (sys_log s) (ws_durable_lsn (sys_shard s))"
    "\<forall>lsn f. sys_syncing s = Some (lsn, f) \<longrightarrow> \<not> pwritev2 \<and> disk_ok crc bss f fss (sys_log s) lsn \<and>
        ws_durable_lsn (sys_shard s) \<le> lsn \<and> lsn \<le> ws_written_lsn (sys_shard s)"
    "ws_durable_lsn (sys_shard s) \<le> ws_written_lsn (sys_shard s)" "prefix bss fss"
    "\<forall>r \<in> set (unlogged crc (sys_log s) (concat bss)). rec_lsn r \<le> ws_appended_lsn (sys_shard s)"
    "pwritev2 \<longrightarrow> ws_durable_lsn (sys_shard s) = ws_written_lsn (sys_shard s)"
    using assms(1) unfolding sys_inv_def by blast
  from assms(2) show ?thesis
  proof cases
    case (append j)
    then show ?thesis using sys_append_inv [OF append(4) _ inv(1) append(3) _ inv(4-9)] new_job_part by blast
  next
    case (resume j)
    then show ?thesis using sys_append_inv [OF resume(3) _ inv(1) _ _ inv(4-9)] inv(2,3) by auto
  next
    case (request target)
    have "log_inv crc (request_durable target (sys_shard s)) fss (sys_log s) q"
      using inv(1) by (simp add: log_inv_def shard_holds_def lsn_ok_def request_durable_def)
    then show ?thesis
      using request inv unfolding sys_inv_def
      by (intro exI [of _ fss] exI [of _ q]) (auto simp: request_durable_def)
  next
    case (submit relaxed_due shutting_down ws)
    then show ?thesis
      using driver_submit_inv [OF inv(1) submit(2)] inv unfolding sys_inv_def
      by (intro exI [of _ fss] exI [of _ q]) (auto simp: same_lsns_def)
  next
    case (write_file ws)
    obtain rss where w: "log_inv crc ws (fss @ rss) (sys_log s) q"
      "ws_appended_lsn ws = ws_appended_lsn (sys_shard s)" "ws_written_lsn (sys_shard s) \<le> ws_written_lsn ws"
      "ws_durable_lsn ws \<le> ws_written_lsn ws" "\<not> pwritev2 \<longrightarrow> ws_durable_lsn ws = ws_durable_lsn (sys_shard s)"
      "pwritev2 \<longrightarrow> ws_durable_lsn (sys_shard s) = ws_written_lsn (sys_shard s) \<longrightarrow> ws_durable_lsn ws = ws_written_lsn ws"
      using driver_write_inv [OF inv(1) write_file(2) inv(6)] by blast
    have pf: "prefix bss (fss @ rss)" using inv(7) by simp
    have "disk_ok crc bss (ws_file ws) (fss @ rss) (sys_log s) (ws_durable_lsn ws)"
      using file_disk_ok [OF w(1) pf] w(4) unfolding disk_ok_def by (meson order.strict_trans1)
    then show ?thesis
      using w inv pf disk_ok_more write_file(1) unfolding sys_inv_def
      by (intro exI [of _ "fss @ rss"] exI [of _ q]) (auto intro: order.trans)
  next
    case sync_begin
    then show ?thesis
      using inv file_disk_ok [OF inv(1,7)] unfolding sys_inv_def
      by (intro exI [of _ fss] exI [of _ q]) auto
  next
    case (sync_end lsn f)
    have "log_inv crc (advance_durable_lsn lsn (sys_shard s)) fss (sys_log s) q"
      using inv(1) by (simp add: log_inv_def shard_holds_def lsn_ok_def advance_durable_lsn_def)
    then show ?thesis
      using inv sync_end unfolding sys_inv_def
      by (intro exI [of _ fss] exI [of _ q]) (auto simp: advance_durable_lsn_def max_def)
  qed
qed

lemma sys_inv_reachable: "log_reachable crc pwritev2 s t \<Longrightarrow> sys_inv crc pwritev2 bss s \<Longrightarrow> sys_inv crc pwritev2 bss t"
  by (induction rule: log_reachable.induct) (auto intro: sys_inv_step)

section \<open>Opening a log\<close>

lemma wal_header_valid:
  "length (build_wal_header direct_io) = WAL_HEADER_SIZE" "validate_wal_header (build_wal_header direct_io) = Inr ()"
proof -
  have p: "(16 :: nat) \<le> WAL_HEADER_SIZE" "WAL_RECORD_SIZE < 2 ^ 64"
    by (simp_all add: WAL_HEADER_SIZE_def WAL_RECORD_SIZE_def PAGE_SIZE_def)
  show "length (build_wal_header direct_io) = WAL_HEADER_SIZE"
    using p by (simp add: build_wal_header_def Let_def HDR_MAGIC_OFF_def HDR_VERSION_OFF_def HDR_FLAGS_OFF_def
        HDR_RECORD_SIZE_OFF_def)
  show "validate_wal_header (build_wal_header direct_io) = Inr ()"
    using p by (simp add: validate_wal_header_def build_wal_header_def Let_def HDR_MAGIC_OFF_def HDR_VERSION_OFF_def
        HDR_FLAGS_OFF_def HDR_RECORD_SIZE_OFF_def window_simps WAL_MAGIC_def WAL_VERSION_def WAL_FLAG_DIRECT_IO_def)
qed

lemma capacity_two_pages: "2 * PAGE_SIZE \<le> wal_buffer_capacity_for_records n"
proof -
  define r where "r = max 1 (min n 4094)"
  have "1 \<le> r" by (simp add: r_def)
  then have "1 \<le> (r + 2339) div 2340" by (simp add: div_greater_zero_iff)
  then have "2 * PAGE_SIZE \<le> (r + (r + 2339) div 2340) * PAGE_SIZE"
    using \<open>1 \<le> r\<close> by (intro mult_le_mono1) linarith
  then show ?thesis unfolding capacity_pages Let_def r_def .
qed

text \<open>Files that a log left behind: a new one, and those that survive a crash, of the process or of the
  machine.\<close>

inductive log_file :: "crc_fn \<Rightarrow> bool \<Rightarrow> bytes \<Rightarrow> bool" for crc pwritev2 where
  fresh: "length file < WAL_HEADER_SIZE \<Longrightarrow> log_file crc pwritev2 file"
| crash: "log_file crc pwritev2 file \<Longrightarrow> length file + SEGMENT_SIZE \<le> 2 ^ 64 \<Longrightarrow>
    open_wal_file crc direct_io file = Some (Inr (opened, file')) \<Longrightarrow>
    log_reachable crc pwritev2 (opened_system crc opened file' records) s \<Longrightarrow>
    survivor \<in> {ws_file (sys_shard s), sys_disk s} \<Longrightarrow> log_file crc pwritev2 survivor"

definition log_file_ok :: "crc_fn \<Rightarrow> bytes \<Rightarrow> bool" where
  "log_file_ok crc file = (length file < WAL_HEADER_SIZE \<or>
     (\<exists>fss rlog q. file_holds crc file fss \<and> deliver crc (concat fss) no_partial = (rlog, Continue q)))"

lemma open_file_holds:
  assumes "file_holds crc file fss" "length file + SEGMENT_SIZE \<le> 2 ^ 64"
  shows "\<exists>t H B. WAL_HEADER_SIZE + log_bytes fss \<le> t \<and> length H = WAL_HEADER_SIZE \<and>
    batches_sealed crc B fss \<and> validate_wal_header H = Inr () \<and>
    open_wal_file crc direct_io file = Some (Inr (\<lparr> owf_file_offset = WAL_HEADER_SIZE + log_bytes fss,
      owf_allocated_size = t, owf_max_lsn = foldl entry_max 0 (concat fss) \<rparr>,
      H @ B @ replicate (t - (WAL_HEADER_SIZE + log_bytes fss)) 0))"
proof -
  obtain H B n where f: "file = H @ B @ replicate n 0" "length H = WAL_HEADER_SIZE"
    "validate_wal_header H = Inr ()" "batches_sealed crc B fss"
    using assms(1) by (auto simp: file_holds_def)
  have l: "length B = log_bytes fss" by (rule batches_sealed_length [OF f(4)])
  have "log_ends crc (H @ B @ replicate n 0) (length H + length B)"
    using zeros_end_log [of crc "H @ B" n] by simp
  moreover have "length H + length B + SEGMENT_SIZE \<le> 2 ^ 64" using assms(2) f(1) by simp
  ultimately obtain t where "length H + length B \<le> t" "open_wal_file crc direct_io (H @ B @ replicate n 0) =
      Some (Inr (\<lparr> owf_file_offset = length H + length B, owf_allocated_size = t,
        owf_max_lsn = foldl entry_max 0 (concat fss) \<rparr>, H @ B @ replicate (t - (length H + length B)) 0))"
    using open_sealed [OF f(4,2,3), of "replicate n 0" direct_io] by blast
  then show ?thesis
    unfolding l f(1,2) using f(2-4) by (intro exI [of _ t] exI [of _ H] exI [of _ B] conjI)
qed

lemma open_new_file:
  assumes "length file < WAL_HEADER_SIZE"
  shows "open_wal_file crc direct_io file =
    Some (Inr (\<lparr> owf_file_offset = WAL_HEADER_SIZE, owf_allocated_size = SEGMENT_SIZE, owf_max_lsn = 0 \<rparr>,
      build_wal_header direct_io @ replicate (SEGMENT_SIZE - WAL_HEADER_SIZE) 0))"
proof -
  have "WAL_HEADER_SIZE \<le> SEGMENT_SIZE"
    by (simp add: WAL_HEADER_SIZE_def WAL_RECORD_SIZE_def PAGE_SIZE_def SEGMENT_SIZE_def)
  then show ?thesis
    using assms by (simp add: open_wal_file_def pwrite_all_def write_at_def extend_file_def wal_header_valid(1))
qed

lemma system_start:
  assumes "length H = WAL_HEADER_SIZE" "validate_wal_header H = Inr ()" "batches_sealed crc B fss"
    and "WAL_HEADER_SIZE + log_bytes fss \<le> t" "deliver crc (concat fss) no_partial = (rlog, Continue q)"
    and "opened = \<lparr> owf_file_offset = WAL_HEADER_SIZE + log_bytes fss, owf_allocated_size = t, owf_max_lsn = m \<rparr>"
    and "file = H @ B @ replicate (t - (WAL_HEADER_SIZE + log_bytes fss)) 0"
  shows "sys_inv crc pwritev2 fss (opened_system crc opened file n)" "sys_log (opened_system crc opened file n) = rlog"
proof -
  have l: "length B = log_bytes fss" by (rule batches_sealed_length [OF assms(3)])
  have fh: "file_holds crc file fss" unfolding file_holds_def assms(7) using assms(1-3) by blast
  have "replay_records crc file (WAL_HEADER_SIZE + log_bytes fss) = Some (rlog, Inr ())"
    using replay_records_sealed [OF assms(3,1), of "replicate (t - (WAL_HEADER_SIZE + log_bytes fss)) 0"]
    by (simp add: assms(5,7) assms(1) l)
  then show lg: "sys_log (opened_system crc opened file n) = rlog"
    by (simp add: opened_system_def assms(6))
  let ?ws = "sys_shard (opened_system crc opened file n)"
  have f: "ws_file ?ws = file" "ws_file_offset ?ws = WAL_HEADER_SIZE + log_bytes fss" "ws_allocated_size ?ws = t"
    "ws_in_flight ?ws = []" "ws_pending_writes ?ws = []" "ws_writes_in_progress ?ws = 0"
    "sw_entries (ws_submitted_writes ?ws) = []" "sw_high_water_lsn (ws_submitted_writes ?ws) = m"
    "ws_active ?ws = wal_buffer_new 1 (wal_buffer_capacity_for_records n)"
    "ws_spare_buffers ?ws = [wal_buffer_new 2 (wal_buffer_capacity_for_records n)]"
    "ws_buffer_capacity_bytes ?ws = wal_buffer_capacity_for_records n" "ws_buffer_count_limit ?ws = 2"
    "ws_appended_lsn ?ws = m" "ws_written_lsn ?ws = m" "ws_durable_lsn ?ws = m"
    "sys_job (opened_system crc opened file n) = None" "sys_syncing (opened_system crc opened file n) = None"
    "sys_disk (opened_system crc opened file n) = file"
    by (simp_all add: opened_system_def wal_inner_new_def submitted_writes_new_def assms(6) Let_def upt_rec)
  have nb: "length (wb_buffer (wal_buffer_new e c)) = c" "wb_max_lsn (wal_buffer_new e c) = 0" for e c
    by (simp_all add: wal_buffer_new_def)
  have "shard_holds crc ?ws fss [] []"
    unfolding shard_holds_def f using fh assms(1,4,7) l capacity_two_pages by (simp add: nb)
  moreover have "lsn_ok crc ?ws fss [] rlog"
    unfolding lsn_ok_def f using unlogged_all [OF assms(5)] by (simp add: nb)
  ultimately have "log_inv crc ?ws fss rlog q"
    unfolding log_inv_def using assms(5) by (intro exI [of _ "[]"]) simp
  moreover have "disk_ok crc fss file fss rlog m"
    unfolding disk_ok_def using fh unlogged_all [OF assms(5)] by (intro exI [of _ fss] exI [of _ "[]"]) simp
  ultimately show "sys_inv crc pwritev2 fss (opened_system crc opened file n)"
    unfolding sys_inv_def f lg using unlogged_all [OF assms(5)] by (intro exI [of _ fss] exI [of _ q]) simp
qed

lemma opened_inv:
  assumes "log_file_ok crc file" "length file + SEGMENT_SIZE \<le> 2 ^ 64"
    and "open_wal_file crc direct_io file = Some (Inr (opened, file'))"
  shows "\<exists>bss q. sys_inv crc pwritev2 bss (opened_system crc opened file' n) \<and>
    deliver crc (concat bss) no_partial = (sys_log (opened_system crc opened file' n), Continue q)"
proof (cases "length file < WAL_HEADER_SIZE")
  case True
  have o: "opened = \<lparr> owf_file_offset = WAL_HEADER_SIZE + log_bytes [], owf_allocated_size = SEGMENT_SIZE,
      owf_max_lsn = 0 \<rparr>"
    "file' = build_wal_header direct_io @ [] @ replicate (SEGMENT_SIZE - (WAL_HEADER_SIZE + log_bytes [])) 0"
    using assms(3) open_new_file [OF True] by auto
  have d: "deliver crc (concat []) no_partial = ([], Continue no_partial)" by simp
  have t: "WAL_HEADER_SIZE + log_bytes [] \<le> SEGMENT_SIZE"
    by (simp add: WAL_HEADER_SIZE_def WAL_RECORD_SIZE_def PAGE_SIZE_def SEGMENT_SIZE_def)
  note st = system_start [OF wal_header_valid batches_sealed_simps(1) t d o]
  show ?thesis
    using st by (intro exI [of _ "[]"] exI [of _ no_partial]) simp
next
  case False
  then obtain fss rlog q where f: "file_holds crc file fss" "deliver crc (concat fss) no_partial = (rlog, Continue q)"
    using assms(1) by (auto simp: log_file_ok_def)
  obtain t H B where o: "WAL_HEADER_SIZE + log_bytes fss \<le> t" "length H = WAL_HEADER_SIZE"
    "batches_sealed crc B fss" "validate_wal_header H = Inr ()"
    "opened = \<lparr> owf_file_offset = WAL_HEADER_SIZE + log_bytes fss, owf_allocated_size = t,
      owf_max_lsn = foldl entry_max 0 (concat fss) \<rparr>"
    "file' = H @ B @ replicate (t - (WAL_HEADER_SIZE + log_bytes fss)) 0"
    using open_file_holds [OF f(1) assms(2), of direct_io] assms(3) by auto
  note st = system_start [OF o(2,4,3,1) f(2) o(5,6)]
  show ?thesis using st f(2) by (intro exI [of _ fss] exI [of _ q]) simp
qed

section \<open>Reading a log back after a crash\<close>

text \<open>The records that opening and replaying a file gives.\<close>

definition reopen :: "crc_fn \<Rightarrow> bool \<Rightarrow> bytes \<Rightarrow> (io_error + WalReplayRecord list) option" where
  "reopen crc direct_io file = do {
     res \<leftarrow> open_wal_file crc direct_io file;
     (case res of
        Inl e \<Rightarrow> Some (Inl e)
      | Inr (opened, file) \<Rightarrow> do {
          (records, res) \<leftarrow> replay_records crc file (owf_file_offset opened);
          (case res of Inl e \<Rightarrow> Some (Inl e) | Inr _ \<Rightarrow> Some (Inr records)) }) }"

lemma reopen_file_holds:
  assumes "file_holds crc file fss" "length file + SEGMENT_SIZE \<le> 2 ^ 64"
  shows "reopen crc direct_io file = Some (Inr (fst (deliver crc (concat fss) no_partial)))"
proof -
  obtain t H B where o: "length H = WAL_HEADER_SIZE" "batches_sealed crc B fss"
    "open_wal_file crc direct_io file = Some (Inr (\<lparr> owf_file_offset = WAL_HEADER_SIZE + log_bytes fss,
      owf_allocated_size = t, owf_max_lsn = foldl entry_max 0 (concat fss) \<rparr>,
      H @ B @ replicate (t - (WAL_HEADER_SIZE + log_bytes fss)) 0))"
    using open_file_holds [OF assms, of direct_io] by blast
  then show ?thesis
    using replay_records_sealed [OF o(2,1)] batches_sealed_length [OF o(2)] by (simp add: reopen_def)
qed

lemma reopen_disk:
  assumes "disk_ok crc bss disk fss rlog lsn" "log_inv crc ws fss rlog q"
    and "length disk + SEGMENT_SIZE \<le> 2 ^ 64" "deliver crc (concat bss) no_partial = (old, Continue p)"
  shows "\<exists>recs. reopen crc direct_io disk = Some (Inr recs) \<and> prefix old recs \<and> prefix recs rlog \<and>
    (\<forall>r \<in> set rlog. rec_lsn r \<le> lsn \<longrightarrow> r \<in> set recs) \<and> log_file_ok crc disk"
proof -
  obtain dss ess where d: "file_holds crc disk dss" "fss = dss @ ess" "prefix bss dss"
    "\<forall>r \<in> set (unlogged crc rlog (concat dss)). lsn < rec_lsn r"
    using assms(1) by (auto simp: disk_ok_def)
  obtain es p' where all: "deliver crc (concat dss @ es) no_partial = (rlog, Continue p')"
    using log_inv_prefix assms(2) d(2) by blast
  then obtain recs p'' rest where r: "deliver crc (concat dss) no_partial = (recs, Continue p'')" "rlog = recs @ rest"
    by (rule deliver_prefix)
  have "prefix old recs"
    using d(3) r(1) assms(4) by (auto simp: prefix_def deliver_append split: prod.splits flow.splits)
  moreover have "unlogged crc rlog (concat dss) = rest" using r by (simp add: unlogged_def)
  then have "r \<in> set recs" if "r \<in> set rlog" "rec_lsn r \<le> lsn" for r
    using that d(4) r(2) by auto
  moreover have "log_file_ok crc disk" unfolding log_file_ok_def using d(1) r(1) by blast
  ultimately show ?thesis
    using reopen_file_holds [OF d(1) assms(3), of direct_io] r by (intro exI [of _ recs]) auto
qed

lemma reopen_opened:
  assumes "log_file_ok crc file" "length file + SEGMENT_SIZE \<le> 2 ^ 64"
    and "open_wal_file crc direct_io file = Some (Inr (opened, file'))"
  shows "reopen crc direct_io file = Some (Inr (sys_log (opened_system crc opened file' n)))"
proof (cases "length file < WAL_HEADER_SIZE")
  case True
  let ?X = "replicate (SEGMENT_SIZE - WAL_HEADER_SIZE) 0"
  have "replay_records crc (build_wal_header direct_io @ [] @ ?X) (WAL_HEADER_SIZE + 0) = Some ([], Inr ())"
    using replay_records_sealed [OF batches_sealed_simps(1) wal_header_valid(1), of crc direct_io ?X]
    by (simp add: wal_header_valid(1))
  then show ?thesis
    using assms(3) open_new_file [OF True] by (auto simp: reopen_def opened_system_def)
next
  case False
  then obtain fss rlog q where f: "file_holds crc file fss" "deliver crc (concat fss) no_partial = (rlog, Continue q)"
    using assms(1) by (auto simp: log_file_ok_def)
  obtain t H B where o: "WAL_HEADER_SIZE + log_bytes fss \<le> t" "length H = WAL_HEADER_SIZE"
    "batches_sealed crc B fss" "validate_wal_header H = Inr ()"
    "opened = \<lparr> owf_file_offset = WAL_HEADER_SIZE + log_bytes fss, owf_allocated_size = t,
      owf_max_lsn = foldl entry_max 0 (concat fss) \<rparr>"
    "file' = H @ B @ replicate (t - (WAL_HEADER_SIZE + log_bytes fss)) 0"
    using open_file_holds [OF f(1) assms(2), of direct_io] assms(3) by auto
  show ?thesis
    using reopen_file_holds [OF f(1) assms(2)] f(2) system_start(2) [OF o(2,4,3,1) f(2) o(5,6)] by simp
qed

lemma log_file_opens:
  assumes "log_file crc pwritev2 file"
  shows "length file + SEGMENT_SIZE \<le> 2 ^ 64 \<longrightarrow> log_file_ok crc file"
  using assms
proof induction
  case (fresh f)
  then show ?case by (simp add: log_file_ok_def)
next
  case (crash f direct_io opened f' records s survivor)
  obtain bss p where b: "sys_inv crc pwritev2 bss (opened_system crc opened f' records)"
    "deliver crc (concat bss) no_partial = (sys_log (opened_system crc opened f' records), Continue p)"
    using opened_inv [of crc f direct_io opened f'] crash by blast
  have "sys_inv crc pwritev2 bss s" by (rule sys_inv_reachable [OF crash(4) b(1)])
  then obtain fss q where inv: "log_inv crc (sys_shard s) fss (sys_log s) q" "prefix bss fss"
    "disk_ok crc bss (sys_disk s) fss (sys_log s) (ws_durable_lsn (sys_shard s))"
    unfolding sys_inv_def by blast
  show ?case
    using crash(5) reopen_disk [OF inv(3,1) _ b(2)] reopen_disk [OF file_disk_ok [OF inv(1,2)] inv(1) _ b(2)]
    by auto
qed


end
