(* ===== verification/Wal_Progress.thy ===== *)
theory Wal_Progress
  imports Wal_Crash
begin

text \<open>
  Progress of the log shards of \<open>crates/wal\<close>: no operation of the shard panics as long as the file fits
  into 64-bit offsets, a waiting append can always be resumed, and a flush makes every record of the
  log durable.
\<close>

section \<open>Running without a panic\<close>

text \<open>The offsets stay below \<open>2 ^ 64\<close> when \<open>n\<close> buffers are sealed.\<close>

definition room :: "nat \<Rightarrow> WalShard \<Rightarrow> bool" where
  "room n ws = (ws_file_offset ws + n * ws_buffer_capacity_bytes ws + 16 * SEGMENT_SIZE \<le> 2 ^ 64)"

lemma room_mono: "room n ws \<Longrightarrow> m \<le> n \<Longrightarrow> room m ws"
  unfolding room_def by (meson add_le_mono le_refl mult_le_mono order.trans)

lemma some_truth [simp]: "\<exists>x. x" "\<exists>x. \<not> x"
  by blast+

lemma seal_runs:
  assumes "shard_holds crc ws fss qsss ass" "room 1 ws" "ws_spare_buffers ws \<noteq> []"
  shows "\<exists>ws' sd. seal_active_buffer_locked ws = Some (ws', sd)"
proof (cases "wb_used (ws_active ws) = 0")
  case True
  then show ?thesis by (auto simp: seal_active_buffer_locked_def)
next
  case False
  let ?e = "ws_file_offset ws + wb_used (ws_active ws)"
  have S: "SEGMENT_SIZE = 2 ^ 26" by (simp add: SEGMENT_SIZE_def)
  have "wb_used (ws_active ws) \<le> ws_buffer_capacity_bytes ws"
    using assms(1) by (auto simp: shard_holds_def buffer_holds_def)
  then have e: "?e + 16 * SEGMENT_SIZE \<le> 2 ^ 64" using assms(2) unfolding room_def by simp
  obtain t where t: "round_up_u64 ?e SEGMENT_SIZE = Some t" "t \<le> ?e + SEGMENT_SIZE - 1"
    using round_up_bounds [of ?e 26] e unfolding S by auto
  have "t + SEGMENT_SIZE * (WAL_PREALLOCATE_SEGMENTS - 1) < 2 ^ 64" "?e < 2 ^ 64"
    using t(2) e by (simp_all add: WAL_PREALLOCATE_SEGMENTS_def SEGMENT_SIZE_def)
  then show ?thesis
    using t(1) assms(3) False
    by (cases "?e > ws_allocated_size ws")
      (auto simp: seal_active_buffer_locked_def empty_buffer_locked_def next_buffer_epoch_locked_def Let_def)
qed

lemma room_maybe_sealed:
  assumes "shard_holds crc ws fss qsss ass" "shard_holds crc ws' fss qsss' ass'"
    and "maybe_sealed ws qsss ass w qsss' as" "same_progress w ws'" "room (Suc n) ws"
  shows "room n ws'"
proof -
  have u: "log_bytes ass \<le> ws_buffer_capacity_bytes ws"
  proof -
    have "buffer_holds (ws_active ws) ass" "length (wb_buffer (ws_active ws)) = ws_buffer_capacity_bytes ws"
      using assms(1) by (simp_all add: shard_holds_def)
    then show ?thesis using buffer_holds_used by (metis buffer_holds_def)
  qed
  have off: "ws_file_offset ws = WAL_HEADER_SIZE + log_bytes fss + log_bytes (concat qsss)"
    "ws_file_offset ws' = WAL_HEADER_SIZE + log_bytes fss + log_bytes (concat qsss')"
    using assms(1,2) by (simp_all add: shard_holds_def)
  have cap: "ws_buffer_capacity_bytes ws' = ws_buffer_capacity_bytes ws"
    using assms(3,4) by (simp add: maybe_sealed_def same_progress_def)
  have "qsss' = qsss \<or> qsss' = qsss @ [ass]" using assms(3) unfolding maybe_sealed_def by blast
  then have "ws_file_offset ws' \<le> ws_file_offset ws + ws_buffer_capacity_bytes ws" using off u by auto
  then show ?thesis using assms(5) unfolding room_def cap by simp
qed

lemma reserve_room_runs:
  assumes "shard_holds crc ws fss qsss ass" "room 1 ws"
  shows "\<exists>ws'. reserve_room waited ws = Some (ws', True) \<or>
    reserve_room waited ws = Some (ws', False) \<and> ws_spare_buffers ws = [] \<and> (\<forall>n. room n ws \<longrightarrow> room n ws')"
proof -
  let ?ws = "ws\<lparr> ws_active := (if waited then ws_active ws else (ws_active ws)\<lparr> wb_packed_logical := None \<rparr>) \<rparr>"
  have "shard_holds crc ?ws fss qsss ass" "room 1 ?ws"
    using assms by (auto simp: shard_holds_def buffer_holds_def packed_slot_ok_def room_def)
  then have "\<exists>ws' sd. seal_active_buffer_locked ?ws = Some (ws', sd)" if "ws_spare_buffers ws \<noteq> []"
    using seal_runs that by simp
  then show ?thesis by (auto simp: reserve_room_def Let_def room_def)
qed

lemma append_slot_runs:
  assumes "shard_holds crc ws fss qsss ass" "room (Suc n) ws" "good_entry (e, d)"
  shows "\<exists>ws' pos qsss' ass'. append_slot waited e d ws = Some (ws', pos) \<and> shard_holds crc ws' fss qsss' ass' \<and>
    room n ws' \<and> (pos = None \<longrightarrow> room (Suc n) ws') \<and> (ws_spare_buffers ws \<noteq> [] \<longrightarrow> pos \<noteq> None)"
proof -
  obtain w ready where w: "reserve_room waited ws = Some (w, ready)" "ws_spare_buffers ws \<noteq> [] \<longrightarrow> ready"
    "\<not> ready \<longrightarrow> room (Suc n) w"
    using reserve_room_runs [OF assms(1), of waited] room_mono [OF assms(2), of 1] assms(2) by auto
  obtain qs as where h: "shard_holds crc w fss qs as" "ready \<longrightarrow>
      wb_used (ws_active w) + record_bytes_needed (ws_active w) \<le> length (wb_buffer (ws_active w))"
    using reserve_room_holds [OF assms(1) w(1)] by blast
  have "\<exists>ws' pos. append_slot waited e d ws = Some (ws', pos) \<and> (ready \<longrightarrow> pos \<noteq> None) \<and> (\<not> ready \<longrightarrow> ws' = w)"
  proof (cases ready)
    case True
    have "buffer_holds (ws_active w) as" "length d = PAGE_SIZE"
      using h(1) assms(3) by (simp_all add: shard_holds_def good_entry_def)
    then obtain res where "append_entry e d (ws_active w) = Some res"
      using append_entry_holds [of "ws_active w" as d e] h(2) True by blast
    then show ?thesis using w(1) True by (cases res) (simp add: append_slot_def)
  qed (use w(1) in \<open>simp add: append_slot_def\<close>)
  then obtain ws' pos where r: "append_slot waited e d ws = Some (ws', pos)" "ready \<longrightarrow> pos \<noteq> None"
    "\<not> ready \<longrightarrow> ws' = w"
    by blast
  obtain v qs' bs as' where a: "shard_holds crc ws' fss qs' bs" "maybe_sealed ws qsss ass v qs' as'"
    "same_progress v ws'"
    using append_slot_holds [OF assms(1) r(1) assms(3)] by blast
  have "room n ws'" by (rule room_maybe_sealed [OF assms(1) a assms(2)])
  then show ?thesis using r a(1) w(2,3) by blast
qed

lemma append_chunks_runs:
  assumes "shard_holds crc ws fss qsss ass" "room (length chunks + n) ws" "\<forall>c \<in> set chunks. good_entry c"
  shows "\<exists>ws' rest. append_chunks waited chunks ws = Some (ws', rest) \<and> room (length rest + n) ws' \<and>
    length rest \<le> length chunks \<and> (ws_spare_buffers ws \<noteq> [] \<and> chunks \<noteq> [] \<longrightarrow> length rest < length chunks)"
  using assms
proof (induction chunks arbitrary: waited ws qsss ass)
  case (Cons c chunks)
  obtain e d where c: "c = (e, d)" by (cases c)
  then have "good_entry (e, d)" "room (Suc (length chunks + n)) ws" using Cons.prems(2,3) by simp_all
  then obtain w pos qs as where w: "append_slot waited e d ws = Some (w, pos)" "shard_holds crc w fss qs as"
    "room (length chunks + n) w" "pos = None \<longrightarrow> room (Suc (length chunks + n)) w"
    "ws_spare_buffers ws \<noteq> [] \<longrightarrow> pos \<noteq> None"
    using append_slot_runs [OF Cons.prems(1), of "length chunks + n" e d waited] by blast
  have "\<exists>ws' rest. append_chunks False chunks w = Some (ws', rest) \<and> room (length rest + n) ws' \<and>
      length rest \<le> length chunks"
    using Cons.IH [OF w(2,3)] Cons.prems(3) by fastforce
  then show ?case using w unfolding c by (cases pos) auto
qed simp

lemma append_packed_runs:
  assumes "shard_holds crc ws fss qsss ass" "room (Suc n) ws" "length payload \<le> PACKED_LOGICAL_MAX_PAYLOAD_LEN"
  shows "\<exists>ws'. append_packed_logical_with_lsn waited lsn kind payload ws = Some (Inr (ws', True)) \<and> room n ws' \<or>
    append_packed_logical_with_lsn waited lsn kind payload ws = Some (Inr (ws', False)) \<and>
      room (Suc n) ws' \<and> ws_spare_buffers ws = []"
proof -
  let ?n = "20 + length payload"
  have fit: "packed_logical_entry_len (length payload) = Some ?n" "?n \<le> WAL_RECORD_SIZE"
    using assms(3)
    by (simp_all add: packed_logical_entry_len_def checked_add_def PACKED_LOGICAL_ENTRY_HEADER_LEN_def
        PACKED_LOGICAL_MAX_PAYLOAD_LEN_def WAL_RECORD_SIZE_def PAGE_SIZE_def)
  have bh: "buffer_holds (ws_active ws) ass" "packed_slot_ok (ws_active ws) ass"
    using assms(1) by (simp_all add: shard_holds_def)
  let ?tr = "if waited then Some (ws_active ws, False)
    else try_append_packed_logical_locked lsn kind payload ?n (ws_active ws)"
  have "?tr = Some (ws_active ws, False) \<or> (\<exists>b. ?tr = Some (b, True))"
    using try_append_packed_holds [OF bh assms(3), of lsn kind] by auto
  then show ?thesis
  proof (elim disjE exE)
    assume tr: "?tr = Some (ws_active ws, False)"
    obtain w ready where w: "reserve_room waited ws = Some (w, ready)" "ws_spare_buffers ws \<noteq> [] \<longrightarrow> ready"
      "\<not> ready \<longrightarrow> room (Suc n) w"
      using reserve_room_runs [OF assms(1), of waited] room_mono [OF assms(2), of 1] assms(2) by auto
    obtain qs as where h: "shard_holds crc w fss qs as" "ready \<longrightarrow>
        wb_used (ws_active w) + record_bytes_needed (ws_active w) \<le> length (wb_buffer (ws_active w))"
      "maybe_sealed ws qsss ass w qs as"
      using reserve_room_holds [OF assms(1) w(1)] by blast
    have "room n w"
      by (rule room_maybe_sealed [OF assms(1) h(1,3) _ assms(2)]) (simp add: same_progress_def)
    then have rm: "room n (note_appended lsn (w\<lparr> ws_active := b \<rparr>))" for b by (simp add: room_def note_appended_def)
    have "buffer_holds (ws_active w) as" using h(1) by (simp add: shard_holds_def)
    then have "\<exists>b. append_packed_slot lsn kind payload (ws_active w) = Some b" if ready
      using append_packed_slot_holds [of "ws_active w" as payload lsn kind] h(2) assms(3) that by blast
    then show ?thesis using fit tr w rm by (cases ready) (auto simp: append_packed_logical_with_lsn_def)
  next
    fix b
    assume "?tr = Some (b, True)"
    moreover have "room n (note_appended lsn (ws\<lparr> ws_active := b \<rparr>))"
      using room_mono [OF assms(2), of n] by (simp add: room_def note_appended_def)
    ultimately show ?thesis using fit by (auto simp: append_packed_logical_with_lsn_def)
  qed
qed

text \<open>The slots that are left to fill for a job.\<close>

fun job_slots :: "job \<Rightarrow> nat" where
  "job_slots (ChunkJob lsn kind payload chunks) = length chunks"
| "job_slots j = 1"

lemma run_job_runs:
  assumes "log_inv crc ws fss rlog q" "room (job_slots j + n) ws" "job_part (Some j) q"
  shows "\<exists>ws' rest. run_job waited j ws = Some (ws', rest) \<and> (rest = None \<longrightarrow> room n ws') \<and>
    (\<forall>j'. rest = Some j' \<longrightarrow> room (job_slots j' + n) ws' \<and> job_record j' = job_record j \<and> job_lsn j' = job_lsn j \<and>
      (ws_spare_buffers ws \<noteq> [] \<longrightarrow> job_slots j' < job_slots j))"
proof -
  obtain qsss ass where h: "shard_holds crc ws fss qsss ass" using assms(1) by (auto simp: log_inv_def)
  have na: "room n (note_appended lsn w)" if "room n w" for lsn w using that by (simp add: room_def note_appended_def)
  show ?thesis
  proof (cases j)
    case (ImageJob lsn pid page)
    then have g: "good_entry (page_image lsn pid 0, page)" "room (Suc n) ws"
      using assms(2,3) deliver_image(1) by simp_all
    obtain w pos where w: "append_slot waited (page_image lsn pid 0) page ws = Some (w, pos)"
      "pos = None \<longrightarrow> room (Suc n) w" "ws_spare_buffers ws \<noteq> [] \<longrightarrow> pos \<noteq> None" "room n w"
      using append_slot_runs [OF h g(2,1)] by blast
    have "\<forall>m i. pos = Some (m, i) \<longrightarrow> m mod WAL_RECORD_SIZE = 0 \<and> i < BATCH_MAX_RECORDS"
      using append_slot_holds [OF h w(1) g(1)] by blast
    then show ?thesis
      using w ImageJob na
      by (cases pos) (auto simp: append_page_image_with_lsn_def encode_record_offset_def Let_def)
  next
    case (PackedJob lsn kind payload)
    then have p: "length payload \<le> PACKED_LOGICAL_MAX_PAYLOAD_LEN" "room (Suc n) ws" using assms(2,3) by simp_all
    obtain w where "append_packed_logical_with_lsn waited lsn kind payload ws = Some (Inr (w, True)) \<and> room n w \<or>
      append_packed_logical_with_lsn waited lsn kind payload ws = Some (Inr (w, False)) \<and>
        room (Suc n) w \<and> ws_spare_buffers ws = []"
      using append_packed_runs [OF h p(2,1), of waited lsn kind] by blast
    then show ?thesis using PackedJob by auto
  next
    case (ChunkJob lsn kind payload chunks)
    then have g: "\<forall>c \<in> set chunks. good_entry c" "room (length chunks + n) ws" "chunks \<noteq> []"
      using assms(2,3) deliver_chunk(1) by (auto simp: chunk_entries_def dest!: in_set_dropD)
    then obtain w rest where "append_chunks waited chunks ws = Some (w, rest)" "room (length rest + n) w"
      "ws_spare_buffers ws \<noteq> [] \<longrightarrow> length rest < length chunks"
      using append_chunks_runs [OF h g(2,1)] by blast
    then show ?thesis using ChunkJob na by (cases "rest = []") auto
  qed
qed

section \<open>The size of the file\<close>

text \<open>The file is extended to at most eight segments beyond the place of the last write.\<close>

definition grows :: "WalShard \<Rightarrow> WalShard \<Rightarrow> bool" where
  "grows ws ws' = (ws_file_offset ws \<le> ws_file_offset ws' \<and> ws_allocated_size ws \<le> ws_allocated_size ws' \<and>
     ws_allocated_size ws' \<le> max (ws_allocated_size ws) (ws_file_offset ws' + 8 * SEGMENT_SIZE))"

lemma grows_trans [trans]: "grows a b \<Longrightarrow> grows b c \<Longrightarrow> grows a c"
  by (auto simp: grows_def)

lemma grows_same: "ws_file_offset ws' = ws_file_offset ws \<Longrightarrow> ws_allocated_size ws' = ws_allocated_size ws \<Longrightarrow> grows ws ws'"
  by (simp add: grows_def)

lemma round_up_within_segment:
  assumes "round_up_u64 n SEGMENT_SIZE = Some t"
  shows "n \<le> t \<and> t \<le> n + SEGMENT_SIZE"
proof -
  have S: "SEGMENT_SIZE = 2 ^ 26" by (simp add: SEGMENT_SIZE_def)
  have "n + 2 ^ 26 - 1 < 2 ^ 64" using assms by (simp add: round_up_u64_def S split: if_splits)
  then show ?thesis using round_up_bounds [of n 26] assms unfolding S by auto
qed

lemma seal_grows:
  assumes "seal_active_buffer_locked ws = Some (ws', sd)"
  shows "grows ws ws'"
proof (cases "wb_used (ws_active ws) = 0")
  case True
  then show ?thesis using assms by (simp add: seal_active_buffer_locked_def grows_def)
next
  case False
  show ?thesis
    using assms False
    by (auto simp: seal_active_buffer_locked_def empty_buffer_locked_def next_buffer_epoch_locked_def Let_def grows_def
        WAL_PREALLOCATE_SEGMENTS_def bind_eq_Some_conv dest!: round_up_within_segment split: if_splits)
qed

lemma reserve_room_grows:
  assumes "reserve_room waited ws = Some (ws', ready)"
  shows "grows ws ws'"
proof -
  have "grows ws v" if "seal_active_buffer_locked (ws\<lparr> ws_active := a \<rparr>) = Some (v, sd)" for a v sd
    using seal_grows [OF that] by (simp add: grows_def)
  then show ?thesis
    using assms seal_grows by (auto simp: reserve_room_def Let_def bind_eq_Some_conv grows_same split: if_splits)
qed

lemma append_slot_grows: "append_slot waited e d ws = Some (ws', pos) \<Longrightarrow> grows ws ws'"
  by (auto simp: append_slot_def bind_eq_Some_conv grows_def dest!: reserve_room_grows split: if_splits)

lemma append_chunks_grows: "append_chunks waited chunks ws = Some (ws', rest) \<Longrightarrow> grows ws ws'"
proof (induction chunks arbitrary: waited ws)
  case (Cons c chunks)
  obtain e d where c: "c = (e, d)" by (cases c)
  then obtain v pos where v: "append_slot waited e d ws = Some (v, pos)"
    "if pos = None then v = ws' else append_chunks False chunks v = Some (ws', rest)"
    using Cons.prems by (auto simp: bind_eq_Some_conv split: if_splits)
  show ?case
    using append_slot_grows [OF v(1)] v(2) Cons.IH [of False v] grows_trans by (cases "pos = None") auto
qed (simp add: grows_def)

lemma run_job_grows:
  assumes "run_job waited j ws = Some (ws', rest)"
  shows "grows ws ws'"
proof (cases j)
  case (ImageJob lsn pid page)
  then show ?thesis
    using assms by (auto simp: append_page_image_with_lsn_def bind_eq_Some_conv note_appended_def Let_def grows_def
        dest!: append_slot_grows split: option.splits prod.splits)
next
  case (PackedJob lsn kind payload)
  then show ?thesis
    using assms by (auto simp: append_packed_logical_with_lsn_def bind_eq_Some_conv note_appended_def Let_def grows_def
        dest!: reserve_room_grows elim!: case_sum_some split: option.splits if_splits prod.splits)
next
  case (ChunkJob lsn kind payload cs)
  then show ?thesis
    using assms by (auto simp: bind_eq_Some_conv note_appended_def grows_def dest!: append_chunks_grows split: if_splits)
qed

lemma driver_submit_grows:
  assumes "driver_submit n relaxed shutting ws = Some ws'"
  shows "grows ws ws'"
proof -
  have "ws_file_offset (pop_pending_write_locked w) = ws_file_offset w"
    "ws_allocated_size (pop_pending_write_locked w) = ws_allocated_size w" for w
    by (simp_all add: pop_pending_write_locked_def split: list.splits)
  then show ?thesis
    using assms by (auto simp: driver_submit_def bind_eq_Some_conv grows_def dest!: seal_grows split: if_splits)
qed

lemma driver_write_grows: "driver_write crc pwritev2 ws = Some ws' \<Longrightarrow> grows ws ws'"
  by (auto simp: driver_write_def write_sealed_buffer_def submit_write_def handle_written_def bind_eq_Some_conv
      next_buffer_epoch_locked_def advance_durable_lsn_def Let_def grows_def split: list.splits option.splits if_splits)

lemma log_step_grows: "log_step crc pwritev2 s t \<Longrightarrow> grows (sys_shard s) (sys_shard t)"
  by (induction rule: log_step.induct)
    (auto simp: sys_append_def bind_eq_Some_conv request_durable_def advance_durable_lsn_def grows_same
      dest!: run_job_grows driver_submit_grows driver_write_grows)

lemma log_reachable_grows: "log_reachable crc pwritev2 s t \<Longrightarrow> grows (sys_shard s) (sys_shard t)"
  by (induction rule: log_reachable.induct) (auto simp: grows_same dest: log_step_grows intro: grows_trans)

text \<open>Neither the disk nor a running sync holds more than the file.\<close>

definition disk_small :: "log_system \<Rightarrow> bool" where
  "disk_small s = (length (sys_disk s) \<le> ws_allocated_size (sys_shard s) \<and>
     (\<forall>lsn f. sys_syncing s = Some (lsn, f) \<longrightarrow> length f \<le> ws_allocated_size (sys_shard s)))"

lemma disk_small_step:
  assumes "log_step crc pwritev2 s t" "sys_inv crc pwritev2 bss s" "disk_small s"
  shows "disk_small t"
proof -
  have f: "length (ws_file (sys_shard u)) = ws_allocated_size (sys_shard u)" if "sys_inv crc pwritev2 bss u" for u
    using that by (auto simp: sys_inv_def log_inv_def shard_holds_def)
  have g: "ws_allocated_size (sys_shard s) \<le> ws_allocated_size (sys_shard t)"
    using log_step_grows [OF assms(1)] by (simp add: grows_def)
  from assms(1) show ?thesis
  proof cases
    case (write_file ws)
    then show ?thesis using assms(3) g f [OF sys_inv_step [OF assms(2,1)]]
      by (auto simp: disk_small_def intro: order.trans)
  qed (use assms(3) g f [OF assms(2)] in \<open>auto simp: disk_small_def sys_append_def bind_eq_Some_conv
      advance_durable_lsn_def intro: order.trans\<close>)
qed

lemma disk_small_reachable:
  assumes "log_reachable crc pwritev2 s t" "sys_inv crc pwritev2 bss s" "disk_small s"
  shows "disk_small t"
  using assms by induction (auto intro: disk_small_step sys_inv_reachable)

section \<open>Turns of the driver\<close>

lemma log_reachable_trans:
  assumes "log_reachable crc pwritev2 s t" "log_reachable crc pwritev2 t u"
  shows "log_reachable crc pwritev2 s u"
  using assms(2,1) by (induction rule: log_reachable.induct) (auto intro: log_reachable.step)

lemma log_reachable_step: "log_step crc pwritev2 s t \<Longrightarrow> log_reachable crc pwritev2 s t"
  by (rule log_reachable.step [OF log_reachable.start])

text \<open>What the turns of the driver and the syncer leave as it is.\<close>

definition same_appends :: "log_system \<Rightarrow> log_system \<Rightarrow> bool" where
  "same_appends s t = (sys_log t = sys_log s \<and> sys_job t = sys_job s \<and>
     ws_appended_lsn (sys_shard t) = ws_appended_lsn (sys_shard s))"

definition same_active :: "WalShard \<Rightarrow> WalShard \<Rightarrow> bool" where
  "same_active ws ws' = (ws_active ws' = ws_active ws \<and> ws_file_offset ws' = ws_file_offset ws \<and>
     ws_buffer_capacity_bytes ws' = ws_buffer_capacity_bytes ws)"

definition to_write :: "WalShard \<Rightarrow> nat" where
  "to_write ws = 2 * length (ws_pending_writes ws) + length (ws_in_flight ws)"

lemma same_appends_trans: "same_appends s t \<Longrightarrow> same_appends t u \<Longrightarrow> same_appends s u"
  by (simp add: same_appends_def)

lemma same_active_room: "same_active ws ws' \<Longrightarrow> room n ws' = room n ws"
  by (simp add: same_active_def room_def)

lemma sys_inv_shard:
  assumes "sys_inv crc pwritev2 bss s"
  obtains fss qsss ass where "shard_holds crc (sys_shard s) fss qsss ass" "lsn_ok crc (sys_shard s) fss qsss (sys_log s)"
  using assms unfolding sys_inv_def log_inv_def by blast

lemma write_turn:
  assumes "sys_inv crc pwritev2 bss s" "ws_in_flight (sys_shard s) = w # writes"
  shows "\<exists>t. log_step crc pwritev2 s t \<and> same_appends s t \<and> same_active (sys_shard s) (sys_shard t) \<and>
    ws_in_flight (sys_shard t) = writes \<and> ws_pending_writes (sys_shard t) = ws_pending_writes (sys_shard s)"
proof -
  obtain fss qsss0 ass where h0: "shard_holds crc (sys_shard s) fss qsss0 ass" by (rule sys_inv_shard [OF assms(1)])
  then have "length (queue (sys_shard s)) = length qsss0" by (rule shard_queue_length)
  then obtain rss qsss where "qsss0 = rss # qsss" using assms(2) by (cases qsss0) auto
  then have h: "shard_holds crc (sys_shard s) fss (rss # qsss) ass" using h0 by simp
  obtain ws where ws: "driver_write crc pwritev2 (sys_shard s) = Some ws" "same_active (sys_shard s) ws"
    "ws_in_flight ws = writes" "ws_pending_writes ws = ws_pending_writes (sys_shard s)"
    "ws_appended_lsn ws = ws_appended_lsn (sys_shard s)"
    using driver_write_shape [OF h assms(2), of pwritev2] by (fastforce simp: same_active_def)
  show ?thesis
    using log_step.write_file [OF ws(1)] ws(2-5)
    by (intro exI [of _ "s\<lparr> sys_shard := ws, sys_disk := (if pwritev2 then ws_file ws else sys_disk s) \<rparr>"])
      (simp add: same_appends_def)
qed

lemma driver_turn:
  assumes "sys_inv crc pwritev2 bss s" "queue (sys_shard s) \<noteq> []"
  shows "\<exists>t. log_step crc pwritev2 s t \<and> same_appends s t \<and> same_active (sys_shard s) (sys_shard t) \<and>
    to_write (sys_shard t) < to_write (sys_shard s)"
proof (cases "ws_in_flight (sys_shard s)")
  case (Cons w writes)
  then show ?thesis using write_turn [OF assms(1) Cons] by (auto simp: to_write_def)
next
  case Nil
  let ?ws = "sys_shard s"
  obtain fss qsss ass where "shard_holds crc ?ws fss qsss ass" by (rule sys_inv_shard [OF assms(1)])
  then have "ws_writes_in_progress ?ws = 0" using Nil by (simp add: shard_holds_def)
  then have "driver_submit 1 False False ?ws = Some (pop_pending_write_locked ?ws)"
    using assms(2) Nil by (simp add: driver_submit_def should_write_def can_submit_write_def)
  from log_step.submit [OF this] show ?thesis
    using assms(2) Nil by (intro exI [of _ "s\<lparr> sys_shard := pop_pending_write_locked ?ws \<rparr>"])
      (auto simp: same_appends_def same_active_def to_write_def pop_pending_write_locked_def neq_Nil_conv)
qed

lemma drain_queue:
  assumes "sys_inv crc pwritev2 bss s"
  shows "\<exists>t. log_reachable crc pwritev2 s t \<and> same_appends s t \<and> same_active (sys_shard s) (sys_shard t) \<and>
    queue (sys_shard t) = []"
  using assms
proof (induction "to_write (sys_shard s)" arbitrary: s rule: less_induct)
  case less
  show ?case
  proof (cases "queue (sys_shard s) = []")
    case True
    then show ?thesis using log_reachable.start by (intro exI [of _ s]) (auto simp: same_appends_def same_active_def)
  next
    case False
    then obtain t where t: "log_step crc pwritev2 s t" "same_appends s t" "same_active (sys_shard s) (sys_shard t)"
      "to_write (sys_shard t) < to_write (sys_shard s)"
      using driver_turn [OF less.prems] by blast
    then obtain u where u: "log_reachable crc pwritev2 t u" "same_appends t u"
      "same_active (sys_shard t) (sys_shard u)" "queue (sys_shard u) = []"
      using less.hyps [OF t(4)] sys_inv_step [OF less.prems t(1)] by blast
    show ?thesis
      using log_reachable_trans [OF log_reachable_step [OF t(1)] u(1)] t(2,3) u(2-4)
      by (intro exI [of _ u]) (auto simp: same_appends_def same_active_def)
  qed
qed

lemma drained_spare:
  assumes "sys_inv crc pwritev2 bss s" "queue (sys_shard s) = []"
  shows "ws_spare_buffers (sys_shard s) \<noteq> []"
proof -
  obtain fss qsss ass where "shard_holds crc (sys_shard s) fss qsss ass" by (rule sys_inv_shard [OF assms(1)])
  then show ?thesis using assms(2) by (auto simp: shard_holds_def)
qed

section \<open>Finishing an append\<close>

text \<open>How an append ends: it returns, or it waits with fewer slots to fill, and in both cases there is
  room for \<open>n\<close> more buffers.\<close>

definition append_outcome :: "nat \<Rightarrow> job \<Rightarrow> log_system \<Rightarrow> log_system \<Rightarrow> bool" where
  "append_outcome n j s t = (case sys_job t of
     None \<Rightarrow> sys_log t = sys_log s @ [job_record j] \<and> room n (sys_shard t) \<and> job_lsn j \<le> ws_appended_lsn (sys_shard t)
   | Some j' \<Rightarrow> sys_log t = sys_log s \<and> room (job_slots j' + n) (sys_shard t) \<and>
       job_record j' = job_record j \<and> job_lsn j' = job_lsn j \<and>
       (ws_spare_buffers (sys_shard s) \<noteq> [] \<longrightarrow> job_slots j' < job_slots j))"

lemma sys_append_runs:
  assumes "sys_inv crc pwritev2 bss s" "job_part (Some j) q" "log_inv crc (sys_shard s) fss (sys_log s) q"
    and "room (job_slots j + n) (sys_shard s)"
  shows "\<exists>t. sys_append waited j s = Some t \<and> append_outcome n j s t"
proof -
  obtain ws rest where r: "run_job waited j (sys_shard s) = Some (ws, rest)" "rest = None \<longrightarrow> room n ws"
    "\<forall>j'. rest = Some j' \<longrightarrow> room (job_slots j' + n) ws \<and> job_record j' = job_record j \<and> job_lsn j' = job_lsn j \<and>
      (ws_spare_buffers (sys_shard s) \<noteq> [] \<longrightarrow> job_slots j' < job_slots j)"
    using run_job_runs [OF assms(3,4,2)] by blast
  then show ?thesis using run_job_lsns [OF r(1)] by (cases rest) (auto simp: sys_append_def append_outcome_def)
qed

text \<open>A waiting append can be finished: the driver writes the queue, and with a spare buffer the append
  fills at least one more slot.\<close>

lemma waiting_append_completes:
  assumes "sys_inv crc pwritev2 bss s" "sys_job s = Some j" "room (job_slots j + n) (sys_shard s)"
  shows "\<exists>t. log_reachable crc pwritev2 s t \<and> sys_job t = None \<and> sys_log t = sys_log s @ [job_record j] \<and>
    room n (sys_shard t) \<and> job_lsn j \<le> ws_appended_lsn (sys_shard t)"
  using assms
proof (induction "job_slots j" arbitrary: j s rule: less_induct)
  case less
  obtain t where t: "log_reachable crc pwritev2 s t" "same_appends s t" "same_active (sys_shard s) (sys_shard t)"
    "queue (sys_shard t) = []"
    using drain_queue [OF less.prems(1)] by blast
  have inv: "sys_inv crc pwritev2 bss t" by (rule sys_inv_reachable [OF t(1) less.prems(1)])
  have j: "sys_job t = Some j" "room (job_slots j + n) (sys_shard t)" "ws_spare_buffers (sys_shard t) \<noteq> []"
    "sys_log t = sys_log s"
    using t(2) less.prems same_active_room [OF t(3)] drained_spare [OF inv t(4)] by (simp_all add: same_appends_def)
  obtain fss q where "log_inv crc (sys_shard t) fss (sys_log t) q" "job_part (Some j) q"
    using inv j(1) unfolding sys_inv_def by auto
  then obtain u where u: "sys_append True j t = Some u" "append_outcome n j t u"
    using sys_append_runs [OF inv _ _ j(2), of q fss True] by blast
  have st: "log_step crc pwritev2 t u" by (rule log_step.resume [OF j(1,3) u(1)])
  then have su: "log_reachable crc pwritev2 s u" using t(1) log_reachable.step by blast
  show ?case
  proof (cases "sys_job u")
    case None
    then show ?thesis using su u(2) j(4) by (intro exI [of _ u]) (simp add: append_outcome_def)
  next
    case (Some j')
    then have j': "sys_job u = Some j'" "sys_log u = sys_log t" "room (job_slots j' + n) (sys_shard u)"
      "job_record j' = job_record j" "job_lsn j' = job_lsn j" "job_slots j' < job_slots j"
      using u(2) j(3) by (simp_all add: append_outcome_def)
    obtain v where "log_reachable crc pwritev2 u v" "sys_job v = None" "sys_log v = sys_log u @ [job_record j']"
      "room n (sys_shard v)" "job_lsn j' \<le> ws_appended_lsn (sys_shard v)"
      using less.hyps [OF j'(6) sys_inv_step [OF inv st] j'(1,3)] by blast
    then show ?thesis using log_reachable_trans [OF su] j' j(4) by (intro exI [of _ v]) simp
  qed
qed

section \<open>Flushing\<close>

lemma active_empty: "shard_holds crc ws fss qsss ass \<Longrightarrow> wb_used (ws_active ws) = 0 \<longleftrightarrow> ass = []"
  unfolding shard_holds_def by (elim conjE, rule buffer_holds_nonempty)

lemma drained_written:
  assumes "sys_inv crc pwritev2 bss s" "queue (sys_shard s) = []" "wb_used (ws_active (sys_shard s)) = 0"
  shows "ws_appended_lsn (sys_shard s) \<le> ws_written_lsn (sys_shard s)"
proof -
  obtain fss qsss ass where h: "shard_holds crc (sys_shard s) fss qsss ass" "lsn_ok crc (sys_shard s) fss qsss (sys_log s)"
    by (rule sys_inv_shard [OF assms(1)])
  have "ass = []" using active_empty [OF h(1)] assms(3) by blast
  then have "wb_max_lsn (ws_active (sys_shard s)) = 0" using h(1) by (simp add: shard_holds_def)
  moreover have "\<exists>m \<in> {ws_written_lsn (sys_shard s), wb_max_lsn (ws_active (sys_shard s))} \<union>
      set (map pw_max_lsn (queue (sys_shard s))). ws_appended_lsn (sys_shard s) \<le> m"
    using h(2) unfolding lsn_ok_def by blast
  ultimately show ?thesis using assms(2) by auto
qed

lemma seal_turn:
  assumes "sys_inv crc pwritev2 bss s" "queue (sys_shard s) = []" "room 1 (sys_shard s)"
    and "wb_used (ws_active (sys_shard s)) \<noteq> 0"
    and "ws_written_lsn (sys_shard s) < ws_requested_write_lsn (sys_shard s)"
  shows "\<exists>t w. log_step crc pwritev2 s t \<and> same_appends s t \<and> ws_in_flight (sys_shard t) = [w] \<and>
    ws_pending_writes (sys_shard t) = [] \<and> wb_used (ws_active (sys_shard t)) = 0 \<and> room 0 (sys_shard t)"
proof -
  let ?ws = "sys_shard s"
  obtain fss qsss ass where h: "shard_holds crc ?ws fss qsss ass" by (rule sys_inv_shard [OF assms(1)])
  have sp: "ws_spare_buffers ?ws \<noteq> []" by (rule drained_spare [OF assms(1,2)])
  obtain ws sd where sl: "seal_active_buffer_locked ?ws = Some (ws, sd)" using seal_runs [OF h assms(3) sp] by blast
  have ne: "ass \<noteq> []" using active_empty [OF h] assms(4) by blast
  have m: "shard_holds crc ws fss (qsss @ [ass]) []" "maybe_sealed ?ws qsss ass ws (qsss @ [ass]) []"
    using seal_holds [OF h sl] ne by simp_all
  obtain w where w: "ws_pending_writes ws = [w]" "ws_in_flight ws = []" "ws_appended_lsn ws = ws_appended_lsn ?ws"
    using m(2) assms(2) by (auto simp: maybe_sealed_def same_progress_def)
  have u: "wb_used (ws_active ws) = 0" using active_empty [OF m(1)] by blast
  have "room (Suc 0) ?ws" using assms(3) by simp
  from room_maybe_sealed [OF h m _ this] have "room 0 ws" by (simp add: same_progress_def)
  then have rm: "room 0 (pop_pending_write_locked ws)"
    by (simp add: room_def pop_pending_write_locked_def split: list.splits)
  have "ws_writes_in_progress ?ws = 0" using h assms(2) by (simp add: shard_holds_def)
  then have "driver_submit 1 False False ?ws = Some (pop_pending_write_locked ws)"
    using assms(2,4,5) sp sl by (simp add: driver_submit_def should_write_def can_submit_write_def)
  from log_step.submit [OF this] show ?thesis
    using w u rm by (intro exI [of _ "s\<lparr> sys_shard := pop_pending_write_locked ws \<rparr>"] exI [of _ w])
      (simp add: same_appends_def pop_pending_write_locked_def)
qed

lemma flush_writes:
  assumes "sys_inv crc pwritev2 bss s" "room 1 (sys_shard s)"
  shows "\<exists>t. log_reachable crc pwritev2 s t \<and> same_appends s t \<and>
    ws_appended_lsn (sys_shard t) \<le> ws_written_lsn (sys_shard t) \<and> room 0 (sys_shard t)"
proof -
  obtain t where t: "log_reachable crc pwritev2 s t" "same_appends s t" "same_active (sys_shard s) (sys_shard t)"
    "queue (sys_shard t) = []"
    using drain_queue [OF assms(1)] by blast
  have inv: "sys_inv crc pwritev2 bss t" by (rule sys_inv_reachable [OF t(1) assms(1)])
  show ?thesis
  proof (cases "ws_appended_lsn (sys_shard t) \<le> ws_written_lsn (sys_shard t)")
    case True
    moreover have "room 0 (sys_shard t)" using room_mono [OF assms(2), of 0] same_active_room [OF t(3)] by simp
    ultimately show ?thesis using t(1,2) by blast
  next
    case False
    let ?a = "ws_appended_lsn (sys_shard t)"
    let ?u = "t\<lparr> sys_shard := request_durable ?a (sys_shard t) \<rparr>"
    have st: "log_step crc pwritev2 t ?u" by (rule log_step.request)
    have inv': "sys_inv crc pwritev2 bss ?u" by (rule sys_inv_step [OF inv st])
    have "wb_used (ws_active (sys_shard t)) \<noteq> 0" using drained_written [OF inv t(4)] False by blast
    moreover have "room 1 (sys_shard ?u)"
      using assms(2) same_active_room [OF t(3), of 1] by (simp add: request_durable_def room_def)
    moreover have "queue (sys_shard ?u) = []" "wb_used (ws_active (sys_shard ?u)) = wb_used (ws_active (sys_shard t))"
      "ws_written_lsn (sys_shard ?u) < ws_requested_write_lsn (sys_shard ?u)"
      using t(4) False by (auto simp: request_durable_def less_max_iff_disj not_le)
    ultimately obtain v w where v: "log_step crc pwritev2 ?u v" "same_appends ?u v" "ws_in_flight (sys_shard v) = [w]"
      "ws_pending_writes (sys_shard v) = []" "wb_used (ws_active (sys_shard v)) = 0" "room 0 (sys_shard v)"
      using seal_turn [OF inv'] by metis
    have inv'': "sys_inv crc pwritev2 bss v" by (rule sys_inv_step [OF inv' v(1)])
    obtain x where x: "log_step crc pwritev2 v x" "same_appends v x" "same_active (sys_shard v) (sys_shard x)"
      "queue (sys_shard x) = []"
      using write_turn [OF inv'' v(3)] v(4) by auto
    have "ws_appended_lsn (sys_shard x) \<le> ws_written_lsn (sys_shard x)"
      by (rule drained_written [OF sys_inv_step [OF inv'' x(1)] x(4)]) (use x(3) v(5) in \<open>simp add: same_active_def\<close>)
    moreover have "log_reachable crc pwritev2 s x"
      using t(1) st v(1) x(1) by (meson log_reachable.step)
    moreover have "same_appends s x"
      using t(2) v(2) x(2) by (simp add: same_appends_def request_durable_def)
    moreover have "room 0 (sys_shard x)" using v(6) same_active_room [OF x(3)] by simp
    ultimately show ?thesis by blast
  qed
qed

lemma flush_syncs:
  assumes "sys_inv crc pwritev2 bss s"
  shows "\<exists>t. log_reachable crc pwritev2 s t \<and> same_appends s t \<and>
    same_active (sys_shard s) (sys_shard t) \<and> ws_written_lsn (sys_shard s) \<le> ws_durable_lsn (sys_shard t)"
proof -
  have "\<exists>t. log_reachable crc pwritev2 s t \<and> same_appends s t \<and> same_active (sys_shard s) (sys_shard t) \<and> sys_syncing t = None \<and>
      ws_written_lsn (sys_shard t) = ws_written_lsn (sys_shard s)"
  proof (cases "sys_syncing s")
    case None
    then show ?thesis using log_reachable.start by (intro exI [of _ s]) (simp add: same_appends_def same_active_def)
  next
    case (Some a)
    obtain lsn f where "sys_syncing s = Some (lsn, f)" using Some by (cases a) simp
    from log_reachable_step [OF log_step.sync_end [OF this]] show ?thesis
      by (intro exI [of _ "s\<lparr> sys_shard := advance_durable_lsn lsn (sys_shard s), sys_disk := f, sys_syncing := None \<rparr>"])
        (simp add: same_appends_def same_active_def advance_durable_lsn_def)
  qed
  then obtain t where t: "log_reachable crc pwritev2 s t" "same_appends s t" "sys_syncing t = None"
    "ws_written_lsn (sys_shard t) = ws_written_lsn (sys_shard s)" "same_active (sys_shard s) (sys_shard t)"
    by blast
  have inv: "sys_inv crc pwritev2 bss t" by (rule sys_inv_reachable [OF t(1) assms(1)])
  show ?thesis
  proof (cases "ws_written_lsn (sys_shard t) \<le> ws_durable_lsn (sys_shard t)")
    case True
    then show ?thesis using t by (intro exI [of _ t]) simp
  next
    case False
    then have np: "\<not> pwritev2" using inv unfolding sys_inv_def by force
    let ?u = "t\<lparr> sys_syncing := Some (ws_written_lsn (sys_shard t), ws_file (sys_shard t)) \<rparr>"
    let ?v = "?u\<lparr> sys_shard := advance_durable_lsn (ws_written_lsn (sys_shard t)) (sys_shard ?u),
      sys_disk := ws_file (sys_shard t), sys_syncing := None \<rparr>"
    have "log_step crc pwritev2 t ?u" using log_step.sync_begin [OF np t(3)] False by simp
    moreover have "log_step crc pwritev2 ?u ?v" by (rule log_step.sync_end) simp
    ultimately have "log_reachable crc pwritev2 s ?v" using t(1) by (meson log_reachable.step)
    then show ?thesis
      using t(2,4,5) by (intro exI [of _ ?v]) (simp add: same_appends_def same_active_def advance_durable_lsn_def)
  qed
qed

lemma durable_disk:
  assumes "sys_inv crc pwritev2 bss s" "ws_appended_lsn (sys_shard s) \<le> ws_durable_lsn (sys_shard s)"
    and "length (sys_disk s) + SEGMENT_SIZE \<le> 2 ^ 64"
  shows "reopen crc direct_io (sys_disk s) = Some (Inr (sys_log s))"
proof -
  obtain fss q where inv: "log_inv crc (sys_shard s) fss (sys_log s) q"
    "disk_ok crc bss (sys_disk s) fss (sys_log s) (ws_durable_lsn (sys_shard s))"
    "\<forall>r \<in> set (unlogged crc (sys_log s) (concat bss)). rec_lsn r \<le> ws_appended_lsn (sys_shard s)"
    using assms(1) unfolding sys_inv_def by blast
  obtain dss ess zs where d: "file_holds crc (sys_disk s) dss" "fss = dss @ ess" "dss = bss @ zs"
    "\<forall>r \<in> set (unlogged crc (sys_log s) (concat dss)). ws_durable_lsn (sys_shard s) < rec_lsn r"
    using inv(2) by (auto simp: disk_ok_def prefix_def)
  obtain es p where all: "deliver crc (concat dss @ es) no_partial = (sys_log s, Continue p)"
    using log_inv_prefix inv(1) d(2) by blast
  then obtain recs p' rest where r: "deliver crc (concat dss) no_partial = (recs, Continue p')" "sys_log s = recs @ rest"
    by (rule deliver_prefix)
  obtain old p'' new where o: "deliver crc (concat bss) no_partial = (old, Continue p'')" "recs = old @ new"
    using r(1) unfolding d(3) concat_append by (rule deliver_prefix) blast
  have "unlogged crc (sys_log s) (concat dss) = rest" "unlogged crc (sys_log s) (concat bss) = new @ rest"
    using r o by (simp_all add: unlogged_def)
  then have "rest = []" using d(4) inv(3) assms(2) by (cases rest) auto
  then show ?thesis using reopen_file_holds [OF d(1) assms(3), of direct_io] r by simp
qed

text \<open>An append that waits, or one that starts while no other runs, and then a flush can be brought to
  their ends.\<close>

lemma append_becomes_durable:
  assumes "sys_inv crc pwritev2 bss s" "disk_small s"
    and "sys_job s = Some j \<or> sys_job s = None \<and> new_job j \<and> ws_appended_lsn (sys_shard s) < job_lsn j"
    and "room (job_slots j + 1) (sys_shard s)" "ws_allocated_size (sys_shard s) + SEGMENT_SIZE \<le> 2 ^ 64"
  shows "\<exists>t. log_reachable crc pwritev2 s t \<and> sys_job t = None \<and> sys_log t = sys_log s @ [job_record j] \<and>
    job_lsn j \<le> ws_durable_lsn (sys_shard t) \<and> length (sys_disk t) + SEGMENT_SIZE \<le> 2 ^ 64 \<and>
    reopen crc direct_io (sys_disk t) = Some (Inr (sys_log t))"
proof -
  obtain b where b: "log_reachable crc pwritev2 s b" "sys_job b = None" "sys_log b = sys_log s @ [job_record j]"
    "room 1 (sys_shard b)" "job_lsn j \<le> ws_appended_lsn (sys_shard b)"
  proof (cases "sys_job s")
    case (Some j')
    then show thesis using waiting_append_completes [OF assms(1) _ assms(4)] assms(3) that by auto
  next
    case None
    then have n: "new_job j" "ws_appended_lsn (sys_shard s) < job_lsn j" using assms(3) by simp_all
    obtain fss q where "log_inv crc (sys_shard s) fss (sys_log s) q" using assms(1) unfolding sys_inv_def by blast
    then obtain a where a: "sys_append False j s = Some a" "append_outcome 1 j s a"
      using sys_append_runs [OF assms(1) _ _ assms(4), of q fss False] new_job_part [OF n(1), of q] by blast
    have st: "log_step crc pwritev2 s a" by (rule log_step.append [OF None n a(1)])
    show thesis
    proof (cases "sys_job a")
      case None
      then show thesis using a(2) log_reachable_step [OF st] that [of a] by (simp add: append_outcome_def)
    next
      case (Some j')
      then have j': "sys_log a = sys_log s" "room (job_slots j' + 1) (sys_shard a)"
        "job_record j' = job_record j" "job_lsn j' = job_lsn j"
        using a(2) by (simp_all add: append_outcome_def)
      show thesis
        using waiting_append_completes [OF sys_inv_step [OF assms(1) st] Some j'(2)] j'(1,3,4) that
          log_reachable_trans [OF log_reachable_step [OF st]] by auto
    qed
  qed
  have ib: "sys_inv crc pwritev2 bss b" by (rule sys_inv_reachable [OF b(1) assms(1)])
  obtain c where c: "log_reachable crc pwritev2 b c" "same_appends b c"
    "ws_appended_lsn (sys_shard c) \<le> ws_written_lsn (sys_shard c)" "room 0 (sys_shard c)"
    using flush_writes [OF ib b(4)] by blast
  have ic: "sys_inv crc pwritev2 bss c" by (rule sys_inv_reachable [OF c(1) ib])
  obtain d where d: "log_reachable crc pwritev2 c d" "same_appends c d" "same_active (sys_shard c) (sys_shard d)"
    "ws_written_lsn (sys_shard c) \<le> ws_durable_lsn (sys_shard d)"
    using flush_syncs [OF ic] by blast
  have id: "sys_inv crc pwritev2 bss d" by (rule sys_inv_reachable [OF d(1) ic])
  have r: "log_reachable crc pwritev2 s d" using b(1) c(1) d(1) log_reachable_trans by meson
  have ap: "ws_appended_lsn (sys_shard d) \<le> ws_durable_lsn (sys_shard d)"
    using c(2,3) d(2,4) by (auto simp: same_appends_def)
  have jl: "job_lsn j \<le> ws_appended_lsn (sys_shard d)"
    using b(5) c(2) d(2) by (simp add: same_appends_def)
  have "ws_file_offset (sys_shard d) + 16 * SEGMENT_SIZE \<le> 2 ^ 64"
    using c(4) same_active_room [OF d(3), of 0] by (simp add: room_def)
  moreover have "length (sys_disk d) \<le> max (ws_allocated_size (sys_shard s)) (ws_file_offset (sys_shard d) + 8 * SEGMENT_SIZE)"
    using disk_small_reachable [OF r assms(1,2)] log_reachable_grows [OF r] by (simp add: disk_small_def grows_def)
  ultimately have "length (sys_disk d) + SEGMENT_SIZE \<le> 2 ^ 64" using assms(5) by simp
  then show ?thesis
    using r b(2,3) c(2) d(2) durable_disk [OF id ap] jl ap
    by (intro exI [of _ d]) (auto simp: same_appends_def intro: order.trans)
qed

section \<open>A new log\<close>

definition new_system :: "crc_fn \<Rightarrow> log_system" where
  "new_system crc = opened_system crc
     \<lparr> owf_file_offset = WAL_HEADER_SIZE, owf_allocated_size = SEGMENT_SIZE, owf_max_lsn = 0 \<rparr>
     (build_wal_header False @ replicate (SEGMENT_SIZE - WAL_HEADER_SIZE) 0) 1"

lemma new_file: "log_file crc pwritev2 []" "length ([] :: bytes) + SEGMENT_SIZE \<le> 2 ^ 64" "log_file_ok crc []"
  "open_wal_file crc False [] =
    Some (Inr (\<lparr> owf_file_offset = WAL_HEADER_SIZE, owf_allocated_size = SEGMENT_SIZE, owf_max_lsn = 0 \<rparr>,
      build_wal_header False @ replicate (SEGMENT_SIZE - WAL_HEADER_SIZE) 0))"
  using open_new_file [of "[]" crc False]
  by (auto simp: WAL_HEADER_SIZE_def WAL_RECORD_SIZE_def PAGE_SIZE_def SEGMENT_SIZE_def log_file_ok_def
      intro!: log_file.fresh)

lemma new_system_log: "reopen crc False [] = Some (Inr [])" "sys_log (new_system crc) = []"
proof -
  let ?X = "replicate (SEGMENT_SIZE - WAL_HEADER_SIZE) 0"
  have r: "replay_records crc (build_wal_header False @ [] @ ?X) (WAL_HEADER_SIZE + 0) = Some ([], Inr ())"
    using replay_records_sealed [OF batches_sealed_simps(1) wal_header_valid(1), of crc False ?X]
    by (simp add: wal_header_valid(1))
  then show "reopen crc False [] = Some (Inr [])" by (simp add: reopen_def new_file(4))
  show "sys_log (new_system crc) = []" using r by (simp add: new_system_def opened_system_def)
qed

lemma new_system_state: "sys_job (new_system crc) = None" "ws_appended_lsn (sys_shard (new_system crc)) = 0"
  "room 2 (sys_shard (new_system crc))" "ws_allocated_size (sys_shard (new_system crc)) + SEGMENT_SIZE \<le> 2 ^ 64"
  "disk_small (new_system crc)"
proof -
  have "WAL_HEADER_SIZE \<le> SEGMENT_SIZE"
    by (simp add: WAL_HEADER_SIZE_def WAL_RECORD_SIZE_def PAGE_SIZE_def SEGMENT_SIZE_def)
  then show "disk_small (new_system crc)"
    by (simp add: new_system_def opened_system_def disk_small_def wal_inner_new_def Let_def wal_header_valid(1))
qed (simp_all add: new_system_def opened_system_def wal_inner_new_def Let_def room_def capacity_pages WAL_HEADER_SIZE_def
    WAL_RECORD_SIZE_def PAGE_SIZE_def SEGMENT_SIZE_def)

section \<open>Appends become durable\<close>

text \<open>C2: no append is stuck, and a flush makes it durable. Take any state a shard reaches after it
  was opened on a file that earlier runs left, with an append that waits for a buffer, or with a new
  one. As long as 64-bit offsets leave room for the slots of the append, turns of the threads lead to
  a state where the append has returned, its number is reported as durable, and opening and replaying
  what is safe on disk gives the whole log. In particular no step on the way panics.\<close>

theorem appends_become_durable:
  assumes "log_file crc pwritev2 file" "length file + SEGMENT_SIZE \<le> 2 ^ 64"
    and "open_wal_file crc direct_io file = Some (Inr (opened, file'))"
    and "log_reachable crc pwritev2 (opened_system crc opened file' records) s"
    and "sys_job s = Some j \<or> sys_job s = None \<and> new_job j \<and> ws_appended_lsn (sys_shard s) < job_lsn j"
    and "room (job_slots j + 1) (sys_shard s)" "ws_allocated_size (sys_shard s) + SEGMENT_SIZE \<le> 2 ^ 64"
  shows "\<exists>t. log_reachable crc pwritev2 s t \<and> sys_job t = None \<and> sys_log t = sys_log s @ [job_record j] \<and>
    job_lsn j \<le> ws_durable_lsn (sys_shard t) \<and> reopen crc direct_io (sys_disk t) = Some (Inr (sys_log t))"
proof -
  have ok: "log_file_ok crc file" using log_file_opens [OF assms(1)] assms(2) by blast
  obtain bss where b: "sys_inv crc pwritev2 bss (opened_system crc opened file' records)"
    using opened_inv [OF ok assms(2,3)] by blast
  have "ws_file (sys_shard (opened_system crc opened file' records)) = file'"
    by (simp add: opened_system_def wal_inner_new_def Let_def)
  moreover obtain fss qsss ass where "shard_holds crc (sys_shard (opened_system crc opened file' records)) fss qsss ass"
    by (rule sys_inv_shard [OF b])
  ultimately have "length file' = ws_allocated_size (sys_shard (opened_system crc opened file' records))"
    by (simp add: shard_holds_def)
  then have "disk_small (opened_system crc opened file' records)"
    by (simp add: disk_small_def opened_system_def)
  then have "disk_small s" by (rule disk_small_reachable [OF assms(4) b])
  moreover have "sys_inv crc pwritev2 bss s" by (rule sys_inv_reachable [OF assms(4) b])
  ultimately show ?thesis using append_becomes_durable [OF _ _ assms(5-7)] by blast
qed

theorem appends_become_durable_witness:
  "\<exists>t. log_reachable (\<lambda>_. 0) False (new_system (\<lambda>_. 0)) t \<and> sys_log t = [PageImage 1 7 (replicate PAGE_SIZE 5)] \<and>
    1 \<le> ws_durable_lsn (sys_shard t) \<and>
    reopen (\<lambda>_. 0) False (sys_disk t) = Some (Inr [PageImage 1 7 (replicate PAGE_SIZE 5)])"
proof -
  let ?c = "\<lambda>_. 0 :: u64" and ?j = "ImageJob 1 7 (replicate PAGE_SIZE 5)"
  have n: "new_job ?j" by (rule new_job.image) simp
  have r: "log_reachable ?c False (new_system ?c) (new_system ?c)" by (rule log_reachable.start)
  have "room (job_slots ?j + 1) (sys_shard (new_system ?c))" using new_system_state(3) by (simp add: numeral_2_eq_2)
  then have "\<exists>t. log_reachable ?c False (new_system ?c) t \<and> sys_job t = None \<and>
      sys_log t = sys_log (new_system ?c) @ [job_record ?j] \<and> job_lsn ?j \<le> ws_durable_lsn (sys_shard t) \<and>
      reopen ?c False (sys_disk t) = Some (Inr (sys_log t))"
    using n new_system_state [of ?c]
    by (intro appends_become_durable [where records = 1, OF new_file(1,2,4), folded new_system_def, OF r]) simp_all
  then show ?thesis unfolding new_system_log(2) by auto
qed

text \<open>A run that appended and flushed one image.\<close>

lemma one_image_run:
  assumes "length data = PAGE_SIZE"
  shows "\<exists>t. log_reachable crc False (new_system crc) t \<and> sys_log t = [PageImage 1 7 data] \<and>
    1 \<le> ws_durable_lsn (sys_shard t) \<and> length (sys_disk t) + SEGMENT_SIZE \<le> 2 ^ 64 \<and>
    reopen crc direct_io (sys_disk t) = Some (Inr [PageImage 1 7 data])"
proof -
  let ?j = "ImageJob 1 7 data"
  obtain bss where b: "sys_inv crc False bss (new_system crc)"
    using opened_inv [where n = 1, OF new_file(3,2,4)] unfolding new_system_def by blast
  have "new_job ?j" by (rule new_job.image) (simp_all add: assms)
  moreover have "room (job_slots ?j + 1) (sys_shard (new_system crc))" using new_system_state(3) by (simp add: numeral_2_eq_2)
  ultimately have "\<exists>t. log_reachable crc False (new_system crc) t \<and> sys_job t = None \<and>
      sys_log t = sys_log (new_system crc) @ [job_record ?j] \<and> job_lsn ?j \<le> ws_durable_lsn (sys_shard t) \<and>
      length (sys_disk t) + SEGMENT_SIZE \<le> 2 ^ 64 \<and> reopen crc direct_io (sys_disk t) = Some (Inr (sys_log t))"
    using new_system_state [of crc] by (intro append_becomes_durable [OF b]) simp_all
  then show ?thesis unfolding new_system_log(2) by auto
qed


end
