(* ===== verification/File_Io.thy ===== *)
theory File_Io
  imports Wal_Replay
begin

text \<open>
  The retry loops around \<open>pread\<close> and \<open>pwrite\<close> in \<open>crates/wal/src/io.rs\<close> and
  \<open>crates/storage/src/page_store.rs\<close>. The answers of the operating system are a parameter: a list
  of the results of the system calls, one for each turn of the loop. The loops end, and do what the
  other theories take them to do, for every way in which the system splits a transfer.
\<close>

section \<open>The loops\<close>

datatype sys_result = Interrupted | Failed io_error | Transferred nat

text \<open>\<open>finished\<close> counts the bytes transferred so far. \<open>None\<close>: the loop still waits for a system call.\<close>

fun pread_loop :: "bytes \<Rightarrow> nat \<Rightarrow> bytes \<Rightarrow> nat \<Rightarrow> sys_result list \<Rightarrow> ((io_error + unit) \<times> bytes) option" where
  "pread_loop file offset buf finished results =
     (if finished < length buf then
        (case results of
           [] \<Rightarrow> None
         | Interrupted # results \<Rightarrow> pread_loop file offset buf finished results
         | Failed e # results \<Rightarrow> Some (Inl e, buf)
         | Transferred n # results \<Rightarrow>
             if n = 0 then Some (Inl UnexpectedEof, buf)
             else pread_loop file offset (write_at finished (read_at (offset + finished) n file) buf) (finished + n) results)
      else Some (Inr (), buf))"

fun pwrite_loop :: "bytes \<Rightarrow> nat \<Rightarrow> bytes \<Rightarrow> nat \<Rightarrow> sys_result list \<Rightarrow> ((io_error + unit) \<times> bytes) option" where
  "pwrite_loop data offset file finished results =
     (if finished < length data then
        (case results of
           [] \<Rightarrow> None
         | Interrupted # results \<Rightarrow> pwrite_loop data offset file finished results
         | Failed e # results \<Rightarrow> Some (Inl e, file)
         | Transferred n # results \<Rightarrow>
             if n = 0 then Some (Inl WriteZero, file)
             else pwrite_loop data offset (pwrite_all (take n (drop finished data)) (offset + finished) file) (finished + n) results)
      else Some (Inr (), file))"

declare pread_loop.simps [simp del] pwrite_loop.simps [simp del]

section \<open>What the system promises\<close>

text \<open>\<open>pread\<close> returns at most what is left to read, and nothing only at the end of the file; \<open>pwrite\<close>
  writes something. Every call may be interrupted.\<close>

fun preads :: "bytes \<Rightarrow> nat \<Rightarrow> nat \<Rightarrow> nat \<Rightarrow> sys_result list \<Rightarrow> bool" where
  "preads file offset len finished [] = True"
| "preads file offset len finished (Interrupted # results) = preads file offset len finished results"
| "preads file offset len finished (Failed e # results) = False"
| "preads file offset len finished (Transferred n # results) =
     (finished \<ge> len \<or> (n \<le> len - finished \<and> n \<le> length file - (offset + finished) \<and>
      (n = 0 \<longrightarrow> length file \<le> offset + finished) \<and> preads file offset len (finished + n) results))"

fun pwrites :: "nat \<Rightarrow> nat \<Rightarrow> sys_result list \<Rightarrow> bool" where
  "pwrites len finished [] = True"
| "pwrites len finished (Interrupted # results) = pwrites len finished results"
| "pwrites len finished (Failed e # results) = False"
| "pwrites len finished (Transferred n # results) =
     (finished \<ge> len \<or> (0 < n \<and> n \<le> len - finished \<and> pwrites len (finished + n) results))"

definition transfers :: "sys_result list \<Rightarrow> nat" where
  "transfers results = length (filter (\<lambda>r. r \<noteq> Interrupted) results)"

lemma transfers_simps [simp]: "transfers [] = 0" "transfers (Interrupted # rs) = transfers rs"
  "transfers (Transferred n # rs) = Suc (transfers rs)" "transfers (Failed e # rs) = Suc (transfers rs)"
  by (simp_all add: transfers_def)

section \<open>What the loops do\<close>

text \<open>The buffer after a read that met the end of the file.\<close>

definition read_into :: "bytes \<Rightarrow> nat \<Rightarrow> bytes \<Rightarrow> bytes" where
  "read_into file offset buf =
     read_at offset (length buf) file @ drop (length (read_at offset (length buf) file)) buf"

lemma pread_loop_reads:
  assumes "preads file offset (length buf) finished results" "length buf \<le> finished + transfers results"
    and "finished \<le> length buf" "finished + offset \<le> length file \<or> finished = 0"
    and "take finished buf = read_at offset finished file"
  shows "pread_loop file offset buf finished results =
    Some (if offset + length buf \<le> length file \<or> length buf = 0 then Inr () else Inl UnexpectedEof,
      take finished buf @ read_into file (offset + finished) (drop finished buf))"
  using assms
proof (induction results arbitrary: buf finished)
  case Nil
  then have "finished = length buf" by simp
  then show ?case using Nil by (subst pread_loop.simps) (auto simp: read_into_def)
next
  case (Cons r results)
  show ?case
  proof (cases "finished < length buf")
    case False
    then show ?thesis using Cons.prems by (subst pread_loop.simps) (auto simp: read_into_def)
  next
    case lt: True
    show ?thesis
    proof (cases r)
      case Interrupted
      then show ?thesis
        using Cons.IH [of buf finished] Cons.prems lt by (subst pread_loop.simps) simp
    next
      case (Failed e)
      then show ?thesis using Cons.prems by simp
    next
      case (Transferred n)
      then have p: "n \<le> length buf - finished" "n \<le> length file - (offset + finished)"
        "n = 0 \<longrightarrow> length file \<le> offset + finished" "preads file offset (length buf) (finished + n) results"
        using Cons.prems(1) lt by auto
      show ?thesis
      proof (cases "n = 0")
        case True
        then have "read_at (offset + finished) k file = []" for k using p(3) by (simp add: read_at_def)
        then show ?thesis
          using True Transferred p(3) lt by (subst pread_loop.simps) (auto simp: read_into_def)
      next
        case False
        let ?b = "write_at finished (read_at (offset + finished) n file) buf"
        have l: "length ?b = length buf" using p(1,2) lt by (simp add: write_at_def read_at_def)
        have t: "take (finished + n) ?b = take finished buf @ read_at (offset + finished) n file"
          "drop (finished + n) ?b = drop (finished + n) buf"
          using p(1,2) lt by (simp_all add: write_at_def read_at_def)
        have s: "read_at offset (finished + n) file = read_at offset finished file @ read_at (offset + finished) n file"
          by (simp add: read_at_def take_add add.commute)
        have "pread_loop file offset ?b (finished + n) results =
            Some (if offset + length ?b \<le> length file \<or> length ?b = 0 then Inr () else Inl UnexpectedEof,
              take (finished + n) ?b @ read_into file (offset + (finished + n)) (drop (finished + n) ?b))"
          by (rule Cons.IH) (use Cons.prems p lt l t s Transferred False in auto)
        moreover have "take (finished + n) ?b @ read_into file (offset + (finished + n)) (drop (finished + n) ?b) =
            take finished buf @ read_into file (offset + finished) (drop finished buf)"
        proof -
          have "read_at (offset + finished) (length buf - finished) file =
              read_at (offset + finished) n file @ read_at (offset + (finished + n)) (length buf - (finished + n)) file"
          proof -
            have "length buf - finished = n + (length buf - (finished + n))" using p(1) lt by simp
            then show ?thesis unfolding read_at_def by (simp only: take_add drop_drop) (simp add: ac_simps)
          qed
          moreover have "length (read_at (offset + finished) n file) = n" using p(2) by (simp add: read_at_def)
          ultimately show ?thesis unfolding t read_into_def by (simp add: ac_simps)
        qed
        ultimately show ?thesis
          using False Transferred lt l by (subst pread_loop.simps) simp
      qed
    qed
  qed
qed

lemma pwrite_all_twice: "pwrite_all b (off + length a) (pwrite_all a off f) = pwrite_all (a @ b) off f"
proof (cases "off \<le> length f")
  case True
  then show ?thesis by (simp add: pwrite_all_def write_at_def ac_simps)
next
  case False
  then have "min (length f) off + (off - length f) = off" by simp
  then show ?thesis using False by (simp add: pwrite_all_def write_at_def ac_simps)
qed

lemma pwrite_loop_writes:
  assumes "pwrites (length data) finished results" "length data \<le> finished + transfers results" "finished \<le> length data"
    and "\<forall>n > 0. pwrite_all (take n (drop finished data)) (offset + finished) fl = pwrite_all (take (finished + n) data) offset old"
    and "finished = length data \<longrightarrow> fl = pwrite_all data offset old"
  shows "pwrite_loop data offset fl finished results = Some (Inr (), pwrite_all data offset old)"
  using assms
proof (induction results arbitrary: finished fl)
  case Nil
  then show ?case by (subst pwrite_loop.simps) simp
next
  case (Cons r results)
  show ?case
  proof (cases "finished < length data")
    case False
    then show ?thesis using Cons.prems by (subst pwrite_loop.simps) simp
  next
    case lt: True
    show ?thesis
    proof (cases r)
      case Interrupted
      then show ?thesis using Cons.IH [of finished fl] Cons.prems lt by (subst pwrite_loop.simps) simp
    next
      case (Failed e)
      then show ?thesis using Cons.prems by simp
    next
      case (Transferred n)
      then have p: "0 < n" "n \<le> length data - finished" "pwrites (length data) (finished + n) results"
        using Cons.prems(1) lt by auto
      let ?fl = "pwrite_all (take (finished + n) data) offset old"
      have w: "pwrite_all (take m (drop (finished + n) data)) (offset + (finished + n)) ?fl =
          pwrite_all (take (finished + n + m) data) offset old" for m
        using pwrite_all_twice [of "take m (drop (finished + n) data)" offset "take (finished + n) data" old] p(2) lt
        by (simp add: take_add)
      have "pwrite_loop data offset ?fl (finished + n) results = Some (Inr (), pwrite_all data offset old)"
        by (rule Cons.IH) (use Cons.prems(2) p lt w Transferred in auto)
      then show ?thesis using lt Transferred p(1) Cons.prems(4) by (subst pwrite_loop.simps) simp
    qed
  qed
qed

text \<open>C26: transfers end and are complete. As long as no call fails, a loop ends after at most as many
  calls as there are bytes, not counting the interrupted ones. However the system splits the
  transfer, reading gives the bytes of the file or reports its end with the buffer filled as far as
  the file goes, and writing leaves the file as one big write would.\<close>

theorem transfers_complete:
  "(preads file offset (length buf) 0 results \<and> length buf \<le> transfers results \<longrightarrow>
      pread_loop file offset buf 0 results =
        Some (map_sum id (\<lambda>_. ()) (if buf = [] then Inr [] else pread_all file (length buf) offset),
          read_into file offset buf)) \<and>
    (pwrites (length data) 0 results' \<and> length data \<le> transfers results' \<and> data \<noteq> [] \<longrightarrow>
      pwrite_loop data offset file 0 results' = Some (Inr (), pwrite_all data offset file))"
proof (intro conjI impI)
  assume "preads file offset (length buf) 0 results \<and> length buf \<le> transfers results"
  then show "pread_loop file offset buf 0 results =
      Some (map_sum id (\<lambda>_. ()) (if buf = [] then Inr [] else pread_all file (length buf) offset),
        read_into file offset buf)"
    using pread_loop_reads [of "file" offset buf 0 results] by (simp add: pread_all_def read_at_def)
next
  assume a: "pwrites (length data) 0 results' \<and> length data \<le> transfers results' \<and> data \<noteq> []"
  then show "pwrite_loop data offset file 0 results' = Some (Inr (), pwrite_all data offset file)"
    by (intro pwrite_loop_writes) auto
qed

theorem transfers_complete_witness:
  "pread_loop [1, 2, 3, 4, 5] 1 [0, 0, 0] 0 [Interrupted, Transferred 1, Interrupted, Transferred 1, Transferred 1] =
      Some (Inr (), [2, 3, 4]) \<and>
    pread_loop [1, 2, 3, 4, 5] 3 [0, 0, 0] 0 [Transferred 2, Transferred 0, Interrupted, Transferred 0] =
      Some (Inl UnexpectedEof, [4, 5, 0]) \<and>
    pwrite_loop [7, 8] 1 [1] 0 [Transferred 1, Interrupted, Transferred 1] = Some (Inr (), [1, 7, 8])"
  using transfers_complete [of "[1, 2, 3, 4, 5]" 1 "[0, 0, 0]" "[Interrupted, Transferred 1, Interrupted, Transferred 1, Transferred 1]" "[7, 8]"
      "[Transferred 1, Interrupted, Transferred 1]"]
    transfers_complete [of "[1, 2, 3, 4, 5]" 3 "[0, 0, 0]" "[Transferred 2, Transferred 0, Interrupted, Transferred 0]" "[]" "[]"]
    transfers_complete [of "[1]" 1 "[]" "[]" "[7, 8]" "[Transferred 1, Interrupted, Transferred 1]"]
  by (simp add: pread_all_def read_into_def read_at_def pwrite_all_def write_at_def)

end
