(* ===== verification/Page_Store.thy ===== *)
theory Page_Store
  imports File_Io "HOL-Library.AList"
begin

text \<open>
  The page stores of \<open>crates/storage/src/page_store.rs\<close>: the one in memory and the one in a file with
  its header page. The interface \<open>PageStore\<close> is a locale with the laws its users rely on, and both
  stores are shown to satisfy it. I/O statistics and the choice of direct I/O are left out; the file
  is a byte string and the calls succeed except at the end of the file and for negative offsets.
\<close>

section \<open>Buffers and offsets\<close>

definition validate_page_buf_len :: "PageId \<Rightarrow> nat \<Rightarrow> io_error + unit" where
  "validate_page_buf_len pid len = (if len = page_size pid then Inr () else Inl InvalidInput)"

text \<open>\<open>(pid as i64) * (PAGE_SIZE as i64)\<close> panics on overflow.\<close>

definition page_offset :: "PageId \<Rightarrow> int option" where
  "page_offset pid = do {
     let offset = sint (physical_page_number pid) * int PAGE_SIZE;
     ensure (- (2 ^ 63) \<le> offset \<and> offset < 2 ^ 63);
     Some offset }"

section \<open>The store in memory\<close>

record InMemoryPageStore =
  im_pages :: "(PageId \<times> bytes) list"

definition in_memory_new :: InMemoryPageStore where
  "in_memory_new = \<lparr> im_pages = [] \<rparr>"

text \<open>A page is read into a buffer, which is returned with the result.\<close>

definition in_memory_read_page :: "InMemoryPageStore \<Rightarrow> PageId \<Rightarrow> bytes \<Rightarrow> ((io_error + bool) \<times> bytes) option" where
  "in_memory_read_page st pid buf =
     (case validate_page_buf_len pid (length buf) of
        Inl e \<Rightarrow> Some (Inl e, buf)
      | Inr _ \<Rightarrow>
          (case map_of (im_pages st) pid of
             None \<Rightarrow> Some (Inr False, buf)
           | Some data \<Rightarrow> do { ensure (length data = length buf); Some (Inr True, data) }))"

definition in_memory_write_page :: "InMemoryPageStore \<Rightarrow> PageId \<Rightarrow> bytes \<Rightarrow> (io_error + InMemoryPageStore) option" where
  "in_memory_write_page st pid data =
     Some (case validate_page_buf_len pid (length data) of
        Inl e \<Rightarrow> Inl e
      | Inr _ \<Rightarrow> Inr (st\<lparr> im_pages := AList.update pid data (im_pages st) \<rparr>))"

definition in_memory_allocate :: "InMemoryPageStore \<Rightarrow> PageId \<Rightarrow> (io_error + InMemoryPageStore) option" where
  "in_memory_allocate st pid =
     Some (Inr (st\<lparr> im_pages := AList.update pid (replicate (page_size pid) 0) (im_pages st) \<rparr>))"

definition in_memory_sync :: "InMemoryPageStore \<Rightarrow> (io_error + InMemoryPageStore) option" where
  "in_memory_sync st = Some (Inr st)"

definition highest_page :: "InMemoryPageStore \<Rightarrow> u64 option" where
  "highest_page st = (case map (page_end_base_page \<circ> fst) (im_pages st) of
     [] \<Rightarrow> None | pid # pids \<Rightarrow> Some (fold max pids pid))"

definition in_memory_len :: "InMemoryPageStore \<Rightarrow> nat" where
  "in_memory_len st = (case highest_page st of None \<Rightarrow> 0 | Some m \<Rightarrow> unat m)"

definition in_memory_next_page_id :: "InMemoryPageStore \<Rightarrow> PageId option" where
  "in_memory_next_page_id st =
     (case highest_page st of None \<Rightarrow> Some 1 | Some m \<Rightarrow> do { ensure (m \<noteq> - 1); Some (m + 1) })"

section \<open>The header page\<close>

definition HEADER_MAGIC :: nat where "HEADER_MAGIC = 0x424F5854"
definition HEADER_VERSION :: nat where "HEADER_VERSION = 2"
definition HEADER_BOOTSTRAP_SIZE :: nat where "HEADER_BOOTSTRAP_SIZE = 4 * 1024"
definition HEADER_MAGIC_OFF :: nat where "HEADER_MAGIC_OFF = 0"
definition HEADER_VERSION_OFF :: nat where "HEADER_VERSION_OFF = 4"
definition HEADER_PAGE_COUNT_OFF :: nat where "HEADER_PAGE_COUNT_OFF = 8"
definition HEADER_CHECKPOINT_LSN_OFF :: nat where "HEADER_CHECKPOINT_LSN_OFF = 16"
definition HEADER_USER_META_0_OFF :: nat where "HEADER_USER_META_0_OFF = 24"
definition HEADER_USER_META_1_OFF :: nat where "HEADER_USER_META_1_OFF = 32"
definition HEADER_USER_META_2_OFF :: nat where "HEADER_USER_META_2_OFF = 40"
definition HEADER_PAGE_SIZE_OFF :: nat where "HEADER_PAGE_SIZE_OFF = 48"

lemmas header_offsets = HEADER_MAGIC_OFF_def HEADER_VERSION_OFF_def HEADER_PAGE_COUNT_OFF_def
  HEADER_CHECKPOINT_LSN_OFF_def HEADER_USER_META_0_OFF_def HEADER_USER_META_1_OFF_def
  HEADER_USER_META_2_OFF_def HEADER_PAGE_SIZE_OFF_def

definition build_header :: "u64 \<Rightarrow> u64 \<Rightarrow> u64 \<Rightarrow> u64 \<Rightarrow> u64 \<Rightarrow> bytes" where
  "build_header page_count checkpoint_lsn user_meta_0 user_meta_1 user_meta_2 =
     (let hdr = replicate PAGE_SIZE 0;
          hdr = wr 4 HEADER_MAGIC_OFF HEADER_MAGIC hdr;
          hdr = wr 2 HEADER_VERSION_OFF HEADER_VERSION hdr;
          hdr = wr 8 HEADER_PAGE_COUNT_OFF (unat page_count) hdr;
          hdr = wr 8 HEADER_CHECKPOINT_LSN_OFF (unat checkpoint_lsn) hdr;
          hdr = wr 8 HEADER_USER_META_0_OFF (unat user_meta_0) hdr;
          hdr = wr 8 HEADER_USER_META_1_OFF (unat user_meta_1) hdr;
          hdr = wr 8 HEADER_USER_META_2_OFF (unat user_meta_2) hdr in
      wr 4 HEADER_PAGE_SIZE_OFF PAGE_SIZE hdr)"

definition validate_header :: "bytes \<Rightarrow> io_error + (u64 \<times> u64 \<times> u64 \<times> u64 \<times> u64)" where
  "validate_header hdr =
     (if rd 4 HEADER_MAGIC_OFF hdr \<noteq> HEADER_MAGIC then Inl InvalidData
      else if rd 2 HEADER_VERSION_OFF hdr \<noteq> HEADER_VERSION then Inl InvalidData
      else if rd 4 HEADER_PAGE_SIZE_OFF hdr \<noteq> PAGE_SIZE then Inl InvalidData
      else Inr (word_of_nat (rd 8 HEADER_PAGE_COUNT_OFF hdr), word_of_nat (rd 8 HEADER_CHECKPOINT_LSN_OFF hdr),
        word_of_nat (rd 8 HEADER_USER_META_0_OFF hdr), word_of_nat (rd 8 HEADER_USER_META_1_OFF hdr),
        word_of_nat (rd 8 HEADER_USER_META_2_OFF hdr)))"

section \<open>The store in a file\<close>

record FilePageStore =
  fps_file :: bytes
  fps_page_count :: u64
  fps_checkpoint_lsn :: u64
  fps_user_meta_0 :: u64
  fps_user_meta_1 :: u64
  fps_user_meta_2 :: u64

text \<open>The outcome of \<open>pread_exact\<close> and \<open>pwrite_exact\<close>; a negative offset is an invalid argument.\<close>

definition pread_exact :: "bytes \<Rightarrow> bytes \<Rightarrow> int \<Rightarrow> (io_error + unit) \<times> bytes" where
  "pread_exact file buf offset =
     (if offset < 0 then (Inl InvalidInput, buf)
      else (map_sum id (\<lambda>_. ()) (pread_all file (length buf) (nat offset)), read_into file (nat offset) buf))"

definition pwrite_exact :: "bytes \<Rightarrow> bytes \<Rightarrow> int \<Rightarrow> io_error + bytes" where
  "pwrite_exact file data offset =
     (if offset < 0 then Inl InvalidInput else Inr (pwrite_all data (nat offset) file))"

definition file_open :: "bytes \<Rightarrow> io_error + FilePageStore" where
  "file_open file =
     (if length file > 0 then
        if length file < HEADER_BOOTSTRAP_SIZE then Inl UnexpectedEof
        else
          let hdr_buf = read_at 0 HEADER_BOOTSTRAP_SIZE file @ replicate (PAGE_SIZE - HEADER_BOOTSTRAP_SIZE) 0 in
          (case validate_header hdr_buf of
             Inl e \<Rightarrow> Inl e
           | Inr (page_count, checkpoint_lsn, user_meta_0, user_meta_1, user_meta_2) \<Rightarrow>
               Inr \<lparr> fps_file = file, fps_page_count = page_count, fps_checkpoint_lsn = checkpoint_lsn,
                 fps_user_meta_0 = user_meta_0, fps_user_meta_1 = user_meta_1, fps_user_meta_2 = user_meta_2 \<rparr>)
      else
        Inr \<lparr> fps_file = pwrite_all (build_header 0 0 0 0 0) 0 file, fps_page_count = 0, fps_checkpoint_lsn = 0,
          fps_user_meta_0 = 0, fps_user_meta_1 = 0, fps_user_meta_2 = 0 \<rparr>)"

definition file_read_page :: "FilePageStore \<Rightarrow> PageId \<Rightarrow> bytes \<Rightarrow> ((io_error + bool) \<times> bytes) option" where
  "file_read_page st pid buf =
     (case validate_page_buf_len pid (length buf) of
        Inl e \<Rightarrow> Some (Inl e, buf)
      | Inr _ \<Rightarrow> do {
          offset \<leftarrow> page_offset pid;
          let (res, buf) = pread_exact (fps_file st) buf offset;
          Some (case res of
              Inr _ \<Rightarrow> Inr True
            | Inl e \<Rightarrow> if e = UnexpectedEof then Inr False else Inl e, buf) })"

definition file_write_page :: "FilePageStore \<Rightarrow> PageId \<Rightarrow> bytes \<Rightarrow> (io_error + FilePageStore) option" where
  "file_write_page st pid data =
     (case validate_page_buf_len pid (length data) of
        Inl e \<Rightarrow> Some (Inl e)
      | Inr _ \<Rightarrow> do {
          offset \<leftarrow> page_offset pid;
          Some (case pwrite_exact (fps_file st) data offset of
              Inl e \<Rightarrow> Inl e
            | Inr file \<Rightarrow> Inr (st\<lparr> fps_file := file \<rparr>)) })"

definition sync_header_for :: "FilePageStore \<Rightarrow> io_error + FilePageStore" where
  "sync_header_for st =
     (let hdr = build_header (fps_page_count st) (fps_checkpoint_lsn st) (fps_user_meta_0 st) (fps_user_meta_1 st)
            (fps_user_meta_2 st) in
      case pwrite_exact (fps_file st) hdr 0 of Inl e \<Rightarrow> Inl e | Inr file \<Rightarrow> Inr (st\<lparr> fps_file := file \<rparr>))"

definition file_sync :: "FilePageStore \<Rightarrow> (io_error + FilePageStore) option" where
  "file_sync st = Some (sync_header_for st)"

definition file_allocate :: "FilePageStore \<Rightarrow> PageId \<Rightarrow> (io_error + FilePageStore) option" where
  "file_allocate st pid =
     (let current = fps_page_count st; new_count = page_end_base_page pid in
      if new_count > current then do {
        offset \<leftarrow> page_offset pid;
        let new_end = offset + int (page_size pid);
        ensure (new_end < 2 ^ 63);
        if new_end < 0 then Some (Inl InvalidInput)
        else Some (sync_header_for
          (st\<lparr> fps_file := extend_file (nat new_end) (fps_file st), fps_page_count := new_count \<rparr>)) }
      else Some (Inr st))"

definition file_len :: "FilePageStore \<Rightarrow> nat" where
  "file_len st = unat (fps_page_count st)"

definition file_next_page_id :: "FilePageStore \<Rightarrow> PageId option" where
  "file_next_page_id st = do { ensure (fps_page_count st \<noteq> - 1); Some (fps_page_count st + 1) }"

text \<open>\<open>write_pages\<close> stops at the first error; the pages before it stay written.\<close>

fun file_write_pages :: "(PageId \<times> bytes) list \<Rightarrow> FilePageStore \<Rightarrow> ((io_error + unit) \<times> FilePageStore) option" where
  "file_write_pages [] st = Some (Inr (), st)"
| "file_write_pages ((pid, data) # pages) st = do {
     res \<leftarrow> file_write_page st pid data;
     (case res of Inl e \<Rightarrow> Some (Inl e, st) | Inr st \<Rightarrow> file_write_pages pages st) }"

definition file_write_pages_and_sync :: "(PageId \<times> bytes) list \<Rightarrow> FilePageStore \<Rightarrow>
    ((io_error + unit) \<times> FilePageStore) option" where
  "file_write_pages_and_sync pages st = do {
     (res, st) \<leftarrow> file_write_pages pages st;
     (case res of
        Inl e \<Rightarrow> Some (Inl e, st)
      | Inr _ \<Rightarrow> Some (case sync_header_for st of Inl e \<Rightarrow> (Inl e, st) | Inr st \<Rightarrow> (Inr (), st))) }"

definition set_checkpoint_lsn :: "u64 \<Rightarrow> FilePageStore \<Rightarrow> FilePageStore" where
  "set_checkpoint_lsn lsn st = st\<lparr> fps_checkpoint_lsn := lsn \<rparr>"

definition set_user_meta_0 :: "u64 \<Rightarrow> FilePageStore \<Rightarrow> FilePageStore" where
  "set_user_meta_0 v st = st\<lparr> fps_user_meta_0 := v \<rparr>"

definition set_user_meta_1 :: "u64 \<Rightarrow> FilePageStore \<Rightarrow> FilePageStore" where
  "set_user_meta_1 v st = st\<lparr> fps_user_meta_1 := v \<rparr>"

definition set_user_meta_2 :: "u64 \<Rightarrow> FilePageStore \<Rightarrow> FilePageStore" where
  "set_user_meta_2 v st = st\<lparr> fps_user_meta_2 := v \<rparr>"

text \<open>A store dropped with the process still running writes its header.\<close>

definition file_drop :: "FilePageStore \<Rightarrow> bytes" where
  "file_drop st = (case sync_header_for st of Inl e \<Rightarrow> fps_file st | Inr st \<Rightarrow> fps_file st)"

section \<open>The interface\<close>

text \<open>Page ids that give offsets within the file system: positive, since page 0 is the header of the
  file, and below \<open>2 ^ 46\<close>.\<close>

definition valid_pid :: "PageId \<Rightarrow> bool" where
  "valid_pid pid = (0 < unat pid \<and> unat pid < 2 ^ 46)"

text \<open>What the users of \<open>PageStore\<close> rely on. \<open>pages\<close> is the map of pages that a store stands for.\<close>

locale page_store =
  fixes read_page :: "'s \<Rightarrow> PageId \<Rightarrow> bytes \<Rightarrow> ((io_error + bool) \<times> bytes) option"
    and write_page :: "'s \<Rightarrow> PageId \<Rightarrow> bytes \<Rightarrow> (io_error + 's) option"
    and allocate :: "'s \<Rightarrow> PageId \<Rightarrow> (io_error + 's) option"
    and sync :: "'s \<Rightarrow> (io_error + 's) option"
    and next_page_id :: "'s \<Rightarrow> PageId option"
    and store_ok :: "'s \<Rightarrow> bool"
    and pages :: "'s \<Rightarrow> PageId \<Rightarrow> bytes option"
  assumes next_law: "store_ok s \<Longrightarrow> \<exists>n. next_page_id s = Some n \<and> 0 < unat n \<and> unat n \<le> 2 ^ 46 \<and>
      (\<forall>pid page. pages s pid = Some page \<longrightarrow> valid_pid pid \<and> pid < n \<and> length page = PAGE_SIZE)"
    and read_law: "store_ok s \<Longrightarrow> valid_pid pid \<Longrightarrow> length buf = PAGE_SIZE \<Longrightarrow>
      \<exists>buf'. read_page s pid buf = Some (Inr (pages s pid \<noteq> None), buf') \<and> length buf' = PAGE_SIZE \<and>
        (\<forall>page. pages s pid = Some page \<longrightarrow> buf' = page)"
    and write_law: "store_ok s \<Longrightarrow> valid_pid pid \<Longrightarrow> next_page_id s = Some n \<Longrightarrow> pid < n \<Longrightarrow> length data = PAGE_SIZE \<Longrightarrow>
      \<exists>s'. write_page s pid data = Some (Inr s') \<and> store_ok s' \<and> pages s' = (pages s)(pid \<mapsto> data) \<and>
        next_page_id s' = Some n"
    and allocate_law: "store_ok s \<Longrightarrow> valid_pid pid \<Longrightarrow> next_page_id s = Some n \<Longrightarrow> n \<le> pid \<Longrightarrow>
      \<exists>s'. allocate s pid = Some (Inr s') \<and> store_ok s' \<and> next_page_id s' = Some (pid + 1) \<and>
        pages s' pid = Some (replicate PAGE_SIZE 0) \<and>
        (\<forall>p page. pages s p = Some page \<longrightarrow> pages s' p = Some page) \<and>
        (\<forall>p page. pages s' p = Some page \<longrightarrow> pages s p = Some page \<or> page = replicate PAGE_SIZE 0)"
    and sync_law: "store_ok s \<Longrightarrow>
      \<exists>s'. sync s = Some (Inr s') \<and> store_ok s' \<and> pages s' = pages s \<and> next_page_id s' = next_page_id s"

text \<open>A store without gaps below the next page.\<close>

locale dense_page_store = page_store +
  assumes dense_law: "store_ok s \<Longrightarrow> next_page_id s = Some n \<Longrightarrow> valid_pid pid \<Longrightarrow> pid < n \<Longrightarrow> pages s pid \<noteq> None"

section \<open>The store in memory satisfies it\<close>

definition in_memory_ok :: "InMemoryPageStore \<Rightarrow> bool" where
  "in_memory_ok st = (\<forall>(pid, page) \<in> set (im_pages st). valid_pid pid \<and> length page = PAGE_SIZE)"

lemma valid_pid_next: "valid_pid pid \<Longrightarrow> pid \<noteq> - 1 \<and> unat (pid + 1) = unat pid + 1"
proof -
  assume "valid_pid pid"
  then have "unat (pid + 1) = unat pid + 1" by (simp add: valid_pid_def unat_word_ariths)
  then show ?thesis by auto
qed

lemma fold_max_ge: "insert m (set xs) \<subseteq> {..fold max xs (m :: 'a :: linorder)}"
proof (induction xs arbitrary: m)
  case (Cons x xs)
  have "max x m \<le> fold max xs (max x m)" using Cons [of "max x m"] by auto
  then show ?case using Cons [of "max x m"] by auto
qed simp

lemma fold_max_in: "fold max xs (m :: 'a :: linorder) \<in> insert m (set xs)"
proof (induction xs arbitrary: m)
  case (Cons x xs)
  then show ?case using Cons [of "max x m"] by (auto simp: max_def split: if_splits)
qed simp

lemma highest_page_some:
  "highest_page st = Some m \<longleftrightarrow> m \<in> fst ` set (im_pages st) \<and> (\<forall>pid \<in> fst ` set (im_pages st). pid \<le> m)"
proof (cases "im_pages st")
  case Nil
  then show ?thesis by (simp add: highest_page_def)
next
  case (Cons p ps)
  let ?m = "fold max (map fst ps) (fst p)"
  have h: "highest_page st = Some ?m" using Cons by (simp add: highest_page_def page_end_base_page_def comp_def)
  have "?m \<in> fst ` set (im_pages st)" "\<forall>pid \<in> fst ` set (im_pages st). pid \<le> ?m"
    using fold_max_in [of "map fst ps" "fst p"] fold_max_ge [of "fst p" "map fst ps"] Cons by auto
  then show ?thesis using h by (metis option.inject order_antisym)
qed

lemma highest_page_none: "highest_page st = None \<longleftrightarrow> im_pages st = []"
  by (cases "im_pages st") (simp_all add: highest_page_def)

lemma in_memory_next_some:
  assumes "in_memory_ok st"
  shows "in_memory_next_page_id st = Some n \<longleftrightarrow> (if im_pages st = [] then n = 1
    else \<exists>m \<in> fst ` set (im_pages st). n = m + 1 \<and> (\<forall>pid \<in> fst ` set (im_pages st). pid \<le> m))"
proof (cases "highest_page st")
  case None
  then have "im_pages st = []" by (simp add: highest_page_none)
  then show ?thesis using None by (auto simp: in_memory_next_page_id_def)
next
  case (Some m)
  then have m: "m \<in> fst ` set (im_pages st)" "\<forall>pid \<in> fst ` set (im_pages st). pid \<le> m" "im_pages st \<noteq> []"
    by (auto simp: highest_page_some)
  then have "m \<noteq> - 1" using assms valid_pid_next by (fastforce simp: in_memory_ok_def)
  then have n: "in_memory_next_page_id st = Some (m + 1)" using Some by (simp add: in_memory_next_page_id_def)
  have u: "m' = m" if "m' \<in> fst ` set (im_pages st)" "\<forall>pid \<in> fst ` set (im_pages st). pid \<le> m'" for m'
    using that m(1,2) by (intro order_antisym) blast+
  have "(\<exists>m' \<in> fst ` set (im_pages st). n = m' + 1 \<and> (\<forall>pid \<in> fst ` set (im_pages st). pid \<le> m')) \<longleftrightarrow> n = m + 1"
    (is "?l \<longleftrightarrow> _")
  proof
    assume ?l
    then show "n = m + 1" using u by (elim bexE conjE) simp
  next
    assume "n = m + 1"
    then show ?l using m(1,2) by (intro bexI [of _ m] conjI)
  qed
  then show ?thesis unfolding n using m(3) by (simp add: eq_commute)
qed

lemma set_update_subset: "set (AList.update k v al) \<subseteq> insert (k, v) (set al)"
  by (induction al) auto

lemma pid_order:
  assumes "valid_pid m"
  shows "a < m + 1 \<longleftrightarrow> a \<le> m" "m + 1 \<le> b \<longleftrightarrow> m < b"
  using valid_pid_next [OF assms] by (auto simp: word_less_nat_alt word_le_nat_alt)

lemma in_memory_next:
  assumes "in_memory_ok st"
  shows "\<exists>n. in_memory_next_page_id st = Some n \<and> 0 < unat n \<and> unat n \<le> 2 ^ 46 \<and>
    (\<forall>pid \<in> fst ` set (im_pages st). valid_pid pid \<and> pid < n)"
proof (cases "im_pages st")
  case Nil
  then show ?thesis using in_memory_next_some [OF assms] by simp
next
  case (Cons p ps)
  then obtain m where m: "highest_page st = Some m" using highest_page_none by (cases "highest_page st") auto
  then have k: "m \<in> fst ` set (im_pages st)" "\<forall>pid \<in> fst ` set (im_pages st). pid \<le> m"
    by (auto simp: highest_page_some)
  have v: "\<forall>pid \<in> fst ` set (im_pages st). valid_pid pid" using assms by (auto simp: in_memory_ok_def)
  then have "valid_pid m" using k(1) by blast
  then have "unat (m + 1) = unat m + 1" "unat m < 2 ^ 46" "\<forall>pid \<in> fst ` set (im_pages st). pid < m + 1"
    using valid_pid_next pid_order(1) k(2) by (auto simp: valid_pid_def)
  moreover have "in_memory_next_page_id st = Some (m + 1)" using in_memory_next_some [OF assms] k Cons by auto
  ultimately show ?thesis using v by (intro exI [of _ "m + 1"]) auto
qed

lemma in_memory_update:
  assumes "in_memory_ok st" "valid_pid pid" "length data = PAGE_SIZE" "in_memory_next_page_id st = Some n"
    and "st' = st\<lparr> im_pages := AList.update pid data (im_pages st) \<rparr>"
  shows "in_memory_ok st'" "map_of (im_pages st') = (map_of (im_pages st))(pid \<mapsto> data)"
    "in_memory_next_page_id st' = Some (if pid < n then n else pid + 1)"
proof -
  have st': "im_pages st' = AList.update pid data (im_pages st)" by (simp add: assms(5))
  show ok: "in_memory_ok st'"
    using assms(1-3) set_update_subset [of pid data "im_pages st"] unfolding in_memory_ok_def st' by blast
  have k: "fst ` set (im_pages st') = insert pid (fst ` set (im_pages st))"
    unfolding st' by (simp add: dom_update)
  then have ne: "im_pages st' \<noteq> []" by auto
  show "in_memory_next_page_id st' = Some (if pid < n then n else pid + 1)"
  proof (cases "im_pages st = []")
    case True
    then have "n = 1" using assms(4) in_memory_next_some [OF assms(1)] by simp
    moreover have "\<not> pid < 1" using assms(2) by (simp add: valid_pid_def word_less_nat_alt)
    ultimately show ?thesis unfolding in_memory_next_some [OF ok] k using True ne by simp
  next
    case False
    then obtain m where m: "m \<in> fst ` set (im_pages st)" "n = m + 1" "\<forall>p \<in> fst ` set (im_pages st). p \<le> m"
      using assms(4) in_memory_next_some [OF assms(1)] by auto
    have "valid_pid m" using assms(1) m(1) by (auto simp: in_memory_ok_def)
    then have "pid < n \<longleftrightarrow> pid \<le> m" using m(2) pid_order(1) by simp
    then show ?thesis unfolding in_memory_next_some [OF ok] k using m ne by (auto intro: order.trans)
  qed
  show "map_of (im_pages st') = (map_of (im_pages st))(pid \<mapsto> data)" unfolding st' by (rule update_conv')
qed

interpretation mem: page_store in_memory_read_page in_memory_write_page in_memory_allocate in_memory_sync
  in_memory_next_page_id in_memory_ok "\<lambda>st. map_of (im_pages st)"
proof unfold_locales
  fix s :: InMemoryPageStore
  assume ok: "in_memory_ok s"
  show "\<exists>n. in_memory_next_page_id s = Some n \<and> 0 < unat n \<and> unat n \<le> 2 ^ 46 \<and>
      (\<forall>pid page. map_of (im_pages s) pid = Some page \<longrightarrow> valid_pid pid \<and> pid < n \<and> length page = PAGE_SIZE)"
    using in_memory_next [OF ok] ok by (fastforce simp: in_memory_ok_def dest!: map_of_SomeD)
  show "\<exists>s'. in_memory_sync s = Some (Inr s') \<and> in_memory_ok s' \<and> map_of (im_pages s') = map_of (im_pages s) \<and>
      in_memory_next_page_id s' = in_memory_next_page_id s"
    using ok by (simp add: in_memory_sync_def)
  fix pid
  assume v: "valid_pid pid"
  show "\<exists>buf'. in_memory_read_page s pid buf = Some (Inr (map_of (im_pages s) pid \<noteq> None), buf') \<and>
      length buf' = PAGE_SIZE \<and> (\<forall>page. map_of (im_pages s) pid = Some page \<longrightarrow> buf' = page)"
    if "length buf = PAGE_SIZE" for buf
    using ok that by (cases "map_of (im_pages s) pid")
      (auto simp: in_memory_read_page_def validate_page_buf_len_def page_size_def in_memory_ok_def dest!: map_of_SomeD)
  fix n
  assume n: "in_memory_next_page_id s = Some n"
  show "\<exists>s'. in_memory_write_page s pid data = Some (Inr s') \<and> in_memory_ok s' \<and>
      map_of (im_pages s') = (map_of (im_pages s))(pid \<mapsto> data) \<and> in_memory_next_page_id s' = Some n"
    if "pid < n" "length data = PAGE_SIZE" for data
    using in_memory_update [OF ok v that(2) n HOL.refl] that
    by (simp add: in_memory_write_page_def validate_page_buf_len_def page_size_def)
  show "\<exists>s'. in_memory_allocate s pid = Some (Inr s') \<and> in_memory_ok s' \<and>
      in_memory_next_page_id s' = Some (pid + 1) \<and> map_of (im_pages s') pid = Some (replicate PAGE_SIZE 0) \<and>
      (\<forall>p page. map_of (im_pages s) p = Some page \<longrightarrow> map_of (im_pages s') p = Some page) \<and>
      (\<forall>p page. map_of (im_pages s') p = Some page \<longrightarrow> map_of (im_pages s) p = Some page \<or> page = replicate PAGE_SIZE 0)"
    if "n \<le> pid"
  proof -
    have "map_of (im_pages s) pid = None"
      using in_memory_next [OF ok] n that by (auto simp: map_of_eq_None_iff)
    then show ?thesis
      using in_memory_update [OF ok v, of "replicate PAGE_SIZE 0", OF _ n HOL.refl] that
      by (auto simp: in_memory_allocate_def page_size_def)
  qed
qed

section \<open>The store in a file satisfies it\<close>

text \<open>The file ends with the last allocated page.\<close>

definition file_ok :: "FilePageStore \<Rightarrow> bool" where
  "file_ok st = (length (fps_file st) = (unat (fps_page_count st) + 1) * PAGE_SIZE \<and> unat (fps_page_count st) < 2 ^ 46)"

definition page_at :: "bytes \<Rightarrow> nat \<Rightarrow> bytes" where
  "page_at file n = read_at (n * PAGE_SIZE) PAGE_SIZE file"

definition file_pages :: "FilePageStore \<Rightarrow> PageId \<Rightarrow> bytes option" where
  "file_pages st pid =
     (if 0 < unat pid \<and> pid \<le> fps_page_count st then Some (page_at (fps_file st) (unat pid)) else None)"

lemma page_offset_valid:
  assumes "valid_pid pid"
  shows "\<exists>offset. page_offset pid = Some offset \<and> 0 \<le> offset \<and> offset < 2 ^ 62 \<and> nat offset = unat pid * PAGE_SIZE"
proof -
  have u: "unat pid < 2 ^ 46" using assms by (simp add: valid_pid_def)
  then have i: "int (unat pid) < 2 ^ 46" by (metis of_nat_less_iff of_nat_numeral of_nat_power)
  then have "\<not> bit (int (unat pid)) 63" "take_bit 63 (int (unat pid)) = int (unat pid)"
    by (simp_all add: bit_iff_odd take_bit_int_eq_self)
  then have "sint pid = int (unat pid)"
    using signed_take_bit_eq_if_positive [of "int (unat pid)" 63] by (simp add: sint_uint)
  then have s: "sint pid * int PAGE_SIZE = int (unat pid * PAGE_SIZE)" by simp
  have "unat pid * PAGE_SIZE < 2 ^ 62" using u by (simp add: PAGE_SIZE_def)
  then have "int (unat pid * PAGE_SIZE) < 2 ^ 62" by (metis of_nat_less_iff of_nat_numeral of_nat_power)
  then show ?thesis
    unfolding page_offset_def physical_page_number_def s
    by (intro exI [of _ "int (unat pid * PAGE_SIZE)"]) (simp add: Let_def del: of_nat_mult)
qed

lemma page_at_length: "(n + 1) * PAGE_SIZE \<le> length file \<Longrightarrow> length (page_at file n) = PAGE_SIZE"
  by (simp add: page_at_def)

lemma page_at_write:
  assumes "length data = PAGE_SIZE" "(m + 1) * PAGE_SIZE \<le> length file"
  shows "pwrite_all data (m * PAGE_SIZE) file = write_at (m * PAGE_SIZE) data file"
    "page_at (pwrite_all data (m * PAGE_SIZE) file) n = (if n = m then data else page_at file n)"
    "length (pwrite_all data (m * PAGE_SIZE) file) = length file"
proof -
  show w: "pwrite_all data (m * PAGE_SIZE) file = write_at (m * PAGE_SIZE) data file"
    using assms by (simp add: pwrite_all_def)
  have "n * PAGE_SIZE + PAGE_SIZE \<le> m * PAGE_SIZE \<or> m * PAGE_SIZE + PAGE_SIZE \<le> n * PAGE_SIZE" if "n \<noteq> m"
    using that by (metis add.commute linorder_neqE_nat mult_Suc mult_le_mono1 Suc_leI)
  then show "page_at (pwrite_all data (m * PAGE_SIZE) file) n = (if n = m then data else page_at file n)"
    unfolding w page_at_def using assms by (auto intro: read_write_same_n read_write_disjoint)
  show "length (pwrite_all data (m * PAGE_SIZE) file) = length file" unfolding w using assms by simp
qed

lemma page_at_extend:
  assumes "length file = m * PAGE_SIZE" "m \<le> k" "n < k"
  shows "page_at (extend_file (k * PAGE_SIZE) file) n = (if n < m then page_at file n else replicate PAGE_SIZE 0)"
proof -
  have le: "m * PAGE_SIZE \<le> k * PAGE_SIZE" "n * PAGE_SIZE + PAGE_SIZE \<le> k * PAGE_SIZE"
    using assms(2,3) mult_le_mono1 [of "Suc n" k PAGE_SIZE] by simp_all
  have e: "extend_file (k * PAGE_SIZE) file = file @ replicate (k * PAGE_SIZE - m * PAGE_SIZE) 0"
    using assms(1) le(1) by (simp add: extend_file_def)
  show ?thesis
  proof (cases "n < m")
    case True
    then have "n * PAGE_SIZE + PAGE_SIZE \<le> m * PAGE_SIZE" using mult_le_mono1 [of "Suc n" m PAGE_SIZE] by simp
    then show ?thesis unfolding e page_at_def using True assms(1) by (simp add: read_at_append_left)
  next
    case False
    then have "m * PAGE_SIZE \<le> n * PAGE_SIZE" by simp
    then show ?thesis
      unfolding e page_at_def using False assms(1) le by (simp add: read_at_append_right read_at_replicate)
  qed
qed

lemma length_build_header: "length (build_header pc cl m0 m1 m2) = PAGE_SIZE"
  by (simp add: build_header_def Let_def header_offsets PAGE_SIZE_def)

lemma sync_header_some:
  assumes "PAGE_SIZE \<le> length (fps_file st)"
  shows "\<exists>file. sync_header_for st = Inr (st\<lparr> fps_file := file \<rparr>) \<and> length file = length (fps_file st) \<and>
    (\<forall>n > 0. page_at file n = page_at (fps_file st) n) \<and> page_at file 0 =
      build_header (fps_page_count st) (fps_checkpoint_lsn st) (fps_user_meta_0 st) (fps_user_meta_1 st) (fps_user_meta_2 st)"
proof -
  let ?h = "build_header (fps_page_count st) (fps_checkpoint_lsn st) (fps_user_meta_0 st) (fps_user_meta_1 st) (fps_user_meta_2 st)"
  have "(0 + 1) * PAGE_SIZE \<le> length (fps_file st)" using assms by simp
  note w = page_at_write [OF length_build_header this]
  show ?thesis
    using w(2,3) by (intro exI [of _ "pwrite_all ?h 0 (fps_file st)"]) (simp add: sync_header_for_def pwrite_exact_def)
qed

interpretation fs: page_store file_read_page file_write_page file_allocate file_sync file_next_page_id file_ok file_pages
proof unfold_locales
  fix s :: FilePageStore
  assume ok: "file_ok s"
  let ?c = "fps_page_count s"
  have c: "unat ?c < 2 ^ 46" "length (fps_file s) = (unat ?c + 1) * PAGE_SIZE" using ok by (simp_all add: file_ok_def)
  have nx: "?c \<noteq> - 1" "unat (?c + 1) = unat ?c + 1" 
  proof -
    show "unat (?c + 1) = unat ?c + 1" using c(1) by (simp add: unat_word_ariths)
    then show "?c \<noteq> - 1" by auto
  qed
  then have next_id: "file_next_page_id s = Some (?c + 1)" by (simp add: file_next_page_id_def)
  have lt: "p < ?c + 1 \<longleftrightarrow> p \<le> ?c" for p using nx(2) by (auto simp: word_less_nat_alt word_le_nat_alt)
  have fit: "(unat p + 1) * PAGE_SIZE \<le> length (fps_file s)" if "p \<le> ?c" for p
    using that unfolding c(2) by (intro mult_le_mono1) (simp add: word_le_nat_alt)
  show "\<exists>n. file_next_page_id s = Some n \<and> 0 < unat n \<and> unat n \<le> 2 ^ 46 \<and>
      (\<forall>pid page. file_pages s pid = Some page \<longrightarrow> valid_pid pid \<and> pid < n \<and> length page = PAGE_SIZE)"
    using next_id nx(2) c(1) lt fit
    by (intro exI [of _ "?c + 1"]) (auto simp: file_pages_def valid_pid_def page_at_length word_le_nat_alt split: if_splits)
  show "\<exists>s'. file_sync s = Some (Inr s') \<and> file_ok s' \<and> file_pages s' = file_pages s \<and>
      file_next_page_id s' = file_next_page_id s"
    using sync_header_some [of s] c
    by (auto simp: file_sync_def file_ok_def file_pages_def file_next_page_id_def fun_eq_iff)
  fix pid
  assume v: "valid_pid pid"
  obtain offset where off: "page_offset pid = Some offset" "0 \<le> offset" "offset < 2 ^ 62" "nat offset = unat pid * PAGE_SIZE"
    using page_offset_valid [OF v] by blast
  show "\<exists>buf'. file_read_page s pid buf = Some (Inr (file_pages s pid \<noteq> None), buf') \<and>
      length buf' = PAGE_SIZE \<and> (\<forall>page. file_pages s pid = Some page \<longrightarrow> buf' = page)"
    if "length buf = PAGE_SIZE" for buf
  proof (cases "pid \<le> ?c")
    case True
    then have "unat pid * PAGE_SIZE + PAGE_SIZE \<le> length (fps_file s)" using fit [OF True] by simp
    then show ?thesis
      using that off True v page_at_length [OF fit [OF True]]
      by (simp add: file_read_page_def validate_page_buf_len_def page_size_def pread_exact_def pread_all_def
          read_into_def page_at_def file_pages_def valid_pid_def)
  next
    case False
    then have "unat ?c + 1 \<le> unat pid" by (simp add: word_le_nat_alt)
    then have "(unat ?c + 1) * PAGE_SIZE \<le> unat pid * PAGE_SIZE" by (rule mult_le_mono1)
    then have "length (fps_file s) \<le> unat pid * PAGE_SIZE" using c(2) by simp
    then show ?thesis
      using that off False
      by (simp add: file_read_page_def validate_page_buf_len_def page_size_def pread_exact_def pread_all_def
          read_into_def read_at_def file_pages_def PAGE_SIZE_def)
  qed
  fix n
  assume n: "file_next_page_id s = Some n"
  then have n': "n = ?c + 1" using next_id by simp
  show "\<exists>s'. file_write_page s pid data = Some (Inr s') \<and> file_ok s' \<and>
      file_pages s' = (file_pages s)(pid \<mapsto> data) \<and> file_next_page_id s' = Some n"
    if "pid < n" "length data = PAGE_SIZE" for data
  proof -
    have le: "pid \<le> ?c" using that(1) n' lt by simp
    show ?thesis
      using page_at_write [OF that(2) fit [OF le]] off that(2) le v n ok
      by (auto simp: file_write_page_def validate_page_buf_len_def page_size_def pwrite_exact_def file_ok_def
          file_pages_def file_next_page_id_def fun_eq_iff valid_pid_def simp flip: word_unat_eq_iff)
  qed
  show "\<exists>s'. file_allocate s pid = Some (Inr s') \<and> file_ok s' \<and>
      file_next_page_id s' = Some (pid + 1) \<and> file_pages s' pid = Some (replicate PAGE_SIZE 0) \<and>
      (\<forall>p page. file_pages s p = Some page \<longrightarrow> file_pages s' p = Some page) \<and>
      (\<forall>p page. file_pages s' p = Some page \<longrightarrow> file_pages s p = Some page \<or> page = replicate PAGE_SIZE 0)"
    if "n \<le> pid"
  proof -
    have gt: "?c < pid" "unat ?c + 1 \<le> unat pid" using that n' lt nx(2) by (auto simp: word_le_nat_alt word_less_nat_alt)
    let ?f = "extend_file ((unat pid + 1) * PAGE_SIZE) (fps_file s)"
    let ?s = "s\<lparr> fps_file := ?f, fps_page_count := pid \<rparr>"
    have len: "length ?f = (unat pid + 1) * PAGE_SIZE"
      using c(2) gt(2) mult_le_mono1 [of "unat ?c + 1" "unat pid + 1" PAGE_SIZE] by (simp add: extend_file_def)
    obtain fl where f: "sync_header_for ?s = Inr (?s\<lparr> fps_file := fl \<rparr>)" "length fl = length ?f"
      "\<forall>n > 0. page_at fl n = page_at ?f n"
      using sync_header_some [of ?s] len by auto
    have e: "page_at ?f k = (if k \<le> unat ?c then page_at (fps_file s) k else replicate PAGE_SIZE 0)" if "k \<le> unat pid" for k
      using page_at_extend [OF c(2), of "unat pid + 1" k] gt(2) that by auto
    have "file_allocate s pid = Some (Inr (?s\<lparr> fps_file := fl \<rparr>))"
      using f(1) gt(1) off PAGE_SIZE_def
      by (simp add: file_allocate_def page_end_base_page_def page_size_def nat_add_distrib add.commute)
    moreover have "file_ok (?s\<lparr> fps_file := fl \<rparr>)" using f(2) len v by (simp add: file_ok_def valid_pid_def)
    moreover have "file_next_page_id (?s\<lparr> fps_file := fl \<rparr>) = Some (pid + 1)"
      using valid_pid_next [OF v] by (simp add: file_next_page_id_def)
    moreover have pg: "file_pages (?s\<lparr> fps_file := fl \<rparr>) p =
        (if 0 < unat p \<and> p \<le> pid then Some (if p \<le> ?c then page_at (fps_file s) (unat p) else replicate PAGE_SIZE 0) else None)" for p
      using f(3) e by (auto simp: file_pages_def word_le_nat_alt)
    ultimately show ?thesis
      using gt(1) v by (intro exI [of _ "?s\<lparr> fps_file := fl \<rparr>"])
        (auto simp: pg file_pages_def [of s] valid_pid_def simp del: FilePageStore.update_convs split: if_splits)
  qed
qed

interpretation fsd: dense_page_store file_read_page file_write_page file_allocate file_sync file_next_page_id file_ok file_pages
proof unfold_locales
  fix s n pid
  assume a: "file_ok s" "file_next_page_id s = Some n" "valid_pid pid" "pid < n"
  have "unat (fps_page_count s + 1) = unat (fps_page_count s) + 1" using a(1) by (simp add: file_ok_def unat_word_ariths)
  then have "pid \<le> fps_page_count s"
    using a(2,4) by (auto simp: file_next_page_id_def word_less_nat_alt word_le_nat_alt)
  then show "file_pages s pid \<noteq> None" using a(3) by (simp add: file_pages_def valid_pid_def)
qed

section \<open>Reopening\<close>

lemma header_fields:
  assumes "HEADER_BOOTSTRAP_SIZE \<le> k"
  shows "validate_header (take k (build_header pc cl m0 m1 m2) @ zs) = Inr (pc, cl, m0, m1, m2)"
proof -
  let ?h = "build_header pc cl m0 m1 m2"
  have p: "(52 :: nat) \<le> PAGE_SIZE" "PAGE_SIZE < 256 ^ 4" by (simp_all add: PAGE_SIZE_def)
  have k: "52 \<le> k" using assms by (simp add: HEADER_BOOTSTRAP_SIZE_def)
  have t: "rd n off (take k ?h @ zs) = rd n off ?h" if "off + n \<le> 52" for n off
    using that k p(1) by (simp add: rd_append_left rd_take length_build_header)
  have u: "unat (x :: u64) mod 18446744073709551616 = unat x" for x
  proof -
    have "unat x < 2 ^ LENGTH(64)" by (rule unsigned_less)
    then show ?thesis by simp
  qed
  have "rd 4 0 ?h = HEADER_MAGIC" "rd 2 4 ?h = HEADER_VERSION" "rd 8 8 ?h = unat pc" "rd 8 16 ?h = unat cl"
    "rd 8 24 ?h = unat m0" "rd 8 32 ?h = unat m1" "rd 8 40 ?h = unat m2" "rd 4 48 ?h = PAGE_SIZE"
    using p by (simp_all add: build_header_def Let_def header_offsets window_simps u HEADER_MAGIC_def HEADER_VERSION_def)
  then show ?thesis by (simp add: validate_header_def header_offsets t)
qed

lemma open_synced:
  assumes "file_ok st" "sync_header_for st = Inr st'"
  shows "file_open (fps_file st') = Inr st' \<and> fps_page_count st' = fps_page_count st \<and>
    fps_checkpoint_lsn st' = fps_checkpoint_lsn st \<and> fps_user_meta_0 st' = fps_user_meta_0 st \<and>
    fps_user_meta_1 st' = fps_user_meta_1 st \<and> fps_user_meta_2 st' = fps_user_meta_2 st"
proof -
  have l: "PAGE_SIZE \<le> length (fps_file st)" using assms(1) by (simp add: file_ok_def)
  let ?h = "build_header (fps_page_count st) (fps_checkpoint_lsn st) (fps_user_meta_0 st) (fps_user_meta_1 st) (fps_user_meta_2 st)"
  obtain fl where f: "st' = st\<lparr> fps_file := fl \<rparr>" "length fl = length (fps_file st)" "page_at fl 0 = ?h"
    using sync_header_some [OF l] assms(2) by auto
  have b: "HEADER_BOOTSTRAP_SIZE \<le> PAGE_SIZE" "0 < HEADER_BOOTSTRAP_SIZE" by (simp_all add: HEADER_BOOTSTRAP_SIZE_def PAGE_SIZE_def)
  have "read_at 0 HEADER_BOOTSTRAP_SIZE fl = take HEADER_BOOTSTRAP_SIZE (page_at fl 0)"
    using b by (simp add: page_at_def read_at_def)
  then have "file_open fl = Inr (st\<lparr> fps_file := fl \<rparr>)"
  proof -
    have "fps_file st \<noteq> []" using l b by auto
    then show ?thesis
      using f(2,3) l b header_fields [OF order.refl] \<open>read_at 0 HEADER_BOOTSTRAP_SIZE fl = _\<close>
      by (cases st) (simp add: file_open_def Let_def)
  qed
  then show ?thesis by (simp add: f(1))
qed

text \<open>C28: a page store file can be opened again. After a sync, or after the drop of a store, opening the
  file gives back the page count, the checkpoint number, the three metadata slots and all pages. A file
  shorter than the first 4 KiB, or with a header of another format, is refused, and a header page
  written with any contents is read back.\<close>

theorem file_store_reopens:
  "(file_ok st \<longrightarrow> (\<exists>st'. file_sync st = Some (Inr st') \<and> file_open (fps_file st') = Inr st' \<and>
      fps_page_count st' = fps_page_count st \<and> fps_checkpoint_lsn st' = fps_checkpoint_lsn st \<and>
      fps_user_meta_0 st' = fps_user_meta_0 st \<and> fps_user_meta_1 st' = fps_user_meta_1 st \<and>
      fps_user_meta_2 st' = fps_user_meta_2 st \<and> file_pages st' = file_pages st \<and> file_drop st = fps_file st')) \<and>
    (0 < length file \<and> length file < HEADER_BOOTSTRAP_SIZE \<longrightarrow> file_open file = Inl UnexpectedEof) \<and>
    (\<exists>st'. file_open [] = Inr st' \<and> file_ok st' \<and> file_next_page_id st' = Some 1) \<and>
    validate_header (build_header pc cl m0 m1 m2) = Inr (pc, cl, m0, m1, m2)"
proof (intro conjI impI)
  assume ok: "file_ok st"
  obtain st' where s: "file_sync st = Some (Inr st')" "file_pages st' = file_pages st"
    using fs.sync_law [OF ok] by blast
  then have h: "sync_header_for st = Inr st'" by (simp add: file_sync_def)
  then show "\<exists>st'. file_sync st = Some (Inr st') \<and> file_open (fps_file st') = Inr st' \<and>
      fps_page_count st' = fps_page_count st \<and> fps_checkpoint_lsn st' = fps_checkpoint_lsn st \<and>
      fps_user_meta_0 st' = fps_user_meta_0 st \<and> fps_user_meta_1 st' = fps_user_meta_1 st \<and>
      fps_user_meta_2 st' = fps_user_meta_2 st \<and> file_pages st' = file_pages st \<and> file_drop st = fps_file st'"
    using s open_synced [OF ok h] by (simp add: file_drop_def)
next
  have "length (pwrite_all (build_header 0 0 0 0 0) 0 []) = PAGE_SIZE"
    by (simp add: pwrite_all_def write_at_def length_build_header)
  then show "\<exists>st'. file_open [] = Inr st' \<and> file_ok st' \<and> file_next_page_id st' = Some 1"
    by (simp add: file_open_def file_ok_def file_next_page_id_def)
  show "validate_header (build_header pc cl m0 m1 m2) = Inr (pc, cl, m0, m1, m2)"
    using header_fields [of PAGE_SIZE pc cl m0 m1 m2 "[]"]
    by (simp add: length_build_header HEADER_BOOTSTRAP_SIZE_def PAGE_SIZE_def)
qed (auto simp: file_open_def)

theorem file_store_reopens_witness:
  "\<exists>st st'. file_open [] = Inr st \<and> file_sync (set_checkpoint_lsn 9 st) = Some (Inr st') \<and>
    file_open (fps_file st') = Inr st' \<and> fps_checkpoint_lsn st' = 9 \<and> file_open [1, 2, 3] = Inl UnexpectedEof"
proof -
  note th = file_store_reopens [of _ "[1, 2, 3]" 0 0 0 0 0]
  obtain st where st: "file_open [] = Inr st" "file_ok st" using th by blast
  have "file_ok (set_checkpoint_lsn 9 st)" using st(2) by (simp add: file_ok_def set_checkpoint_lsn_def)
  then obtain st' where "file_sync (set_checkpoint_lsn 9 st) = Some (Inr st')" "file_open (fps_file st') = Inr st'"
    "fps_checkpoint_lsn st' = fps_checkpoint_lsn (set_checkpoint_lsn 9 st)"
    using th [of "set_checkpoint_lsn 9 st"] by blast
  moreover have "file_open [1, 2, 3] = Inl UnexpectedEof" using th by (simp add: HEADER_BOOTSTRAP_SIZE_def)
  ultimately show ?thesis using st(1) by (auto simp: set_checkpoint_lsn_def)
qed

section \<open>The stores are interchangeable\<close>

text \<open>A client that, as the buffer pool does, allocates the page the store proposes, writes allocated
  pages only, and reads.\<close>

datatype store_op = NewPage | WritePage PageId bytes | ReadPage PageId

fun run_ops :: "('s \<Rightarrow> PageId \<Rightarrow> bytes \<Rightarrow> ((io_error + bool) \<times> bytes) option) \<Rightarrow>
    ('s \<Rightarrow> PageId \<Rightarrow> bytes \<Rightarrow> (io_error + 's) option) \<Rightarrow> ('s \<Rightarrow> PageId \<Rightarrow> (io_error + 's) option) \<Rightarrow>
    ('s \<Rightarrow> PageId option) \<Rightarrow> store_op list \<Rightarrow> 's \<Rightarrow> bytes option list option" where
  "run_ops rd_page wr_page alloc nxt [] s = Some []"
| "run_ops rd_page wr_page alloc nxt (NewPage # ops) s = do {
     n \<leftarrow> nxt s;
     res \<leftarrow> alloc s n;
     (case res of Inl e \<Rightarrow> None | Inr s \<Rightarrow> run_ops rd_page wr_page alloc nxt ops s) }"
| "run_ops rd_page wr_page alloc nxt (WritePage pid data # ops) s = do {
     n \<leftarrow> nxt s;
     if valid_pid pid \<and> pid < n \<and> length data = PAGE_SIZE then do {
       res \<leftarrow> wr_page s pid data;
       (case res of Inl e \<Rightarrow> None | Inr s \<Rightarrow> run_ops rd_page wr_page alloc nxt ops s) }
     else run_ops rd_page wr_page alloc nxt ops s }"
| "run_ops rd_page wr_page alloc nxt (ReadPage pid # ops) s =
     (if valid_pid pid then do {
       (res, buf) \<leftarrow> rd_page s pid (replicate PAGE_SIZE 0);
       (case res of
          Inl e \<Rightarrow> None
        | Inr found \<Rightarrow> do {
            out \<leftarrow> run_ops rd_page wr_page alloc nxt ops s;
            Some ((if found then Some buf else None) # out) }) }
     else run_ops rd_page wr_page alloc nxt ops s)"

text \<open>The same operations on a map of pages.\<close>

fun map_ops :: "store_op list \<Rightarrow> (PageId \<rightharpoonup> bytes) \<Rightarrow> PageId \<Rightarrow> bytes option list" where
  "map_ops [] m n = []"
| "map_ops (NewPage # ops) m n = map_ops ops (m(n \<mapsto> replicate PAGE_SIZE 0)) (n + 1)"
| "map_ops (WritePage pid data # ops) m n =
     map_ops ops (if valid_pid pid \<and> pid < n \<and> length data = PAGE_SIZE then m(pid \<mapsto> data) else m) n"
| "map_ops (ReadPage pid # ops) m n = (if valid_pid pid then m pid # map_ops ops m n else map_ops ops m n)"

context page_store
begin

lemma run_ops_map:
  assumes "store_ok s" "next_page_id s = Some n" "unat n + length ops < 2 ^ 46"
    and "\<forall>p. valid_pid p \<and> p < n \<longrightarrow> pages s p \<noteq> None"
  shows "run_ops read_page write_page allocate next_page_id ops s = Some (map_ops ops (pages s) n)"
  using assms
proof (induction ops arbitrary: s n)
  case (Cons op ops)
  note nl = next_law [OF Cons.prems(1)]
  show ?case
  proof (cases op)
    case NewPage
    have v: "valid_pid n" using nl Cons.prems(2,3) by (auto simp: valid_pid_def)
    obtain s' where s': "allocate s n = Some (Inr s')" "store_ok s'" "next_page_id s' = Some (n + 1)"
      "pages s' n = Some (replicate PAGE_SIZE 0)" "\<forall>p page. pages s p = Some page \<longrightarrow> pages s' p = Some page"
      using allocate_law [OF Cons.prems(1) v Cons.prems(2)] by auto
    have u: "unat (n + 1) = unat n + 1" using valid_pid_next [OF v] by simp
    have "pages s' p = ((pages s)(n \<mapsto> replicate PAGE_SIZE 0)) p" for p
    proof (cases "p < n \<and> valid_pid p")
      case True
      then show ?thesis using Cons.prems(4) s'(5) by auto
    next
      case False
      have "pages s p = None" using nl Cons.prems(2) False by fastforce
      moreover have "pages s' p = None" if "p \<noteq> n"
      proof (rule ccontr)
        assume "pages s' p \<noteq> None"
        then have "valid_pid p" "p < n + 1" using next_law [OF s'(2)] s'(3) by auto
        then show False using False that pid_order(1) [OF v] by auto
      qed
      ultimately show ?thesis using s'(4) by auto
    qed
    then have pg: "pages s' = (pages s)(n \<mapsto> replicate PAGE_SIZE 0)" by blast
    have "run_ops read_page write_page allocate next_page_id ops s' = Some (map_ops ops (pages s') (n + 1))"
      by (rule Cons.IH [OF s'(2,3)]) (use u Cons.prems(3,4) pid_order(1) [OF v] in \<open>auto simp: pg NewPage\<close>)
    then show ?thesis using s'(1) pg Cons.prems(2) by (simp add: NewPage)
  next
    case (WritePage pid data)
    show ?thesis
    proof (cases "valid_pid pid \<and> pid < n \<and> length data = PAGE_SIZE")
      case True
      then obtain s' where s': "write_page s pid data = Some (Inr s')" "store_ok s'"
        "pages s' = (pages s)(pid \<mapsto> data)" "next_page_id s' = Some n"
        using write_law [OF Cons.prems(1) _ Cons.prems(2)] by blast
      have "run_ops read_page write_page allocate next_page_id ops s' = Some (map_ops ops (pages s') n)"
        by (rule Cons.IH [OF s'(2,4)]) (use Cons.prems(3,4) in \<open>auto simp: s'(3)\<close>)
      then show ?thesis using s'(1,3) Cons.prems(2) True by (simp add: WritePage)
    next
      case False
      then show ?thesis using Cons.IH [OF Cons.prems(1,2)] Cons.prems by (auto simp: WritePage)
    qed
  next
    case (ReadPage pid)
    have rec: "run_ops read_page write_page allocate next_page_id ops s = Some (map_ops ops (pages s) n)"
      by (rule Cons.IH [OF Cons.prems(1,2)]) (use Cons.prems in auto)
    show ?thesis
    proof (cases "valid_pid pid")
      case True
      then obtain buf where "read_page s pid (replicate PAGE_SIZE 0) = Some (Inr (pages s pid \<noteq> None), buf)"
        "\<forall>page. pages s pid = Some page \<longrightarrow> buf = page"
        using read_law [OF Cons.prems(1) True, of "replicate PAGE_SIZE 0"] by auto
      then show ?thesis using rec True by (cases "pages s pid") (auto simp: ReadPage)
    qed (use rec in \<open>simp add: ReadPage\<close>)
  qed
qed simp

end



end
