(* ===== verification/Wal_Recovery.thy ===== *)
theory Wal_Recovery
  imports Wal_Progress Page_Store Page_Header
begin

text \<open>
  Recovery in \<open>crates/wal/src/wal_impl.rs\<close>: the records of the log are read back in order and page
  images and patches that are newer than the pages of the store are applied to it; records the
  caller defined go to a callback. The page store, the reader of page numbers and the callback are
  parameters, as they are in the code. The theorems say that recovery applies exactly the records
  of the log, and that it brings every page to the state after its last record, from whatever
  version of it a crash left in the store.
\<close>

section \<open>State\<close>

record RecoveryReport =
  rr_records_scanned :: nat
  rr_records_applied :: nat
  rr_logical_records_delivered :: nat
  rr_skipped_checkpoint :: nat
  rr_skipped_page_lsn :: nat
  rr_max_lsn :: Lsn

definition empty_report :: RecoveryReport where
  "empty_report = \<lparr> rr_records_scanned = 0, rr_records_applied = 0, rr_logical_records_delivered = 0,
     rr_skipped_checkpoint = 0, rr_skipped_page_lsn = 0, rr_max_lsn = 0 \<rparr>"

text \<open>\<open>PageImageRecovery\<close> with the operations of the store, and the callback with its state.\<close>

record ('s, 'l) PageImageRecovery =
  pir_read_page :: "'s \<Rightarrow> PageId \<Rightarrow> bytes \<Rightarrow> ((io_error + bool) \<times> bytes) option"
  pir_write_page :: "'s \<Rightarrow> PageId \<Rightarrow> bytes \<Rightarrow> (io_error + 's) option"
  pir_allocate :: "'s \<Rightarrow> PageId \<Rightarrow> (io_error + 's) option"
  pir_sync :: "'s \<Rightarrow> (io_error + 's) option"
  pir_next_page_id :: "'s \<Rightarrow> PageId option"
  pir_checkpoint_lsn :: Lsn
  pir_read_page_lsn :: "bytes \<Rightarrow> Lsn"
  pir_apply_logical :: "Lsn \<Rightarrow> u64 \<Rightarrow> bytes \<Rightarrow> 'l \<Rightarrow> io_error + 'l"

text \<open>The local variables of the loop: the store, \<open>report\<close>, \<open>current_next\<close>, \<open>page_buf\<close>, and the state of
  the callback.\<close>

record ('s, 'l) recovery =
  rv_store :: 's
  rv_report :: RecoveryReport
  rv_next :: PageId
  rv_buf :: bytes
  rv_user :: 'l

text \<open>The operator \<open>?\<close> on a result inside the option monad.\<close>

definition ok_then :: "(io_error + 'a) option \<Rightarrow> ('a \<Rightarrow> (io_error + 'b) option) \<Rightarrow> (io_error + 'b) option" where
  "ok_then m f = do { res \<leftarrow> m; (case res of Inl e \<Rightarrow> Some (Inl e) | Inr x \<Rightarrow> f x) }"

lemma ok_then_simps [simp]: "ok_then None f = None" "ok_then (Some (Inl e)) f = Some (Inl e)"
  "ok_then (Some (Inr x)) f = f x"
  by (simp_all add: ok_then_def)

definition resize_buf :: "nat \<Rightarrow> bytes \<Rightarrow> bytes" where
  "resize_buf n buf = take n buf @ replicate (n - length buf) 0"

abbreviation count_applied :: "RecoveryReport \<Rightarrow> RecoveryReport" where
  "count_applied rep \<equiv> rep\<lparr> rr_records_applied := rr_records_applied rep + 1 \<rparr>"

abbreviation count_skipped_checkpoint :: "RecoveryReport \<Rightarrow> RecoveryReport" where
  "count_skipped_checkpoint rep \<equiv> rep\<lparr> rr_skipped_checkpoint := rr_skipped_checkpoint rep + 1 \<rparr>"

abbreviation count_skipped_page_lsn :: "RecoveryReport \<Rightarrow> RecoveryReport" where
  "count_skipped_page_lsn rep \<equiv> rep\<lparr> rr_skipped_page_lsn := rr_skipped_page_lsn rep + 1 \<rparr>"

section \<open>One record\<close>

text \<open>The two ways to find out whether a page is older than a record: the first component says that
  it is not.\<close>

definition allocate_page :: "('s, 'l) PageImageRecovery \<Rightarrow> PageId \<Rightarrow> ('s, 'l) recovery \<Rightarrow>
    (io_error + ('s, 'l) recovery) option" where
  "allocate_page ops pid rv = ok_then (pir_allocate ops (rv_store rv) pid) (\<lambda>st. do {
     n \<leftarrow> pir_next_page_id ops st;
     Some (Inr (rv\<lparr> rv_store := st, rv_next := n \<rparr>)) })"

definition read_and_compare :: "('s, 'l) PageImageRecovery \<Rightarrow> Lsn \<Rightarrow> PageId \<Rightarrow> nat \<Rightarrow> ('s, 'l) recovery \<Rightarrow>
    (io_error + bool \<times> ('s, 'l) recovery) option" where
  "read_and_compare ops lsn pid page_len rv = do {
     (res, buf) \<leftarrow> pir_read_page ops (rv_store rv) pid (resize_buf page_len (rv_buf rv));
     (case res of
        Inl e \<Rightarrow> Some (Inl e)
      | Inr found \<Rightarrow>
          let rv = rv\<lparr> rv_buf := buf \<rparr> in
          if found \<and> pir_read_page_lsn ops buf \<ge> lsn
          then Some (Inr (True, rv\<lparr> rv_report := count_skipped_page_lsn (rv_report rv) \<rparr>))
          else Some (Inr (False, rv))) }"

definition write_recovered :: "('s, 'l) PageImageRecovery \<Rightarrow> PageId \<Rightarrow> bytes \<Rightarrow> ('s, 'l) recovery \<Rightarrow>
    (io_error + ('s, 'l) recovery) option" where
  "write_recovered ops pid data rv = ok_then (pir_write_page ops (rv_store rv) pid data) (\<lambda>st.
     Some (Inr (rv\<lparr> rv_store := st, rv_report := count_applied (rv_report rv) \<rparr>)))"

definition recover_page_image :: "('s, 'l) PageImageRecovery \<Rightarrow> Lsn \<Rightarrow> PageId \<Rightarrow> bytes \<Rightarrow> ('s, 'l) recovery \<Rightarrow>
    (io_error + ('s, 'l) recovery) option" where
  "recover_page_image ops lsn pid data rv =
     (if lsn \<le> pir_checkpoint_lsn ops
      then Some (Inr (rv\<lparr> rv_report := count_skipped_checkpoint (rv_report rv) \<rparr>))
      else if length data \<noteq> page_size pid then Some (Inr rv)
      else if page_end_base_page pid \<ge> rv_next rv
      then ok_then (allocate_page ops pid rv) (write_recovered ops pid data)
      else ok_then (read_and_compare ops lsn pid (page_size pid) rv) (\<lambda>(newer, rv).
        if newer then Some (Inr rv) else write_recovered ops pid data rv))"

definition recover_page_patch :: "('s, 'l) PageImageRecovery \<Rightarrow> Lsn \<Rightarrow> PageId \<Rightarrow> (nat \<times> bytes) list \<Rightarrow>
    ('s, 'l) recovery \<Rightarrow> (io_error + ('s, 'l) recovery) option" where
  "recover_page_patch ops lsn pid ranges rv =
     (if lsn \<le> pir_checkpoint_lsn ops
      then Some (Inr (rv\<lparr> rv_report := count_skipped_checkpoint (rv_report rv) \<rparr>))
      else if page_size pid \<noteq> PAGE_SIZE then Some (Inr rv)
      else ok_then
        (if page_end_base_page pid \<ge> rv_next rv then allocate_page ops pid rv else Some (Inr rv)) (\<lambda>rv.
        ok_then (read_and_compare ops lsn pid PAGE_SIZE rv) (\<lambda>(newer, rv).
          if newer then Some (Inr rv)
          else do {
            buf \<leftarrow> apply_ranges ranges (rv_buf rv);
            write_recovered ops pid buf (rv\<lparr> rv_buf := buf \<rparr>) })))"

text \<open>The boolean is the one the code returns: \<open>False\<close> stops the recovery without an error.\<close>

definition recover_logical_payload :: "('s, 'l) PageImageRecovery \<Rightarrow> Lsn \<Rightarrow> u64 \<Rightarrow> bytes \<Rightarrow> ('s, 'l) recovery \<Rightarrow>
    (io_error + bool \<times> ('s, 'l) recovery) option" where
  "recover_logical_payload ops lsn kind payload rv =
     (if kind = LOGICAL_KIND_PAGE_IMAGE_BYTES then
        (case decode_page_image_bytes_payload payload of
           None \<Rightarrow> Some (Inr (False, rv))
         | Some (pid, page_data) \<Rightarrow>
             ok_then (recover_page_image ops lsn pid page_data rv) (\<lambda>rv. Some (Inr (True, rv))))
      else if kind = LOGICAL_KIND_PAGE_PATCH then
        (case decode_page_patch_payload payload of
           None \<Rightarrow> Some (Inr (False, rv))
         | Some (pid, ranges) \<Rightarrow>
             ok_then (recover_page_patch ops lsn pid ranges rv) (\<lambda>rv. Some (Inr (True, rv))))
      else if lsn \<le> pir_checkpoint_lsn ops
      then Some (Inr (True, rv\<lparr> rv_report := count_skipped_checkpoint (rv_report rv) \<rparr>))
      else (case pir_apply_logical ops lsn kind payload (rv_user rv) of
          Inl e \<Rightarrow> Some (Inl e)
        | Inr user \<Rightarrow> Some (Inr (True, rv\<lparr> rv_user := user, rv_report := (rv_report rv)\<lparr>
            rr_logical_records_delivered := rr_logical_records_delivered (rv_report rv) + 1 \<rparr> \<rparr>))))"

section \<open>Recovering several shards\<close>

fun recover_record :: "('s, 'l) PageImageRecovery \<Rightarrow> WalReplayRecord \<Rightarrow> ('s, 'l) recovery \<Rightarrow>
    (io_error + bool \<times> ('s, 'l) recovery) option" where
  "recover_record ops (PageImage lsn pid data) rv =
     ok_then (recover_page_image ops lsn pid data rv) (\<lambda>rv. Some (Inr (True, rv)))"
| "recover_record ops (Logical lsn kind payload) rv = recover_logical_payload ops lsn kind payload rv"

definition note_scanned :: "Lsn \<Rightarrow> ('s, 'l) recovery \<Rightarrow> ('s, 'l) recovery" where
  "note_scanned lsn rv = rv\<lparr> rv_report := (rv_report rv)\<lparr>
     rr_records_scanned := rr_records_scanned (rv_report rv) + 1,
     rr_max_lsn := max (rr_max_lsn (rv_report rv)) lsn \<rparr> \<rparr>"

text \<open>The loop of \<open>recover_merged\<close>; \<open>False\<close> says that it stopped early.\<close>

fun recover_records :: "('s, 'l) PageImageRecovery \<Rightarrow> WalReplayRecord list \<Rightarrow> ('s, 'l) recovery \<Rightarrow>
    (io_error + bool \<times> ('s, 'l) recovery) option" where
  "recover_records ops [] rv = Some (Inr (True, rv))"
| "recover_records ops (r # rs) rv =
     ok_then (recover_record ops r (note_scanned (rec_lsn r) rv)) (\<lambda>(go_on, rv).
       if go_on then recover_records ops rs rv else Some (Inr (False, rv)))"

definition start_recovery :: "('s, 'l) PageImageRecovery \<Rightarrow> 's \<Rightarrow> 'l \<Rightarrow> ('s, 'l) recovery option" where
  "start_recovery ops st user = do {
     n \<leftarrow> pir_next_page_id ops st;
     Some \<lparr> rv_store = st, rv_report = empty_report, rv_next = n, rv_buf = [], rv_user = user \<rparr> }"

text \<open>The store is synced when records were applied and the loop went through.\<close>

definition finish_recovery :: "('s, 'l) PageImageRecovery \<Rightarrow> bool \<times> ('s, 'l) recovery \<Rightarrow>
    (io_error + ('s, 'l) recovery) option" where
  "finish_recovery ops = (\<lambda>(go_on, rv).
     if go_on \<and> rr_records_applied (rv_report rv) > 0
     then ok_then (pir_sync ops (rv_store rv)) (\<lambda>st. Some (Inr (rv\<lparr> rv_store := st \<rparr>)))
     else Some (Inr rv))"

text \<open>The records of all shards, up to the first error.\<close>

fun collect_records :: "crc_fn \<Rightarrow> (bytes \<times> nat) list \<Rightarrow> (io_error + WalReplayRecord list) option" where
  "collect_records crc [] = Some (Inr [])"
| "collect_records crc ((file, file_offset) # shards) = do {
     (records, res) \<leftarrow> replay_records crc file file_offset;
     (case res of
        Inl e \<Rightarrow> Some (Inl e)
      | Inr _ \<Rightarrow> ok_then (collect_records crc shards) (\<lambda>records'. Some (Inr (records @ records')))) }"

definition recover_merged :: "('s, 'l) PageImageRecovery \<Rightarrow> crc_fn \<Rightarrow> (bytes \<times> nat) list \<Rightarrow> 's \<Rightarrow> 'l \<Rightarrow>
    (io_error + ('s, 'l) recovery) option" where
  "recover_merged ops crc shards st user = ok_then (collect_records crc shards) (\<lambda>records. do {
     rv \<leftarrow> start_recovery ops st user;
     ok_then (recover_records ops (sort_key rec_lsn records) rv) (finish_recovery ops) })"

section \<open>Recovering one shard\<close>

text \<open>The records of a packed page are collected before the first of them is applied.\<close>

fun recover_packed :: "('s, 'l) PageImageRecovery \<Rightarrow> (Lsn \<times> u64 \<times> bytes) list \<Rightarrow> ('s, 'l) recovery \<Rightarrow>
    (io_error + bool \<times> ('s, 'l) recovery) option" where
  "recover_packed ops [] rv = Some (Inr (True, rv))"
| "recover_packed ops ((lsn, kind, payload) # records) rv =
     ok_then (recover_logical_payload ops lsn kind payload rv) (\<lambda>(go_on, rv).
       if go_on then recover_packed ops records rv else Some (Inr (False, rv)))"

definition recover_chunk :: "('s, 'l) PageImageRecovery \<Rightarrow> BatchEntry \<Rightarrow> bytes \<Rightarrow> partial_record \<Rightarrow>
    ('s, 'l) recovery \<Rightarrow> (io_error + partial_record option \<times> ('s, 'l) recovery) option" where
  "recover_chunk ops entry payload = (\<lambda>(logical_lsn, logical_kind, logical_payload) rv.
     let first = (be_flags entry AND LOGICAL_FLAG_FIRST = LOGICAL_FLAG_FIRST);
         last = (be_flags entry AND LOGICAL_FLAG_LAST = LOGICAL_FLAG_LAST) in
     if \<not> first \<and> (logical_payload = [] \<or> be_lsn entry \<noteq> logical_lsn \<or> be_arg entry \<noteq> logical_kind)
     then Some (Inr (None, rv))
     else
       let (logical_lsn, logical_kind, logical_payload) =
             (if first then (be_lsn entry, be_arg entry, []) else (logical_lsn, logical_kind, logical_payload));
           logical_payload = logical_payload @ payload in
       if \<not> last then Some (Inr (Some (logical_lsn, logical_kind, logical_payload), rv))
       else ok_then (recover_logical_payload ops logical_lsn logical_kind logical_payload rv) (\<lambda>(go_on, rv).
         Some (Inr (if go_on then Some no_partial else None, rv))))"

definition note_entry :: "BatchEntry \<Rightarrow> ('s, 'l) recovery \<Rightarrow> ('s, 'l) recovery" where
  "note_entry entry rv = rv\<lparr> rv_report := (rv_report rv)\<lparr>
     rr_records_scanned := rr_records_scanned (rv_report rv) + 1,
     rr_max_lsn := (if be_kind entry = RECORD_KIND_PAGE_IMAGE \<or> be_kind entry = RECORD_KIND_LOGICAL_PACKED \<or>
         be_flags entry AND LOGICAL_FLAG_LAST = LOGICAL_FLAG_LAST
       then max (rr_max_lsn (rv_report rv)) (be_lsn entry) else rr_max_lsn (rv_report rv)) \<rparr> \<rparr>"

text \<open>The chunks seen so far, or \<open>None\<close> for an early \<open>return Ok(report)\<close>.\<close>

definition recover_entry :: "('s, 'l) PageImageRecovery \<Rightarrow> crc_fn \<Rightarrow> BatchEntry \<Rightarrow> bytes \<Rightarrow> partial_record \<Rightarrow>
    ('s, 'l) recovery \<Rightarrow> (io_error + partial_record option \<times> ('s, 'l) recovery) option" where
  "recover_entry ops crc entry page partial rv =
     (case validate_entry_data crc entry page of
        None \<Rightarrow> Some (Inr (None, rv))
      | Some payload \<Rightarrow>
          let rv = note_entry entry rv in
          if be_kind entry = RECORD_KIND_PAGE_IMAGE then
            ok_then (recover_page_image ops (be_lsn entry) (be_arg entry) payload rv) (\<lambda>rv.
              Some (Inr (Some (forget_partial partial), rv)))
          else if be_kind entry = RECORD_KIND_LOGICAL then recover_chunk ops entry payload partial rv
          else if be_kind entry = RECORD_KIND_LOGICAL_PACKED then
            (case for_each_packed_logical_record payload of
               (records, ok) \<Rightarrow>
                 if \<not> ok then Some (Inr (None, rv))
                 else ok_then (recover_packed ops records rv) (\<lambda>(go_on, rv).
                   Some (Inr (if go_on then Some (forget_partial partial) else None, rv))))
          else Some (Inr (None, rv)))"

fun recover_entries :: "('s, 'l) PageImageRecovery \<Rightarrow> crc_fn \<Rightarrow> bytes \<Rightarrow> bytes \<Rightarrow> nat \<Rightarrow> nat list \<Rightarrow>
    partial_record \<Rightarrow> ('s, 'l) recovery \<Rightarrow> (io_error + partial_record option \<times> ('s, 'l) recovery) option" where
  "recover_entries ops crc file meta batch_offset [] partial rv = Some (Inr (Some partial, rv))"
| "recover_entries ops crc file meta batch_offset (idx # idxs) partial rv =
     (let offset = batch_offset + WAL_RECORD_SIZE * (idx + 1) in
      case pread_all file WAL_RECORD_SIZE offset of
        Inl e \<Rightarrow> Some (Inl e)
      | Inr page \<Rightarrow> do {
          entry \<leftarrow> read_batch_entry meta idx;
          ok_then (recover_entry ops crc entry page partial rv) (\<lambda>(flow, rv).
            case flow of
              None \<Rightarrow> Some (Inr (None, rv))
            | Some partial \<Rightarrow> recover_entries ops crc file meta batch_offset idxs partial rv) })"

function recover_batches :: "('s, 'l) PageImageRecovery \<Rightarrow> crc_fn \<Rightarrow> bytes \<Rightarrow> nat \<Rightarrow> nat \<Rightarrow>
    partial_record \<Rightarrow> ('s, 'l) recovery \<Rightarrow> (io_error + bool \<times> ('s, 'l) recovery) option" where
  "recover_batches ops crc file end_offset batch_offset partial rv =
     (if batch_offset + WAL_RECORD_SIZE \<le> end_offset then
        (case pread_all file WAL_RECORD_SIZE batch_offset of
           Inl e \<Rightarrow> Some (Inl e)
         | Inr meta \<Rightarrow>
             (case batch_meta_count crc meta of
                None \<Rightarrow> Some (Inr (True, rv))
              | Some count \<Rightarrow>
                  let batch_len = WAL_RECORD_SIZE * (count + 1) in
                  if batch_offset + batch_len > end_offset then Some (Inr (True, rv))
                  else ok_then (recover_entries ops crc file meta batch_offset [0..<count] partial rv)
                    (\<lambda>(flow, rv). case flow of
                       None \<Rightarrow> Some (Inr (False, rv))
                     | Some partial \<Rightarrow>
                         recover_batches ops crc file end_offset (batch_offset + batch_len) partial rv)))
      else Some (Inr (True, rv)))"
  by pat_completeness auto
termination
  by (relation "measure (\<lambda>(ops, crc, file, end_offset, batch_offset, partial, rv). end_offset - batch_offset)")
    (auto simp: WAL_RECORD_SIZE_def PAGE_SIZE_def)

definition recover :: "('s, 'l) PageImageRecovery \<Rightarrow> crc_fn \<Rightarrow> bytes \<Rightarrow> nat \<Rightarrow> 's \<Rightarrow> 'l \<Rightarrow>
    (io_error + ('s, 'l) recovery) option" where
  "recover ops crc file file_offset st user = do {
     rv \<leftarrow> start_recovery ops st user;
     ok_then (recover_batches ops crc file file_offset WAL_HEADER_SIZE no_partial rv) (finish_recovery ops) }"

text \<open>\<open>recover_pages\<close> uses a callback that refuses every record.\<close>

definition refuse_logical :: "Lsn \<Rightarrow> u64 \<Rightarrow> bytes \<Rightarrow> unit \<Rightarrow> io_error + unit" where
  "refuse_logical lsn kind payload user = Inl InvalidData"

section \<open>Stores to recover into\<close>

text \<open>The implementations of \<open>RecoveryPageStore\<close> for the two page stores.\<close>

definition file_recovery :: "Lsn \<Rightarrow> (bytes \<Rightarrow> Lsn) \<Rightarrow> (Lsn \<Rightarrow> u64 \<Rightarrow> bytes \<Rightarrow> 'l \<Rightarrow> io_error + 'l) \<Rightarrow>
    (FilePageStore, 'l) PageImageRecovery" where
  "file_recovery checkpoint_lsn lsn_of apply_logical =
     \<lparr> pir_read_page = file_read_page, pir_write_page = file_write_page, pir_allocate = file_allocate,
       pir_sync = file_sync, pir_next_page_id = file_next_page_id, pir_checkpoint_lsn = checkpoint_lsn,
       pir_read_page_lsn = lsn_of, pir_apply_logical = apply_logical \<rparr>"

definition in_memory_recovery :: "Lsn \<Rightarrow> (bytes \<Rightarrow> Lsn) \<Rightarrow> (Lsn \<Rightarrow> u64 \<Rightarrow> bytes \<Rightarrow> 'l \<Rightarrow> io_error + 'l) \<Rightarrow>
    (InMemoryPageStore, 'l) PageImageRecovery" where
  "in_memory_recovery checkpoint_lsn lsn_of apply_logical =
     \<lparr> pir_read_page = in_memory_read_page, pir_write_page = in_memory_write_page,
       pir_allocate = in_memory_allocate, pir_sync = in_memory_sync,
       pir_next_page_id = in_memory_next_page_id, pir_checkpoint_lsn = checkpoint_lsn,
       pir_read_page_lsn = lsn_of, pir_apply_logical = apply_logical \<rparr>"

section \<open>Recovery applies the records of the log\<close>

text \<open>Two states of a recovery that differ at most in the counters of the report that nothing depends
  on.\<close>

definition alike :: "('s, 'l) recovery \<Rightarrow> ('s, 'l) recovery \<Rightarrow> bool" where
  "alike rv rv' = (rv_store rv = rv_store rv' \<and> rv_next rv = rv_next rv' \<and> rv_buf rv = rv_buf rv' \<and>
     rv_user rv = rv_user rv' \<and> rr_records_applied (rv_report rv) = rr_records_applied (rv_report rv'))"

abbreviation outcomes :: "('a \<Rightarrow> 'b \<Rightarrow> bool) \<Rightarrow> (io_error + 'a) option \<Rightarrow> (io_error + 'b) option \<Rightarrow> bool" where
  "outcomes R \<equiv> rel_option (rel_sum (=) R)"

lemma ok_then_outcomes:
  assumes "outcomes R m m'" "\<And>x y. R x y \<Longrightarrow> outcomes S (k x) (k' y)"
  shows "outcomes S (ok_then m k) (ok_then m' k')"
  using assms by (cases m; cases m') (auto simp: ok_then_def split: sum.splits elim!: rel_sum.cases)

lemma outcomes_option_bind: "(\<And>x. outcomes S (k x) (k' x)) \<Longrightarrow> outcomes S (m \<bind> k) (m \<bind> k')"
  by (cases m) auto

lemma alike_simps [simp]: "alike rv rv" "alike (note_scanned lsn rv) rv' = alike rv rv'" "alike rv (note_scanned lsn rv') = alike rv rv'"
  "alike (note_entry e rv) rv' = alike rv rv'"
  by (simp_all add: alike_def note_scanned_def note_entry_def)

lemma allocate_page_alike: "alike rv rv' \<Longrightarrow> outcomes alike (allocate_page ops pid rv) (allocate_page ops pid rv')"
  unfolding allocate_page_def
  by (rule ok_then_outcomes [where R = "(=)"])
    (auto simp: alike_def option.rel_eq sum.rel_eq intro!: outcomes_option_bind)

lemma read_and_compare_alike:
  "alike rv rv' \<Longrightarrow> outcomes (rel_prod (=) alike) (read_and_compare ops lsn pid n rv) (read_and_compare ops lsn pid n rv')"
  unfolding read_and_compare_def
  by (auto simp: alike_def Let_def intro!: outcomes_option_bind split: sum.splits)

lemma write_recovered_alike:
  "alike rv rv' \<Longrightarrow> outcomes alike (write_recovered ops pid data rv) (write_recovered ops pid data rv')"
  unfolding write_recovered_def
  by (rule ok_then_outcomes [where R = "(=)"]) (auto simp: alike_def option.rel_eq sum.rel_eq)

lemma recover_page_image_alike:
  assumes "alike rv rv'"
  shows "outcomes alike (recover_page_image ops lsn pid data rv) (recover_page_image ops lsn pid data rv')"
proof -
  have "rv_next rv' = rv_next rv" using assms by (simp add: alike_def)
  moreover have "outcomes alike (Some (Inr (rv\<lparr> rv_report := count_skipped_checkpoint (rv_report rv) \<rparr>)))
      (Some (Inr (rv'\<lparr> rv_report := count_skipped_checkpoint (rv_report rv') \<rparr>)))"
    using assms by (simp add: alike_def)
  moreover have "outcomes alike (ok_then (allocate_page ops pid rv) (write_recovered ops pid data))
      (ok_then (allocate_page ops pid rv') (write_recovered ops pid data))"
    by (rule ok_then_outcomes [OF allocate_page_alike [OF assms] write_recovered_alike])
  moreover have "outcomes alike
      (ok_then (read_and_compare ops lsn pid (page_size pid) rv) (\<lambda>(newer, rv). if newer then Some (Inr rv) else write_recovered ops pid data rv))
      (ok_then (read_and_compare ops lsn pid (page_size pid) rv') (\<lambda>(newer, rv). if newer then Some (Inr rv) else write_recovered ops pid data rv))"
    by (rule ok_then_outcomes [OF read_and_compare_alike [OF assms]]) (auto intro: write_recovered_alike)
  ultimately show ?thesis using assms by (simp add: recover_page_image_def)
qed

lemma recover_page_patch_alike:
  assumes "alike rv rv'"
  shows "outcomes alike (recover_page_patch ops lsn pid ranges rv) (recover_page_patch ops lsn pid ranges rv')"
proof -
  have n: "rv_next rv' = rv_next rv" using assms by (simp add: alike_def)
  have sk: "outcomes alike (Some (Inr (rv\<lparr> rv_report := count_skipped_checkpoint (rv_report rv) \<rparr>)))
      (Some (Inr (rv'\<lparr> rv_report := count_skipped_checkpoint (rv_report rv') \<rparr>)))"
    using assms by (simp add: alike_def)
  have ap: "outcomes alike (do { buf \<leftarrow> apply_ranges ranges (rv_buf a); write_recovered ops pid buf (a\<lparr> rv_buf := buf \<rparr>) })
      (do { buf \<leftarrow> apply_ranges ranges (rv_buf b); write_recovered ops pid buf (b\<lparr> rv_buf := buf \<rparr>) })"
    if "alike a b" for a b
  proof -
    have "rv_buf b = rv_buf a" using that by (simp add: alike_def)
    moreover have "alike (a\<lparr> rv_buf := buf \<rparr>) (b\<lparr> rv_buf := buf \<rparr>)" for buf using that by (simp add: alike_def)
    ultimately show ?thesis by (simp add: outcomes_option_bind write_recovered_alike)
  qed
  have al: "outcomes alike (if page_end_base_page pid \<ge> rv_next rv then allocate_page ops pid rv else Some (Inr rv))
      (if page_end_base_page pid \<ge> rv_next rv' then allocate_page ops pid rv' else Some (Inr rv'))"
    unfolding n using assms allocate_page_alike by auto
  have "outcomes alike (ok_then (read_and_compare ops lsn pid PAGE_SIZE a) (\<lambda>(newer, rv). if newer then Some (Inr rv)
        else do { buf \<leftarrow> apply_ranges ranges (rv_buf rv); write_recovered ops pid buf (rv\<lparr> rv_buf := buf \<rparr>) }))
      (ok_then (read_and_compare ops lsn pid PAGE_SIZE b) (\<lambda>(newer, rv). if newer then Some (Inr rv)
        else do { buf \<leftarrow> apply_ranges ranges (rv_buf rv); write_recovered ops pid buf (rv\<lparr> rv_buf := buf \<rparr>) }))"
    if "alike a b" for a b
    by (rule ok_then_outcomes [OF read_and_compare_alike [OF that]]) (use ap in auto)
  from ok_then_outcomes [OF al this] show ?thesis using assms sk by (simp add: recover_page_patch_def)
qed

lemma recover_logical_payload_alike:
  assumes "alike rv rv'"
  shows "outcomes (rel_prod (=) alike) (recover_logical_payload ops lsn kind payload rv)
    (recover_logical_payload ops lsn kind payload rv')"
proof -
  have "outcomes (rel_prod (=) alike) (ok_then (recover_page_image ops lsn pid data rv) (\<lambda>rv. Some (Inr (True, rv))))
      (ok_then (recover_page_image ops lsn pid data rv') (\<lambda>rv. Some (Inr (True, rv))))" for pid data
    by (rule ok_then_outcomes [OF recover_page_image_alike [OF assms]]) simp
  moreover have "outcomes (rel_prod (=) alike) (ok_then (recover_page_patch ops lsn pid ranges rv) (\<lambda>rv. Some (Inr (True, rv))))
      (ok_then (recover_page_patch ops lsn pid ranges rv') (\<lambda>rv. Some (Inr (True, rv))))" for pid ranges
    by (rule ok_then_outcomes [OF recover_page_patch_alike [OF assms]]) simp
  ultimately show ?thesis
    using assms unfolding recover_logical_payload_def
    by (auto simp: alike_def split: option.splits sum.splits)
qed

lemma recover_record_alike:
  assumes "alike rv rv'"
  shows "outcomes (rel_prod (=) alike) (recover_record ops r rv) (recover_record ops r rv')"
proof (cases r)
  case (PageImage lsn pid data)
  show ?thesis
    unfolding PageImage recover_record.simps by (rule ok_then_outcomes [OF recover_page_image_alike [OF assms]]) simp
next
  case (Logical lsn kind payload)
  then show ?thesis using recover_logical_payload_alike [OF assms] by simp
qed

lemma recover_records_alike:
  "alike rv rv' \<Longrightarrow> outcomes (rel_prod (=) alike) (recover_records ops rs rv) (recover_records ops rs rv')"
proof (induction rs arbitrary: rv rv')
  case (Cons r rs)
  have "outcomes (rel_prod (=) alike) (recover_record ops r (note_scanned (rec_lsn r) rv))
      (recover_record ops r (note_scanned (rec_lsn r) rv'))"
    using Cons.prems by (intro recover_record_alike) simp
  then show ?case unfolding recover_records.simps by (rule ok_then_outcomes) (use Cons.IH in auto)
qed simp

lemma recover_records_append:
  "recover_records ops (as @ bs) rv = ok_then (recover_records ops as rv) (\<lambda>(go_on, rv).
     if go_on then recover_records ops bs rv else Some (Inr (False, rv)))"
proof (induction as arbitrary: rv)
  case (Cons a as)
  show ?case
    by (cases "recover_record ops a (note_scanned (rec_lsn a) rv)")
      (auto simp: ok_then_def Cons.IH split: sum.splits)
qed simp

text \<open>How the flow of the loop over a file corresponds to the records it stands for.\<close>

definition follows :: "partial_record \<Rightarrow> partial_record option \<times> ('s, 'l) recovery \<Rightarrow> bool \<times> ('s, 'l) recovery \<Rightarrow> bool" where
  "follows q a b = (fst a = (if fst b then Some q else None) \<and> alike (snd a) (snd b))"

lemma recover_one:
  assumes "outcomes (rel_prod (=) alike) m (recover_record ops r (note_scanned (rec_lsn r) rv))"
    and "\<And>go_on a. k (go_on, a) = Some (Inr (if go_on then Some q else None, a))"
  shows "outcomes (follows q) (ok_then m k) (recover_records ops [r] rv)"
  unfolding recover_records.simps by (rule ok_then_outcomes [OF assms(1)]) (auto simp: assms(2) follows_def)

lemma recover_packed_records:
  "alike rv rv' \<Longrightarrow> outcomes (rel_prod (=) alike) (recover_packed ops records rv)
    (recover_records ops (map (\<lambda>(lsn, kind, payload). Logical lsn kind payload) records) rv')"
proof (induction records arbitrary: rv rv')
  case (Cons r records)
  obtain lsn kind payload where r: "r = (lsn, kind, payload)" by (cases r)
  have "outcomes (rel_prod (=) alike) (recover_logical_payload ops lsn kind payload rv)
      (recover_logical_payload ops lsn kind payload (note_scanned lsn rv'))"
    using Cons.prems by (intro recover_logical_payload_alike) simp
  then show ?case
    unfolding r recover_packed.simps list.map prod.case recover_records.simps recover_record.simps rec_lsn.simps
    by (rule ok_then_outcomes) (use Cons.IH in auto)
qed simp

lemma recover_chunk_records:
  assumes "replay_chunk entry payload p = (recs, Continue q)" "alike rv rv'"
  shows "outcomes (follows q) (recover_chunk ops entry payload p rv) (recover_records ops recs rv')"
proof -
  obtain l k b where p: "p = (l, k, b)" by (cases p)
  let ?first = "be_flags entry AND LOGICAL_FLAG_FIRST = LOGICAL_FLAG_FIRST"
  let ?last = "be_flags entry AND LOGICAL_FLAG_LAST = LOGICAL_FLAG_LAST"
  obtain l' k' b' where p': "(if ?first then (be_lsn entry, be_arg entry, []) else (l, k, b)) = (l', k', b')"
    by (metis prod_cases3)
  have ok: "\<not> (\<not> ?first \<and> (b = [] \<or> be_lsn entry \<noteq> l \<or> be_arg entry \<noteq> k))"
    using assms(1) unfolding p by (auto simp: replay_chunk_def Let_def split: if_splits)
  show ?thesis
  proof (cases ?last)
    case False
    then have "recs = []" "q = (l', k', b' @ payload)"
      using assms(1) ok p' unfolding p by (auto simp: replay_chunk_def Let_def)
    moreover have "recover_chunk ops entry payload p rv = Some (Inr (Some (l', k', b' @ payload), rv))"
      using False ok p' unfolding p by (auto simp: recover_chunk_def Let_def)
    ultimately show ?thesis using assms(2) by (simp add: follows_def)
  next
    case True
    have c: "recover_chunk ops entry payload p rv =
        ok_then (recover_logical_payload ops l' k' (b' @ payload) rv) (\<lambda>(go_on, rv).
          Some (Inr (if go_on then Some no_partial else None, rv)))"
      using True ok p' unfolding p by (auto simp: recover_chunk_def Let_def)
    have r: "(if k' = LOGICAL_KIND_PAGE_IMAGE_BYTES then
         (case decode_page_image_bytes_payload (b' @ payload) of
            None \<Rightarrow> ([], Stop)
          | Some (page_id, page) \<Rightarrow> ([PageImage l' page_id page], Continue no_partial))
       else ([Logical l' k' (b' @ payload)], Continue no_partial)) = (recs, Continue q)"
      using assms(1) True ok p' unfolding p by (auto simp: replay_chunk_def Let_def)
    show ?thesis
    proof (cases "k' = LOGICAL_KIND_PAGE_IMAGE_BYTES")
      case k: True
      then obtain pid page where d: "decode_page_image_bytes_payload (b' @ payload) = Some (pid, page)"
        "recs = [PageImage l' pid page]" "q = no_partial"
        using r by (auto split: option.splits)
      have m: "recover_logical_payload ops l' k' (b' @ payload) rv = recover_record ops (PageImage l' pid page) rv"
        using d(1) k by (simp add: recover_logical_payload_def)
      show ?thesis
        unfolding c d(2,3) m
        by (rule recover_one [OF recover_record_alike]) (use assms(2) in simp_all)
    next
      case False
      then have d: "recs = [Logical l' k' (b' @ payload)]" "q = no_partial" using r by auto
      have m: "recover_logical_payload ops l' k' (b' @ payload) rv = recover_record ops (Logical l' k' (b' @ payload)) rv"
        by simp
      show ?thesis
        unfolding c d m
        by (rule recover_one [OF recover_record_alike]) (use assms(2) in simp_all)
    qed
  qed
qed

lemma recover_entry_records:
  assumes "replay_entry crc entry page p = (recs, Continue q)" "alike rv rv'"
  shows "outcomes (follows q) (recover_entry ops crc entry page p rv) (recover_records ops recs rv')"
proof -
  obtain payload where v: "validate_entry_data crc entry page = Some payload"
    using assms(1) by (auto simp: replay_entry_def split: option.splits)
  have al: "alike (note_entry entry rv) (note_scanned l rv')" "alike (note_entry entry rv) rv'" for l
    using assms(2) by simp_all
  consider "be_kind entry = RECORD_KIND_PAGE_IMAGE"
    | "be_kind entry \<noteq> RECORD_KIND_PAGE_IMAGE" "be_kind entry = RECORD_KIND_LOGICAL"
    | "be_kind entry \<noteq> RECORD_KIND_PAGE_IMAGE" "be_kind entry \<noteq> RECORD_KIND_LOGICAL"
      "be_kind entry = RECORD_KIND_LOGICAL_PACKED"
    using assms(1) v by (auto simp: replay_entry_def split: if_splits)
  then show ?thesis
  proof cases
    case 1
    then have r: "recs = [PageImage (be_lsn entry) (be_arg entry) payload]" "q = forget_partial p"
      using assms(1) v by (auto simp: replay_entry_def)
    have e: "recover_entry ops crc entry page p rv =
        ok_then (recover_record ops (PageImage (be_lsn entry) (be_arg entry) payload) (note_entry entry rv))
          (\<lambda>(go_on, rv). Some (Inr (if go_on then Some (forget_partial p) else None, rv)))"
      using 1 v
      by (cases "recover_page_image ops (be_lsn entry) (be_arg entry) payload (note_entry entry rv)")
        (auto simp: recover_entry_def Let_def ok_then_def split: sum.splits)
    show ?thesis unfolding e r by (rule recover_one [OF recover_record_alike]) (use al in simp_all)
  next
    case 2
    then have "replay_chunk entry payload p = (recs, Continue q)" using assms(1) v by (simp add: replay_entry_def)
    from recover_chunk_records [OF this al(2)] show ?thesis using 2 v by (simp add: recover_entry_def Let_def)
  next
    case 3
    then obtain records where r: "for_each_packed_logical_record payload = (records, True)" "q = forget_partial p"
      "recs = map (\<lambda>(lsn, kind, payload). Logical lsn kind payload) records"
      using assms(1) v by (auto simp: replay_entry_def split: prod.splits if_splits)
    have "recover_records ops recs rv' = ok_then (recover_records ops recs rv') (\<lambda>x. Some (Inr x))"
      by (cases "recover_records ops recs rv'") (auto simp: ok_then_def split: sum.splits)
    moreover have "outcomes (follows q) (ok_then (recover_packed ops records (note_entry entry rv))
        (\<lambda>(go_on, rv). Some (Inr (if go_on then Some (forget_partial p) else None, rv))))
        (ok_then (recover_records ops recs rv') (\<lambda>x. Some (Inr x)))"
      unfolding r(3) by (rule ok_then_outcomes [OF recover_packed_records [OF al(2)]]) (auto simp: follows_def r(2))
    ultimately show ?thesis using 3 v r(1) by (simp add: recover_entry_def Let_def)
  qed
qed

lemma recover_entries_records:
  assumes "length meta = PAGE_SIZE" "\<forall>r \<in> set rs. good_entry r"
    and "\<forall>j < length rs. read_batch_entry meta j = Some (sealed crc (rs ! j))" "i \<le> length rs"
    and "deliver crc (drop i rs) p = (recs, Continue q)" "alike rv rv'"
  shows "outcomes (follows q)
    (recover_entries ops crc (A @ meta @ concat (map snd rs) @ X) meta (length A) [i..<length rs] p rv)
    (recover_records ops recs rv')"
  using assms(4-6)
proof (induction "length rs - i" arbitrary: i p recs rv rv')
  case 0
  then show ?case by (simp add: follows_def)
next
  case (Suc k)
  then have i: "i < length rs" "k = length rs - Suc i" "Suc i \<le> length rs" by simp_all
  have d: "drop i rs = rs ! i # drop (Suc i) rs" using i(1) by (simp add: Cons_nth_drop_Suc)
  obtain recs1 p1 recs2 where r: "replay_entry crc (sealed crc (rs ! i)) (snd (rs ! i)) p = (recs1, Continue p1)"
    "deliver crc (drop (Suc i) rs) p1 = (recs2, Continue q)" "recs = recs1 @ recs2"
    using Suc.prems(2) unfolding d by (auto split: prod.splits flow.splits)
  let ?f = "A @ meta @ concat (map snd rs) @ X"
  have e: "recover_entries ops crc ?f meta (length A) [i..<length rs] p rv =
      ok_then (recover_entry ops crc (sealed crc (rs ! i)) (snd (rs ! i)) p rv) (\<lambda>(flow, rv).
        case flow of None \<Rightarrow> Some (Inr (None, rv))
        | Some p \<Rightarrow> recover_entries ops crc ?f meta (length A) [Suc i..<length rs] p rv)"
    using read_data_page [OF assms(1,2) i(1), of A X] assms(3) i by (simp add: upt_conv_Cons WAL_RECORD_SIZE_def)
  show ?case
    unfolding e r(3) recover_records_append
  proof (rule ok_then_outcomes [OF recover_entry_records [OF r(1) Suc.prems(3)]])
    fix x y :: "_ \<times> ('a, 'b) recovery"
    assume f: "follows p1 x y"
    show "outcomes (follows q) (case x of (flow, rv) \<Rightarrow> case flow of None \<Rightarrow> Some (Inr (None, rv))
        | Some p \<Rightarrow> recover_entries ops crc ?f meta (length A) [Suc i..<length rs] p rv)
      (case y of (go_on, rv) \<Rightarrow> if go_on then recover_records ops recs2 rv else Some (Inr (False, rv)))"
      using f Suc.hyps(1) [OF i(2,3) r(2)] by (cases x; cases y) (auto simp: follows_def)
  qed
qed

declare recover_batches.simps [simp del]

lemma recover_batches_records:
  assumes "batches_sealed crc B rss" "length A + length B = end_offset"
    and "deliver crc (concat rss) p = (recs, Continue q)" "alike rv rv'"
  shows "outcomes (rel_prod (=) alike) (recover_batches ops crc (A @ B @ X) end_offset (length A) p rv)
    (recover_records ops recs rv')"
  using assms
proof (induction rss arbitrary: A B p recs rv rv')
  case Nil
  then have "B = []" "recs = []" by (simp_all add: batches_sealed_simps)
  moreover have "0 < WAL_RECORD_SIZE" by (simp add: WAL_RECORD_SIZE_def PAGE_SIZE_def)
  ultimately show ?case using Nil by (subst recover_batches.simps) auto
next
  case (Cons rs rss)
  obtain B1 B2 where B: "B = B1 @ B2" "batch_sealed crc B1 rs" "batches_sealed crc B2 rss"
    using Cons.prems(1) by (auto simp: batches_sealed_Cons)
  then obtain meta where m: "B1 = meta @ concat (map snd rs)" "length meta = PAGE_SIZE"
    "batch_meta_count crc meta = Some (length rs)"
    "\<forall>i < length rs. read_batch_entry meta i = Some (sealed crc (rs ! i))" "\<forall>r \<in> set rs. good_entry r"
    by (auto simp: batch_sealed_def)
  let ?D = "concat (map snd rs)" and ?F = "A @ B @ X"
  have F: "?F = A @ meta @ ?D @ B2 @ X" "?F = (A @ B1) @ B2 @ X" using B(1) m(1) by simp_all
  have l1: "length B1 = PAGE_SIZE * (length rs + 1)" using batch_sealed_length [OF B(2)] by (simp add: mult.commute)
  have dl: "deliver crc (concat (rs # rss)) p = deliver crc (rs @ concat rss) p" by simp
  obtain recs1 p1 recs2 where r: "deliver crc rs p = (recs1, Continue p1)"
    "deliver crc (concat rss) p1 = (recs2, Continue q)" "recs = recs1 @ recs2"
    using Cons.prems(3) unfolding dl deliver_append by (auto split: prod.splits flow.splits)
  have pr: "pread_all ?F PAGE_SIZE (length A) = Inr meta" unfolding F(1) by (rule pread_mid [OF m(2)])
  have fit: "length A + PAGE_SIZE * (length rs + 1) \<le> end_offset" "length A + PAGE_SIZE \<le> end_offset"
    using Cons.prems(2) B(1) l1 by simp_all
  have e: "recover_batches ops crc ?F end_offset (length A) p rv =
      ok_then (recover_entries ops crc ?F meta (length A) [0..<length rs] p rv) (\<lambda>(flow, rv). case flow of
          None \<Rightarrow> Some (Inr (False, rv))
        | Some p \<Rightarrow> recover_batches ops crc ?F end_offset (length (A @ B1)) p rv)"
    using pr m(3) fit unfolding length_append l1
    by (subst recover_batches.simps) (simp add: WAL_RECORD_SIZE_def Let_def cong: option.case_cong)
  have en: "outcomes (follows p1) (recover_entries ops crc ?F meta (length A) [0..<length rs] p rv)
      (recover_records ops recs1 rv')"
    unfolding F(1) using recover_entries_records [OF m(2,5,4), of 0] r(1) Cons.prems(4) by simp
  show ?case
    unfolding e r(3) recover_records_append
  proof (rule ok_then_outcomes [OF en])
    fix x y :: "_ \<times> ('a, 'b) recovery"
    assume f: "follows p1 x y"
    have "length (A @ B1) + length B2 = end_offset" using Cons.prems(2) B(1) by simp
    from Cons.IH [OF B(3) this r(2)] f
    show "outcomes (rel_prod (=) alike) (case x of (flow, rv) \<Rightarrow> case flow of None \<Rightarrow> Some (Inr (False, rv))
        | Some p \<Rightarrow> recover_batches ops crc ?F end_offset (length (A @ B1)) p rv)
      (case y of (go_on, rv) \<Rightarrow> if go_on then recover_records ops recs2 rv else Some (Inr (False, rv)))"
      unfolding F(2) by (cases x; cases y) (auto simp: follows_def)
  qed
qed

lemma finish_recovery_alike:
  "rel_prod (=) alike x y \<Longrightarrow> outcomes alike (finish_recovery ops x) (finish_recovery ops y)"
proof -
  assume "rel_prod (=) alike x y"
  then obtain go_on a b where xy: "x = (go_on, a)" "y = (go_on, b)" "alike a b" by (cases x; cases y) auto
  have "outcomes alike (ok_then (pir_sync ops (rv_store a)) (\<lambda>st. Some (Inr (a\<lparr> rv_store := st \<rparr>))))
      (ok_then (pir_sync ops (rv_store b)) (\<lambda>st. Some (Inr (b\<lparr> rv_store := st \<rparr>))))"
    by (rule ok_then_outcomes [where R = "(=)"]) (use xy(3) in \<open>auto simp: alike_def option.rel_eq sum.rel_eq\<close>)
  then show ?thesis using xy by (auto simp: finish_recovery_def alike_def)
qed

lemma opened_shape:
  assumes "log_file_ok crc file" "length file + SEGMENT_SIZE \<le> 2 ^ 64"
    and "open_wal_file crc direct_io file = Some (Inr (opened, file'))"
    and "reopen crc direct_io file = Some (Inr records)"
  shows "\<exists>H B fss X q. file' = H @ B @ X \<and> length H = WAL_HEADER_SIZE \<and> batches_sealed crc B fss \<and>
    owf_file_offset opened = length H + length B \<and> deliver crc (concat fss) no_partial = (records, Continue q)"
proof (cases "length file < WAL_HEADER_SIZE")
  case True
  let ?X = "replicate (SEGMENT_SIZE - WAL_HEADER_SIZE) 0"
  have o: "opened = \<lparr> owf_file_offset = WAL_HEADER_SIZE, owf_allocated_size = SEGMENT_SIZE, owf_max_lsn = 0 \<rparr>"
    "file' = build_wal_header direct_io @ [] @ ?X"
    using assms(3) open_new_file [OF True] by auto
  have "replay_records crc file' (WAL_HEADER_SIZE + 0) = Some ([], Inr ())"
    using replay_records_sealed [OF batches_sealed_simps(1) wal_header_valid(1), of crc direct_io ?X] o(2)
    by (simp add: wal_header_valid(1))
  then have "records = []" using assms(3,4) o(1) by (simp add: reopen_def)
  then show ?thesis
    using o batches_sealed_simps(1) wal_header_valid(1)
    by (intro exI [of _ "build_wal_header direct_io"] exI [of _ "[]"] exI [of _ ?X] exI [of _ no_partial]) simp
next
  case False
  then obtain fss rlog q where f: "file_holds crc file fss" "deliver crc (concat fss) no_partial = (rlog, Continue q)"
    using assms(1) by (auto simp: log_file_ok_def)
  obtain t H B where o: "length H = WAL_HEADER_SIZE" "batches_sealed crc B fss"
    "opened = \<lparr> owf_file_offset = WAL_HEADER_SIZE + log_bytes fss, owf_allocated_size = t,
      owf_max_lsn = foldl entry_max 0 (concat fss) \<rparr>"
    "file' = H @ B @ replicate (t - (WAL_HEADER_SIZE + log_bytes fss)) 0"
    using open_file_holds [OF f(1) assms(2), of direct_io] assms(3) by auto
  have "records = rlog" using reopen_file_holds [OF f(1) assms(2), of direct_io] assms(4) f(2) by simp
  moreover have "length B = log_bytes fss" by (rule batches_sealed_length [OF o(2)])
  ultimately show ?thesis
    using o f(2) by (intro exI [of _ H] exI [of _ B] exI [of _ fss]
        exI [of _ "replicate (t - (WAL_HEADER_SIZE + log_bytes fss)) 0"] exI [of _ q]) simp
qed

lemma recover_applies_log_shared:
  assumes "log_file crc pwritev2 file" "length file + SEGMENT_SIZE \<le> 2 ^ 64"
    and "open_wal_file crc direct_io file = Some (Inr (opened, file'))"
    and "reopen crc direct_io file = Some (Inr records)"
  shows "outcomes alike (recover ops crc file' (owf_file_offset opened) st user)
      (do { rv \<leftarrow> start_recovery ops st user; ok_then (recover_records ops records rv) (finish_recovery ops) }) \<and>
    replay_records crc file' (owf_file_offset opened) = Some (records, Inr ())"
proof -
  have "log_file_ok crc file" using log_file_opens [OF assms(1)] assms(2) by blast
  then obtain H B fss X q where o: "file' = H @ B @ X" "length H = WAL_HEADER_SIZE" "batches_sealed crc B fss"
    "owf_file_offset opened = length H + length B" "deliver crc (concat fss) no_partial = (records, Continue q)"
    using opened_shape [OF _ assms(2-4)] by blast
  have "outcomes alike
      (ok_then (recover_batches ops crc file' (owf_file_offset opened) WAL_HEADER_SIZE no_partial rv) (finish_recovery ops))
      (ok_then (recover_records ops records rv) (finish_recovery ops))" for rv
    unfolding o(1,4) o(2) [symmetric]
    by (rule ok_then_outcomes [OF recover_batches_records [OF o(3) HOL.refl o(5) alike_simps(1)] finish_recovery_alike])
  then have m: "outcomes alike (recover ops crc file' (owf_file_offset opened) st user)
      (do { rv \<leftarrow> start_recovery ops st user; ok_then (recover_records ops records rv) (finish_recovery ops) })"
    unfolding recover_def by (rule outcomes_option_bind)
  have "replay_records crc file' (owf_file_offset opened) = Some (records, Inr ())"
    using replay_records_sealed [OF o(3,2), of X] o(1,4,5) by simp
  then show ?thesis using m by blast
qed

text \<open>C5: recovery applies the log. After a log file, new or left by earlier crashes, has been opened,
  \<open>recover\<close> does to the page store and to the callback exactly what applying the replayed records one
  after the other does, also when the store or the callback reports an error, and the same as
  recovering a single shard through \<open>recover_merged\<close> when the records are in the order of their
  numbers. No valid record is lost and none is applied twice.\<close>

theorem recover_applies_log:
  assumes "log_file crc pwritev2 file" "length file + SEGMENT_SIZE \<le> 2 ^ 64"
    and "open_wal_file crc direct_io file = Some (Inr (opened, file'))"
    and "reopen crc direct_io file = Some (Inr records)"
  shows "outcomes alike (recover ops crc file' (owf_file_offset opened) st user)
      (do { rv \<leftarrow> start_recovery ops st user; ok_then (recover_records ops records rv) (finish_recovery ops) }) \<and>
    (sorted (map rec_lsn records) \<longrightarrow>
      outcomes alike (recover ops crc file' (owf_file_offset opened) st user)
        (recover_merged ops crc [(file', owf_file_offset opened)] st user))"
proof -
  note m = recover_applies_log_shared [OF assms, of ops st user]
  then have "recover_merged ops crc [(file', owf_file_offset opened)] st user =
      (do { rv \<leftarrow> start_recovery ops st user; ok_then (recover_records ops records rv) (finish_recovery ops) })"
    if "sorted (map rec_lsn records)"
    using that by (simp add: recover_merged_def sort_key_id_if_sorted)
  then show ?thesis using m by simp
qed

section \<open>What the records do to pages\<close>

text \<open>The page a record changes, and how.\<close>

fun rec_page :: "WalReplayRecord \<Rightarrow> PageId option" where
  "rec_page (PageImage lsn pid data) = Some pid"
| "rec_page (Logical lsn kind payload) =
     (if kind = LOGICAL_KIND_PAGE_PATCH then map_option fst (decode_page_patch_payload payload) else None)"

fun redo :: "WalReplayRecord \<Rightarrow> bytes \<Rightarrow> bytes" where
  "redo (PageImage lsn pid data) page = data"
| "redo (Logical lsn kind payload) page =
     (case decode_page_patch_payload payload of
        None \<Rightarrow> page
      | Some (pid, ranges) \<Rightarrow> (case apply_ranges ranges page of None \<Rightarrow> page | Some page' \<Rightarrow> page'))"

text \<open>Records as the append operations write them.\<close>

fun record_ok :: "WalReplayRecord \<Rightarrow> bool" where
  "record_ok (PageImage lsn pid data) = (valid_pid pid \<and> length data = PAGE_SIZE)"
| "record_ok (Logical lsn kind payload) =
     (kind \<noteq> LOGICAL_KIND_PAGE_IMAGE_BYTES \<and>
      (kind = LOGICAL_KIND_PAGE_PATCH \<longrightarrow>
        (\<exists>pid ranges. decode_page_patch_payload payload = Some (pid, ranges) \<and> valid_pid pid)))"

lemma decode_patch_loop_fits:
  "decode_patch_loop payload offset n = Some (ranges, offset') \<Longrightarrow>
    \<forall>r \<in> set ranges. fst r + length (snd r) \<le> PAGE_SIZE"
proof (induction n arbitrary: offset ranges)
  case (Suc n)
  then show ?case
    by (auto simp: Let_def bind_eq_Some_conv checked_add_def split: if_splits dest!: Suc.IH)
qed auto

lemma apply_ranges_fits:
  "\<forall>r \<in> set ranges. fst r + length (snd r) \<le> length page \<Longrightarrow>
    \<exists>page'. apply_ranges ranges page = Some page' \<and> length page' = length page"
proof (induction ranges arbitrary: page)
  case (Cons r ranges)
  then show ?case using Cons.IH [of "write_at (fst r) (snd r) page"] by (cases r) auto
qed simp

lemma patch_applies:
  assumes "decode_page_patch_payload payload = Some (pid, ranges)" "length page = PAGE_SIZE"
  shows "\<exists>page'. apply_ranges ranges page = Some page' \<and> length page' = PAGE_SIZE"
  using assms decode_patch_loop_fits apply_ranges_fits [of ranges page]
  by (fastforce simp: decode_page_patch_payload_def Let_def bind_eq_Some_conv)

lemma redo_length: "record_ok r \<Longrightarrow> length page = PAGE_SIZE \<Longrightarrow> length (redo r page) = PAGE_SIZE"
proof (cases r)
  case (Logical lsn kind payload)
  assume "length page = PAGE_SIZE"
  then show ?thesis
    using patch_applies [of payload _ _ page] Logical by (fastforce split: option.splits)
qed auto

text \<open>The pages of a store, with zeros for those that do not exist, and one record on them.\<close>

definition contents :: "(PageId \<Rightarrow> bytes option) \<Rightarrow> PageId \<Rightarrow> bytes" where
  "contents m pid = (case m pid of None \<Rightarrow> replicate PAGE_SIZE 0 | Some page \<Rightarrow> page)"

definition redo_step :: "Lsn \<Rightarrow> (bytes \<Rightarrow> Lsn) \<Rightarrow> WalReplayRecord \<Rightarrow> (PageId \<Rightarrow> bytes) \<Rightarrow> PageId \<Rightarrow> bytes" where
  "redo_step checkpoint_lsn lsn_of r c =
     (case rec_page r of
        None \<Rightarrow> c
      | Some pid \<Rightarrow>
          if rec_lsn r \<le> checkpoint_lsn \<or> rec_lsn r \<le> lsn_of (c pid) then c else c(pid := redo r (c pid)))"

text \<open>A callback that reports no error.\<close>

definition accepts_logical :: "(Lsn \<Rightarrow> u64 \<Rightarrow> bytes \<Rightarrow> 'l \<Rightarrow> io_error + 'l) \<Rightarrow> bool" where
  "accepts_logical cb = (\<forall>lsn kind payload user. \<exists>user'. cb lsn kind payload user = Inr user')"

text \<open>A state of the recovery in which the local variables agree with the store.\<close>

context dense_page_store
begin

definition rv_ok :: "('a, 'l) recovery \<Rightarrow> bool" where
  "rv_ok rv = (store_ok (rv_store rv) \<and> next_page_id (rv_store rv) = Some (rv_next rv))"

definition uses_store :: "('a, 'l) PageImageRecovery \<Rightarrow> bool" where
  "uses_store ops = (pir_read_page ops = read_page \<and> pir_write_page ops = write_page \<and> pir_allocate ops = allocate \<and>
     pir_sync ops = sync \<and> pir_next_page_id ops = next_page_id \<and>
     pir_read_page_lsn ops (replicate PAGE_SIZE 0) = 0)"

lemma contents_length: "store_ok s \<Longrightarrow> length (contents (pages s) pid) = PAGE_SIZE"
  using next_law by (fastforce simp: contents_def split: option.splits)

lemma allocate_page_ok:
  assumes "uses_store ops" "rv_ok rv" "valid_pid pid" "rv_next rv \<le> pid"
  shows "\<exists>rv'. allocate_page ops pid rv = Some (Inr rv') \<and> rv_ok rv' \<and> pid < rv_next rv' \<and>
    contents (pages (rv_store rv')) = contents (pages (rv_store rv)) \<and> contents (pages (rv_store rv)) pid = replicate PAGE_SIZE 0"
proof -
  have s: "store_ok (rv_store rv)" "next_page_id (rv_store rv) = Some (rv_next rv)" using assms(2) by (simp_all add: rv_ok_def)
  obtain s' where s': "allocate (rv_store rv) pid = Some (Inr s')" "store_ok s'" "next_page_id s' = Some (pid + 1)"
    "\<forall>p page. pages (rv_store rv) p = Some page \<longrightarrow> pages s' p = Some page"
    "\<forall>p page. pages s' p = Some page \<longrightarrow> pages (rv_store rv) p = Some page \<or> page = replicate PAGE_SIZE 0"
    using allocate_law [OF s(1) assms(3) s(2) assms(4)] by blast
  have "contents (pages s') p = contents (pages (rv_store rv)) p" for p
    using s'(4) [rule_format, of p] s'(5) [rule_format, of p]
    by (cases "pages (rv_store rv) p"; cases "pages s' p") (auto simp: contents_def)
  moreover have "pages (rv_store rv) pid = None" using next_law [OF s(1)] s(2) assms(4) by (cases "pages (rv_store rv) pid") (auto dest: leD)
  moreover have "pid < pid + 1" using valid_pid_next [OF assms(3)] by (simp add: word_less_nat_alt)
  ultimately show ?thesis
    using s' assms(1) by (auto simp: allocate_page_def uses_store_def rv_ok_def contents_def)
qed

lemma read_and_compare_ok:
  assumes "uses_store ops" "rv_ok rv" "valid_pid pid" "pid < rv_next rv"
  shows "\<exists>rv'. read_and_compare ops lsn pid PAGE_SIZE rv =
      Some (Inr (lsn \<le> pir_read_page_lsn ops (contents (pages (rv_store rv)) pid), rv')) \<and> rv_ok rv' \<and>
    rv_store rv' = rv_store rv \<and> rv_next rv' = rv_next rv \<and> rv_buf rv' = contents (pages (rv_store rv)) pid"
proof -
  have s: "store_ok (rv_store rv)" "next_page_id (rv_store rv) = Some (rv_next rv)" using assms(2) by (simp_all add: rv_ok_def)
  obtain page where p: "pages (rv_store rv) pid = Some page" using dense_law [OF s assms(3,4)] by blast
  have "length (resize_buf PAGE_SIZE (rv_buf rv)) = PAGE_SIZE" by (simp add: resize_buf_def)
  then have "read_page (rv_store rv) pid (resize_buf PAGE_SIZE (rv_buf rv)) = Some (Inr True, page)"
    using read_law [OF s(1) assms(3)] p by fastforce
  then show ?thesis
    using assms(1,2) p by (auto simp: read_and_compare_def uses_store_def contents_def rv_ok_def Let_def)
qed

lemma write_recovered_ok:
  assumes "uses_store ops" "rv_ok rv" "valid_pid pid" "pid < rv_next rv" "length data = PAGE_SIZE"
  shows "\<exists>rv'. write_recovered ops pid data rv = Some (Inr rv') \<and> rv_ok rv' \<and>
    contents (pages (rv_store rv')) = (contents (pages (rv_store rv)))(pid := data)"
proof -
  have s: "store_ok (rv_store rv)" "next_page_id (rv_store rv) = Some (rv_next rv)" using assms(2) by (simp_all add: rv_ok_def)
  obtain s' where "write_page (rv_store rv) pid data = Some (Inr s')" "store_ok s'"
    "pages s' = (pages (rv_store rv))(pid \<mapsto> data)" "next_page_id s' = Some (rv_next rv)"
    using write_law [OF s(1) assms(3) s(2) assms(4,5)] by blast
  then show ?thesis
    using assms(1) by (auto simp: write_recovered_def uses_store_def rv_ok_def contents_def fun_eq_iff)
qed

lemma recover_page_image_ok:
  assumes "uses_store ops" "rv_ok rv" "valid_pid pid" "length data = PAGE_SIZE"
  shows "\<exists>rv'. recover_page_image ops lsn pid data rv = Some (Inr rv') \<and> rv_ok rv' \<and>
    contents (pages (rv_store rv')) = redo_step (pir_checkpoint_lsn ops) (pir_read_page_lsn ops) (PageImage lsn pid data)
      (contents (pages (rv_store rv)))"
proof (cases "lsn \<le> pir_checkpoint_lsn ops")
  case True
  then show ?thesis using assms(2) by (auto simp: recover_page_image_def rv_ok_def redo_step_def)
next
  case cp: False
  show ?thesis
  proof (cases "rv_next rv \<le> pid")
    case True
    obtain a where a: "allocate_page ops pid rv = Some (Inr a)" "rv_ok a" "pid < rv_next a"
      "contents (pages (rv_store a)) = contents (pages (rv_store rv))" "contents (pages (rv_store rv)) pid = replicate PAGE_SIZE 0"
      using allocate_page_ok [OF assms(1-3) True] by blast
    obtain b where b: "write_recovered ops pid data a = Some (Inr b)" "rv_ok b"
      "contents (pages (rv_store b)) = (contents (pages (rv_store a)))(pid := data)"
      using write_recovered_ok [OF assms(1) a(2) assms(3) a(3) assms(4)] by blast
    have "\<not> lsn \<le> 0" using cp by (metis word_le_0_iff word_zero_le)
    then show ?thesis
      using cp True a b assms(1,4)
      by (intro exI [of _ b])
        (simp add: recover_page_image_def page_size_def page_end_base_page_def redo_step_def uses_store_def)
  next
    case False
    then have lt: "pid < rv_next rv" by simp
    obtain a where a: "read_and_compare ops lsn pid PAGE_SIZE rv =
        Some (Inr (lsn \<le> pir_read_page_lsn ops (contents (pages (rv_store rv)) pid), a))" "rv_ok a"
      "rv_store a = rv_store rv" "rv_next a = rv_next rv"
      using read_and_compare_ok [OF assms(1-3) lt] by blast
    obtain b where b: "write_recovered ops pid data a = Some (Inr b)" "rv_ok b"
      "contents (pages (rv_store b)) = (contents (pages (rv_store a)))(pid := data)"
      using write_recovered_ok [OF assms(1) a(2) assms(3) _ assms(4)] a(4) lt by auto
    show ?thesis
      using cp False a b assms(4)
      by (intro exI [of _ "if lsn \<le> pir_read_page_lsn ops (contents (pages (rv_store rv)) pid) then a else b"])
        (simp add: recover_page_image_def page_size_def page_end_base_page_def redo_step_def)
  qed
qed

lemma recover_page_patch_ok:
  assumes "uses_store ops" "rv_ok rv" "valid_pid pid" "decode_page_patch_payload payload = Some (pid, ranges)"
  shows "\<exists>rv'. recover_page_patch ops lsn pid ranges rv = Some (Inr rv') \<and> rv_ok rv' \<and>
    contents (pages (rv_store rv')) = redo_step (pir_checkpoint_lsn ops) (pir_read_page_lsn ops)
      (Logical lsn LOGICAL_KIND_PAGE_PATCH payload) (contents (pages (rv_store rv)))"
proof (cases "lsn \<le> pir_checkpoint_lsn ops")
  case True
  then show ?thesis using assms(2,4) by (auto simp: recover_page_patch_def rv_ok_def redo_step_def)
next
  case cp: False
  let ?c = "contents (pages (rv_store rv))"
  obtain a where a: "(if page_end_base_page pid \<ge> rv_next rv then allocate_page ops pid rv else Some (Inr rv)) = Some (Inr a)"
    "rv_ok a" "pid < rv_next a" "contents (pages (rv_store a)) = ?c"
    using allocate_page_ok [OF assms(1-3)] assms(2) by (cases "rv_next rv \<le> pid") (auto simp: page_end_base_page_def)
  obtain b where b: "read_and_compare ops lsn pid PAGE_SIZE a = Some (Inr (lsn \<le> pir_read_page_lsn ops (?c pid), b))"
    "rv_ok b" "rv_store b = rv_store a" "rv_next b = rv_next a" "rv_buf b = ?c pid"
    using read_and_compare_ok [OF assms(1) a(2) assms(3) a(3), of lsn] a(4) by auto
  have "length (?c pid) = PAGE_SIZE" using assms(2) contents_length by (simp add: rv_ok_def)
  then obtain page where p: "apply_ranges ranges (?c pid) = Some page" "length page = PAGE_SIZE"
    using patch_applies [OF assms(4)] by blast
  have "rv_ok (b\<lparr> rv_buf := page \<rparr>)" "pid < rv_next (b\<lparr> rv_buf := page \<rparr>)" using b(2,4) a(3) by (simp_all add: rv_ok_def)
  from write_recovered_ok [OF assms(1) this(1) assms(3) this(2) p(2)]
  obtain d where d: "write_recovered ops pid page (b\<lparr> rv_buf := page \<rparr>) = Some (Inr d)" "rv_ok d"
    "contents (pages (rv_store d)) = ?c(pid := page)"
    using a(4) b(3) by auto
  show ?thesis
    using cp a(1,4) b p(1) d assms(4)
    by (intro exI [of _ "if lsn \<le> pir_read_page_lsn ops (?c pid) then b else d"])
      (simp add: recover_page_patch_def page_size_def redo_step_def)
qed

lemma recover_record_ok:
  assumes "uses_store ops" "rv_ok rv" "record_ok r"
    and "accepts_logical (pir_apply_logical ops)"
  shows "\<exists>rv'. recover_record ops r rv = Some (Inr (True, rv')) \<and> rv_ok rv' \<and>
    contents (pages (rv_store rv')) = redo_step (pir_checkpoint_lsn ops) (pir_read_page_lsn ops) r (contents (pages (rv_store rv)))"
proof (cases r)
  case (PageImage lsn pid data)
  then show ?thesis using recover_page_image_ok [OF assms(1,2), of pid data lsn] assms(3) by auto
next
  case (Logical lsn kind payload)
  show ?thesis
  proof (cases "kind = LOGICAL_KIND_PAGE_PATCH")
    case True
    then obtain pid ranges where d: "decode_page_patch_payload payload = Some (pid, ranges)" "valid_pid pid"
      using assms(3) Logical by auto
    then show ?thesis
      using recover_page_patch_ok [OF assms(1,2) d(2,1), of lsn] True Logical assms(3)
      by (auto simp: recover_logical_payload_def)
  next
    case False
    then show ?thesis
      using assms(2,3) assms(4) [unfolded accepts_logical_def, rule_format, of lsn kind payload "rv_user rv"] Logical
      by (auto simp: recover_logical_payload_def redo_step_def rv_ok_def)
  qed
qed

lemma recover_records_ok:
  assumes "uses_store ops" "rv_ok rv" "\<forall>r \<in> set rs. record_ok r"
    and "accepts_logical (pir_apply_logical ops)"
  shows "\<exists>rv'. recover_records ops rs rv = Some (Inr (True, rv')) \<and> rv_ok rv' \<and>
    contents (pages (rv_store rv')) =
      fold (redo_step (pir_checkpoint_lsn ops) (pir_read_page_lsn ops)) rs (contents (pages (rv_store rv)))"
  using assms(2,3)
proof (induction rs arbitrary: rv)
  case (Cons r rs)
  have "rv_ok (note_scanned (rec_lsn r) rv)" "rv_store (note_scanned (rec_lsn r) rv) = rv_store rv"
    using Cons.prems(1) by (simp_all add: rv_ok_def note_scanned_def)
  then obtain a where a: "recover_record ops r (note_scanned (rec_lsn r) rv) = Some (Inr (True, a))" "rv_ok a"
    "contents (pages (rv_store a)) = redo_step (pir_checkpoint_lsn ops) (pir_read_page_lsn ops) r (contents (pages (rv_store rv)))"
    using recover_record_ok [OF assms(1) _ _ assms(4), of "note_scanned (rec_lsn r) rv" r] Cons.prems(2) by auto
  obtain b where "recover_records ops rs a = Some (Inr (True, b))" "rv_ok b" "contents (pages (rv_store b)) =
      fold (redo_step (pir_checkpoint_lsn ops) (pir_read_page_lsn ops)) rs (contents (pages (rv_store a)))"
    using Cons.IH [OF a(2)] Cons.prems(2) by auto
  then show ?case using a by simp
qed simp

lemma start_recovery_ok:
  assumes "uses_store ops" "store_ok st"
  shows "\<exists>rv. start_recovery ops st user = Some rv \<and> rv_ok rv \<and> rv_store rv = st"
  using next_law [OF assms(2)] assms by (auto simp: start_recovery_def uses_store_def rv_ok_def)

lemma recovery_ok:
  assumes "uses_store ops" "store_ok st" "\<forall>r \<in> set rs. record_ok r"
    and "accepts_logical (pir_apply_logical ops)"
  shows "\<exists>rv. (do { rv \<leftarrow> start_recovery ops st user; ok_then (recover_records ops rs rv) (finish_recovery ops) }) =
      Some (Inr rv) \<and> store_ok (rv_store rv) \<and> contents (pages (rv_store rv)) =
      fold (redo_step (pir_checkpoint_lsn ops) (pir_read_page_lsn ops)) rs (contents (pages st))"
proof -
  obtain b where s: "start_recovery ops st user = Some b" "rv_ok b" "rv_store b = st"
    using start_recovery_ok [OF assms(1,2)] by blast
  obtain a where a: "recover_records ops rs b = Some (Inr (True, a))" "rv_ok a" "contents (pages (rv_store a)) =
      fold (redo_step (pir_checkpoint_lsn ops) (pir_read_page_lsn ops)) rs (contents (pages st))"
    using recover_records_ok [OF assms(1) s(2) assms(3,4)] s(3) by auto
  obtain st' where "sync (rv_store a) = Some (Inr st')" "store_ok st'" "pages st' = pages (rv_store a)"
    using sync_law a(2) by (auto simp: rv_ok_def)
  then show ?thesis
    using s(1) a assms(1) by (auto simp: finish_recovery_def uses_store_def rv_ok_def)
qed

end

section \<open>Recovery brings every page up to date\<close>

text \<open>The effects of the records page by page.\<close>

definition page_records :: "PageId \<Rightarrow> WalReplayRecord list \<Rightarrow> WalReplayRecord list" where
  "page_records pid rs = filter (\<lambda>r. rec_page r = Some pid) rs"

definition page_step :: "Lsn \<Rightarrow> (bytes \<Rightarrow> Lsn) \<Rightarrow> WalReplayRecord \<Rightarrow> bytes \<Rightarrow> bytes" where
  "page_step checkpoint_lsn lsn_of r page =
     (if rec_lsn r \<le> checkpoint_lsn \<or> rec_lsn r \<le> lsn_of page then page else redo r page)"

lemma redo_step_page:
  "redo_step cp lsn_of r c pid = (if rec_page r = Some pid then page_step cp lsn_of r (c pid) else c pid)"
  by (auto simp: redo_step_def page_step_def split: option.splits)

lemma fold_redo_step_page: "fold (redo_step cp lsn_of) rs c pid = fold (page_step cp lsn_of) (page_records pid rs) (c pid)"
  by (induction rs arbitrary: c) (auto simp: page_records_def redo_step_page)

text \<open>A record that carries its own number into the page, as the images and the patches that the
  buffer pool logs do.\<close>

definition stamped :: "WalReplayRecord \<Rightarrow> bool" where
  "stamped r = (rec_page r \<noteq> None \<longrightarrow> (\<forall>page. length page = PAGE_SIZE \<longrightarrow> read_page_lsn (redo r page) = rec_lsn r))"

lemma fold_page_step_skips:
  "\<forall>r \<in> set rs. rec_lsn r \<le> cp \<or> rec_lsn r \<le> lsn_of page \<Longrightarrow> fold (page_step cp lsn_of) rs page = page"
  by (induction rs) (auto simp: page_step_def)

lemma fold_redo_lsn:
  assumes "\<forall>r \<in> set rs. record_ok r \<and> stamped r \<and> rec_page r \<noteq> None" "length page = PAGE_SIZE"
  shows "length (fold redo rs page) = PAGE_SIZE \<and>
    read_page_lsn (fold redo rs page) = (if rs = [] then read_page_lsn page else rec_lsn (List.last rs))"
  using assms
proof (induction rs arbitrary: page)
  case (Cons r rs)
  then have "length (redo r page) = PAGE_SIZE" "read_page_lsn (redo r page) = rec_lsn r"
    using redo_length [of r page] by (auto simp: stamped_def)
  then show ?case using Cons by simp
qed simp

lemma fold_page_step_applies:
  assumes "\<forall>r \<in> set rs. record_ok r \<and> stamped r \<and> rec_page r \<noteq> None \<and> cp < rec_lsn r \<and> read_page_lsn page < rec_lsn r"
    and "sorted_wrt (<) (map rec_lsn rs)" "length page = PAGE_SIZE"
  shows "fold (page_step cp read_page_lsn) rs page = fold redo rs page"
  using assms
proof (induction rs arbitrary: page)
  case (Cons r rs)
  then have "length (redo r page) = PAGE_SIZE" "read_page_lsn (redo r page) = rec_lsn r"
    using redo_length [of r page] by (auto simp: stamped_def)
  moreover have "page_step cp read_page_lsn r page = redo r page" using Cons.prems(1) by (auto simp: page_step_def not_le)
  ultimately show ?case using Cons.prems Cons.IH [of "redo r page"] by simp
qed simp

text \<open>A page that holds the effects of its first \<open>k\<close> records is brought to the effects of all of them.\<close>

lemma versions_complete:
  assumes "\<forall>r \<in> set rs. record_ok r \<and> stamped r \<and> rec_page r \<noteq> None \<and> read_page_lsn base < rec_lsn r"
    and "sorted_wrt (<) (map rec_lsn rs)" "length base = PAGE_SIZE"
    and "\<forall>r \<in> set (drop k rs). cp < rec_lsn r"
  shows "fold (page_step cp read_page_lsn) rs (fold redo (take k rs) base) = fold redo rs base"
proof -
  let ?page = "fold redo (take k rs) base"
  have t: "set (take k rs) \<subseteq> set rs" "set (drop k rs) \<subseteq> set rs" by (rule set_take_subset set_drop_subset)+
  have "sorted_wrt (<) (map rec_lsn (take k rs @ drop k rs))" using assms(2) by simp
  then have s: "sorted_wrt (<) (map rec_lsn (take k rs))" "sorted_wrt (<) (map rec_lsn (drop k rs))"
    "\<forall>x \<in> set (take k rs). \<forall>y \<in> set (drop k rs). rec_lsn x < rec_lsn y"
    unfolding map_append sorted_wrt_append by auto
  have l: "length ?page = PAGE_SIZE \<and>
      read_page_lsn ?page = (if take k rs = [] then read_page_lsn base else rec_lsn (List.last (take k rs)))"
    by (rule fold_redo_lsn [OF _ assms(3)]) (use assms(1) t in auto)
  have "rec_lsn r \<le> read_page_lsn ?page" if "r \<in> set (take k rs)" for r
  proof -
    from that have ne: "take k rs \<noteq> []" by (metis empty_iff empty_set)
    have "sorted_wrt (<) (map rec_lsn (butlast (take k rs) @ [List.last (take k rs)]))" using s(1) ne by simp
    moreover have "r \<in> set (butlast (take k rs) @ [List.last (take k rs)])" using that ne by simp
    ultimately have "rec_lsn r \<le> rec_lsn (List.last (take k rs))"
      unfolding map_append sorted_wrt_append by auto
    then show ?thesis using l ne by simp
  qed
  then have sk: "fold (page_step cp read_page_lsn) (take k rs) ?page = ?page"
    by (intro fold_page_step_skips) blast
  have "read_page_lsn ?page < rec_lsn r" if "r \<in> set (drop k rs)" for r
  proof (cases "take k rs = []")
    case True
    then show ?thesis using l assms(1) t that by auto
  next
    case False
    then show ?thesis using l s(3) that by auto
  qed
  then have "fold (page_step cp read_page_lsn) (drop k rs) ?page = fold redo (drop k rs) ?page"
    by (intro fold_page_step_applies) (use assms(1,4) t s(2) l in auto)
  then have "fold (page_step cp read_page_lsn) (take k rs @ drop k rs) ?page = fold redo (take k rs @ drop k rs) base"
    using sk by (simp only: fold_append o_apply)
  then show ?thesis by simp
qed

text \<open>A page that was brought to the effects of the first \<open>n\<close> records of a recovery is brought to the
  same state as without the interruption.\<close>

lemma page_step_lsn:
  assumes "record_ok r" "stamped r" "rec_page r \<noteq> None" "length page = PAGE_SIZE"
  shows "length (page_step cp read_page_lsn r page) = PAGE_SIZE \<and>
    read_page_lsn page \<le> read_page_lsn (page_step cp read_page_lsn r page) \<and>
    (rec_lsn r \<le> cp \<or> rec_lsn r \<le> read_page_lsn (page_step cp read_page_lsn r page))"
  using assms redo_length [of r page] by (auto simp: page_step_def stamped_def)

lemma fold_page_step_lsn:
  assumes "\<forall>r \<in> set rs. record_ok r \<and> stamped r \<and> rec_page r \<noteq> None" "length page = PAGE_SIZE"
  shows "read_page_lsn page \<le> read_page_lsn (fold (page_step cp read_page_lsn) rs page) \<and>
    (\<forall>r \<in> set rs. rec_lsn r \<le> cp \<or> rec_lsn r \<le> read_page_lsn (fold (page_step cp read_page_lsn) rs page))"
  using assms
proof (induction rs arbitrary: page)
  case (Cons r rs)
  have p: "length (page_step cp read_page_lsn r page) = PAGE_SIZE"
    "read_page_lsn page \<le> read_page_lsn (page_step cp read_page_lsn r page)"
    "rec_lsn r \<le> cp \<or> rec_lsn r \<le> read_page_lsn (page_step cp read_page_lsn r page)"
    using page_step_lsn [of r page cp] Cons.prems by auto
  have q: "read_page_lsn (page_step cp read_page_lsn r page) \<le> read_page_lsn (fold (page_step cp read_page_lsn) (r # rs) page)"
    "\<forall>r' \<in> set rs. rec_lsn r' \<le> cp \<or> rec_lsn r' \<le> read_page_lsn (fold (page_step cp read_page_lsn) (r # rs) page)"
    using Cons.IH [OF _ p(1)] Cons.prems by auto
  then show ?case using p(2,3) order_trans [OF _ q(1)] by auto
qed simp

lemma restart_completes:
  assumes "\<forall>r \<in> set rs. record_ok r \<and> stamped r \<and> rec_page r \<noteq> None" "length page = PAGE_SIZE"
  shows "fold (page_step cp read_page_lsn) (rs @ rs') (fold (page_step cp read_page_lsn) rs page) =
    fold (page_step cp read_page_lsn) (rs @ rs') page"
  using fold_page_step_lsn [OF assms, of cp]
    fold_page_step_skips [of rs cp read_page_lsn "fold (page_step cp read_page_lsn) rs page"] by simp

lemma page_records_ok:
  "\<forall>r \<in> set records. record_ok r \<and> stamped r \<Longrightarrow>
    \<forall>r \<in> set (page_records pid records). record_ok r \<and> stamped r \<and> rec_page r \<noteq> None"
  by (auto simp: page_records_def)

lemma page_records_sorted:
  "sorted_wrt (<) (map rec_lsn records) \<Longrightarrow> sorted_wrt (<) (map rec_lsn (page_records pid records))"
  unfolding page_records_def by (induction records) auto

lemma page_records_take: "\<exists>rs. page_records pid records = page_records pid (take n records) @ rs"
  by (metis append_take_drop_id filter_append page_records_def)

lemma zero_page_lsn: "read_page_lsn (replicate PAGE_SIZE 0) = 0"
  by (simp add: read_page_lsn_def)

lemma file_recovery_uses:
  "fsd.uses_store (file_recovery cp read_page_lsn cb)"
  "pir_checkpoint_lsn (file_recovery cp lsn_of cb) = cp" "pir_read_page_lsn (file_recovery cp lsn_of cb) = lsn_of"
  "pir_apply_logical (file_recovery cp lsn_of cb) = cb"
  by (simp_all add: fsd.uses_store_def file_recovery_def zero_page_lsn)

lemma recover_file_store:
  assumes "log_file crc pwritev2 file" "length file + SEGMENT_SIZE \<le> 2 ^ 64"
    and "open_wal_file crc direct_io file = Some (Inr (opened, file'))"
    and "reopen crc direct_io file = Some (Inr records)"
    and "\<forall>r \<in> set records. record_ok r" "accepts_logical apply_logical"
    and "file_ok st"
  shows "\<exists>rv. recover (file_recovery cp read_page_lsn apply_logical) crc file' (owf_file_offset opened) st user =
      Some (Inr rv) \<and> file_ok (rv_store rv) \<and>
    (\<forall>pid. contents (file_pages (rv_store rv)) pid =
      fold (page_step cp read_page_lsn) (page_records pid records) (contents (file_pages st) pid))"
proof -
  let ?ops = "file_recovery cp read_page_lsn apply_logical"
  obtain rv where rv: "(do { rv \<leftarrow> start_recovery ?ops st user; ok_then (recover_records ?ops records rv) (finish_recovery ?ops) }) =
      Some (Inr rv)" "file_ok (rv_store rv)" "contents (file_pages (rv_store rv)) =
      fold (redo_step cp read_page_lsn) records (contents (file_pages st))"
    using fsd.recovery_ok [of ?ops st records user, OF file_recovery_uses(1) assms(7,5)] assms(6)
    by (auto simp: file_recovery_uses)
  have "outcomes alike (recover ?ops crc file' (owf_file_offset opened) st user) (Some (Inr rv))"
    using recover_applies_log_shared [OF assms(1-4), of ?ops st user] rv(1) by simp
  then obtain rv' where "recover ?ops crc file' (owf_file_offset opened) st user = Some (Inr rv')" "alike rv' rv"
    by (auto elim!: rel_sum.cases simp: option_rel_Some2)
  then show ?thesis using rv(2,3) by (intro exI [of _ rv']) (simp add: alike_def fold_redo_step_page)
qed

lemma recover_prefix:
  assumes "file_ok st" "\<forall>r \<in> set rs. record_ok r" "accepts_logical apply_logical"
    and "(do { rv \<leftarrow> start_recovery (file_recovery cp read_page_lsn apply_logical) st user;
      recover_records (file_recovery cp read_page_lsn apply_logical) rs rv }) = Some (Inr (True, rv))"
  shows "contents (file_pages (rv_store rv)) pid =
    fold (page_step cp read_page_lsn) (page_records pid rs) (contents (file_pages st) pid)"
proof -
  let ?ops = "file_recovery cp read_page_lsn apply_logical"
  obtain a where a: "start_recovery ?ops st user = Some a" "fsd.rv_ok a" "rv_store a = st"
    using fsd.start_recovery_ok [where ops = ?ops and user = user, OF file_recovery_uses(1) assms(1)] by blast
  show ?thesis
    using fsd.recover_records_ok [OF file_recovery_uses(1) a(2) assms(2), of cp apply_logical] assms(3,4) a(1,3)
    by (auto simp: file_recovery_uses fold_redo_step_page)
qed

text \<open>C3: recovery brings every page up to date. Let the store hold, for each page, the effects of
  some prefix of the records of that page, as a crash leaves it when pages reach the disk at any time
  after their records, where the prefix covers the records up to the checkpoint. Let the
  records carry strictly increasing numbers and write them into the pages. Then recovery from a
  log that was opened succeeds, leaves a well-formed store, and every page holds the effects of all
  of its records.\<close>

theorem recovery_redoes_pages:
  assumes "log_file crc pwritev2 file" "length file + SEGMENT_SIZE \<le> 2 ^ 64"
    and "open_wal_file crc direct_io file = Some (Inr (opened, file'))"
    and "reopen crc direct_io file = Some (Inr records)"
    and "\<forall>r \<in> set records. record_ok r \<and> stamped r" "sorted_wrt (<) (map rec_lsn records)"
    and "accepts_logical apply_logical"
    and "\<And>pid. length (base pid) = PAGE_SIZE \<and> (\<forall>r \<in> set (page_records pid records). read_page_lsn (base pid) < rec_lsn r)"
    and "file_ok st" "\<And>pid. contents (file_pages st) pid = fold redo (take (n pid) (page_records pid records)) (base pid)"
    and "\<And>pid. \<forall>r \<in> set (drop (n pid) (page_records pid records)). checkpoint_lsn < rec_lsn r"
  shows "\<exists>rv. recover (file_recovery checkpoint_lsn read_page_lsn apply_logical) crc file' (owf_file_offset opened) st user =
      Some (Inr rv) \<and> file_ok (rv_store rv) \<and>
    (\<forall>pid. contents (file_pages (rv_store rv)) pid = fold redo (page_records pid records) (base pid))"
proof -
  have "\<forall>r \<in> set records. record_ok r" using assms(5) by blast
  from recover_file_store [OF assms(1-4) this assms(7,9), where cp = checkpoint_lsn and user = user]
  obtain rv where rv: "recover (file_recovery checkpoint_lsn read_page_lsn apply_logical) crc file' (owf_file_offset opened) st user =
      Some (Inr rv)" "file_ok (rv_store rv)" "\<forall>pid. contents (file_pages (rv_store rv)) pid =
      fold (page_step checkpoint_lsn read_page_lsn) (page_records pid records) (contents (file_pages st) pid)"
    by blast
  have "contents (file_pages (rv_store rv)) pid = fold redo (page_records pid records) (base pid)" for pid
    unfolding rv(3) [rule_format] assms(10)
    by (rule versions_complete) (use page_records_ok [OF assms(5), of pid] page_records_sorted [OF assms(6)] assms(8,11) in auto)
  then show ?thesis using rv(1,2) by blast
qed

text \<open>C4: recovery can be interrupted and run again. Let a second recovery find, for each page
  separately, the state in which a first one left it after some number of records. It ends with the
  same pages as the first one would have without the interruption; in particular
  running a complete recovery again changes no page.\<close>

theorem recovery_restarts:
  assumes "log_file crc pwritev2 file" "length file + SEGMENT_SIZE \<le> 2 ^ 64"
    and "open_wal_file crc direct_io file = Some (Inr (opened, file'))"
    and "reopen crc direct_io file = Some (Inr records)"
    and "\<forall>r \<in> set records. record_ok r \<and> stamped r"
    and "accepts_logical apply_logical"
    and "ops = file_recovery checkpoint_lsn read_page_lsn apply_logical" "file_ok st" "file_ok st'"
    and "\<And>pid. \<exists>n rv. (do { rv \<leftarrow> start_recovery ops st user; recover_records ops (take n records) rv }) = Some (Inr (True, rv)) \<and>
      contents (file_pages st') pid = contents (file_pages (rv_store rv)) pid"
  shows "\<exists>rv rv'. recover ops crc file' (owf_file_offset opened) st user = Some (Inr rv) \<and>
    recover ops crc file' (owf_file_offset opened) st' user' = Some (Inr rv') \<and>
    contents (file_pages (rv_store rv')) = contents (file_pages (rv_store rv))"
proof -
  have ok: "\<forall>r \<in> set records. record_ok r" using assms(5) by blast
  have same: "fold (page_step checkpoint_lsn read_page_lsn) (page_records pid records) (contents (file_pages st') pid) =
      fold (page_step checkpoint_lsn read_page_lsn) (page_records pid records) (contents (file_pages st) pid)" for pid
  proof -
    obtain n rv where rv: "(do { rv \<leftarrow> start_recovery ops st user; recover_records ops (take n records) rv }) = Some (Inr (True, rv))"
      "contents (file_pages st') pid = contents (file_pages (rv_store rv)) pid" using assms(10) by blast
    obtain rs where rs: "page_records pid records = page_records pid (take n records) @ rs" using page_records_take by blast
    have "contents (file_pages (rv_store rv)) pid =
        fold (page_step checkpoint_lsn read_page_lsn) (page_records pid (take n records)) (contents (file_pages st) pid)"
      using recover_prefix [OF assms(8) _ assms(6), where rs = "take n records" and cp = checkpoint_lsn and user = user and rv = rv and pid = pid] rv(1) ok
      by (simp add: assms(7)) (meson in_set_takeD)
    moreover have "\<forall>r \<in> set (page_records pid (take n records)). record_ok r \<and> stamped r \<and> rec_page r \<noteq> None"
      using assms(5) by (intro page_records_ok) (meson in_set_takeD)
    ultimately show ?thesis
      unfolding rs rv(2) using restart_completes [OF _ fsd.contents_length [OF assms(8), of pid]] by simp
  qed
  obtain rv where r: "recover ops crc file' (owf_file_offset opened) st user = Some (Inr rv)"
    "\<forall>pid. contents (file_pages (rv_store rv)) pid =
      fold (page_step checkpoint_lsn read_page_lsn) (page_records pid records) (contents (file_pages st) pid)"
    using recover_file_store [OF assms(1-4) ok assms(6,8), where cp = checkpoint_lsn and user = user] assms(7) by blast
  obtain rv' where r': "recover ops crc file' (owf_file_offset opened) st' user' = Some (Inr rv')"
    "\<forall>pid. contents (file_pages (rv_store rv')) pid =
      fold (page_step checkpoint_lsn read_page_lsn) (page_records pid records) (contents (file_pages st') pid)"
    using recover_file_store [OF assms(1-4) ok assms(6,9), where cp = checkpoint_lsn and user = user'] assms(7) by blast
  have "contents (file_pages (rv_store rv')) = contents (file_pages (rv_store rv))"
    using r(2) r'(2) same by (intro ext) simp
  then show ?thesis using r(1) r'(1) by blast
qed

text \<open>Several shards.\<close>

lemma collect_records_all:
  "list_all2 (\<lambda>shard rs. replay_records crc (fst shard) (snd shard) = Some (rs, Inr ())) shards rss \<Longrightarrow>
    collect_records crc shards = Some (Inr (concat rss))"
proof (induction shards rss rule: list_all2_induct)
  case (Cons shard shards rs rss)
  then show ?case by (cases shard) simp
qed simp

lemma strictly_sorted_key: "distinct (map f xs) \<Longrightarrow> sorted_wrt (<) (map f (sort_key f xs))"
  for f :: "'a \<Rightarrow> 'b :: linorder"
  by (simp add: strict_sorted_iff distinct_map)

text \<open>C6: recovery of several shards. The records of all shards, in the order of their numbers
  whatever shard they went to, are applied to the pages: from the effects of any prefix of the records
  of a page, recovery reaches the effects of all of them, as for one shard.\<close>

theorem merged_recovery_redoes_pages:
  assumes "list_all2 (\<lambda>shard rs. replay_records crc (fst shard) (snd shard) = Some (rs, Inr ())) shards rss"
    and "records = sort_key rec_lsn (concat rss)" "distinct (map rec_lsn (concat rss))"
    and "\<forall>rs \<in> set rss. \<forall>r \<in> set rs. record_ok r \<and> stamped r" "accepts_logical apply_logical"
    and "\<And>pid. length (base pid) = PAGE_SIZE \<and> (\<forall>r \<in> set (page_records pid records). read_page_lsn (base pid) < rec_lsn r)"
    and "file_ok st" "\<And>pid. contents (file_pages st) pid = fold redo (take (n pid) (page_records pid records)) (base pid)"
    and "\<And>pid. \<forall>r \<in> set (drop (n pid) (page_records pid records)). checkpoint_lsn < rec_lsn r"
  shows "\<exists>rv. recover_merged (file_recovery checkpoint_lsn read_page_lsn apply_logical) crc shards st user = Some (Inr rv) \<and>
    file_ok (rv_store rv) \<and> (\<forall>pid. contents (file_pages (rv_store rv)) pid = fold redo (page_records pid records) (base pid))"
proof -
  let ?ops = "file_recovery checkpoint_lsn read_page_lsn apply_logical"
  have ok: "\<forall>r \<in> set records. record_ok r \<and> stamped r" using assms(2,4) by auto
  obtain rv where rv: "(do { rv \<leftarrow> start_recovery ?ops st user; ok_then (recover_records ?ops records rv) (finish_recovery ?ops) }) =
      Some (Inr rv)" "file_ok (rv_store rv)" "contents (file_pages (rv_store rv)) =
      fold (redo_step checkpoint_lsn read_page_lsn) records (contents (file_pages st))"
    using fsd.recovery_ok [of ?ops st records user, OF file_recovery_uses(1) assms(7)] ok assms(5)
    by (auto simp: file_recovery_uses)
  have "sorted_wrt (<) (map rec_lsn records)" unfolding assms(2) by (rule strictly_sorted_key [OF assms(3)])
  then have "contents (file_pages (rv_store rv)) pid = fold redo (page_records pid records) (base pid)" for pid
    unfolding rv(3) fold_redo_step_page assms(8)
    by (intro versions_complete) (use page_records_ok [OF ok, of pid] page_records_sorted assms(6,9) in auto)
  moreover have "recover_merged ?ops crc shards st user = Some (Inr rv)"
    using rv(1) by (simp add: recover_merged_def collect_records_all [OF assms(1)] assms(2))
  ultimately show ?thesis using rv(2) by blast
qed

section \<open>Witnesses\<close>

text \<open>The log of a run that appended one image, and an empty store.\<close>

definition one_image :: bytes where
  "one_image = write_page_lsn 1 (replicate PAGE_SIZE 5)"

lemma one_image_log:
  "\<exists>file opened file'. log_file crc False file \<and> length file + SEGMENT_SIZE \<le> 2 ^ 64 \<and>
    open_wal_file crc True file = Some (Inr (opened, file')) \<and> reopen crc True file = Some (Inr [PageImage 1 7 one_image])"
proof -
  have "length one_image = PAGE_SIZE" by (simp add: one_image_def)
  from one_image_run [OF this]
  obtain t where t: "log_reachable crc False (new_system crc) t" "length (sys_disk t) + SEGMENT_SIZE \<le> 2 ^ 64"
    "reopen crc True (sys_disk t) = Some (Inr [PageImage 1 7 one_image])" by blast
  have "log_file crc False (sys_disk t)"
    by (rule log_file.crash [where records = 1, OF new_file(1,2,4), folded new_system_def, OF t(1)]) simp
  moreover obtain opened file' where "open_wal_file crc True (sys_disk t) = Some (Inr (opened, file'))"
    using t(3) by (cases "open_wal_file crc True (sys_disk t)") (auto simp: reopen_def split: sum.splits)
  ultimately show ?thesis using t(2,3) by blast
qed

lemma one_image_ok: "record_ok (PageImage 1 7 one_image) \<and> stamped (PageImage 1 7 one_image)"
  by (simp add: one_image_def valid_pid_def stamped_def PAGE_SIZE_def)

lemma empty_file_store:
  "\<exists>st. file_open [] = Inr st \<and> file_ok st \<and> (\<forall>pid. contents (file_pages st) pid = replicate PAGE_SIZE 0)"
proof -
  have "length (pwrite_all (build_header 0 0 0 0 0) 0 []) = PAGE_SIZE" by (simp add: pwrite_all_def write_at_def length_build_header)
  then show ?thesis by (auto simp: file_open_def file_ok_def contents_def file_pages_def)
qed

theorem recover_applies_log_witness:
  "\<exists>file opened file'. reopen (\<lambda>_. 0) True file = Some (Inr [PageImage 1 7 one_image]) \<and>
    open_wal_file (\<lambda>_. 0) True file = Some (Inr (opened, file')) \<and>
    outcomes alike
      (recover (in_memory_recovery 0 read_page_lsn refuse_logical) (\<lambda>_. 0) file' (owf_file_offset opened) in_memory_new ())
      (recover_merged (in_memory_recovery 0 read_page_lsn refuse_logical) (\<lambda>_. 0) [(file', owf_file_offset opened)]
        in_memory_new ())"
proof -
  let ?c = "\<lambda>_. 0 :: u64"
  obtain fl opened fl' where f: "log_file ?c False fl" "length fl + SEGMENT_SIZE \<le> 2 ^ 64"
    "open_wal_file ?c True fl = Some (Inr (opened, fl'))" "reopen ?c True fl = Some (Inr [PageImage 1 7 one_image])"
    using one_image_log [of ?c] by blast
  show ?thesis using f(3,4) recover_applies_log [OF f, of "in_memory_recovery 0 read_page_lsn refuse_logical" in_memory_new "()"]
    by (intro exI [of _ fl] exI [of _ opened] exI [of _ fl']) simp
qed

theorem recovery_redoes_pages_witness:
  "\<exists>file opened file' st rv. open_wal_file (\<lambda>_. 0) True file = Some (Inr (opened, file')) \<and> file_open [] = Inr st \<and>
    recover (file_recovery 0 read_page_lsn (\<lambda>_ _ _ user. Inr user)) (\<lambda>_. 0) file' (owf_file_offset opened) st () = Some (Inr rv) \<and>
    contents (file_pages (rv_store rv)) 7 = one_image \<and> contents (file_pages (rv_store rv)) 3 = replicate PAGE_SIZE 0"
proof -
  let ?c = "\<lambda>_. 0 :: u64" and ?zero = "replicate PAGE_SIZE 0 :: bytes" and ?r = "PageImage 1 7 one_image"
  obtain fl opened fl' where f: "log_file ?c False fl" "length fl + SEGMENT_SIZE \<le> 2 ^ 64"
    "open_wal_file ?c True fl = Some (Inr (opened, fl'))" "reopen ?c True fl = Some (Inr [?r])"
    using one_image_log [of ?c] by blast
  obtain st where st: "file_open [] = Inr st" "file_ok st" "\<And>pid. contents (file_pages st) pid = ?zero"
    using empty_file_store by blast
  have "\<exists>rv. recover (file_recovery 0 read_page_lsn (\<lambda>_ _ _ user. Inr user)) ?c fl' (owf_file_offset opened) st () = Some (Inr rv) \<and>
      file_ok (rv_store rv) \<and> (\<forall>pid. contents (file_pages (rv_store rv)) pid = fold redo (page_records pid [?r]) ?zero)"
    by (rule recovery_redoes_pages [OF f, where n = "\<lambda>_. 0"])
      (use st one_image_ok in \<open>auto simp: accepts_logical_def page_records_def zero_page_lsn\<close>)
  then obtain rv where "recover (file_recovery 0 read_page_lsn (\<lambda>_ _ _ user. Inr user)) ?c fl' (owf_file_offset opened) st () = Some (Inr rv)"
    "\<forall>pid. contents (file_pages (rv_store rv)) pid = fold redo (page_records pid [?r]) ?zero" by blast
  then show ?thesis using f(3) st(1)
    by (intro exI [of _ fl] exI [of _ opened] exI [of _ fl'] exI [of _ st] exI [of _ rv]) (simp add: page_records_def)
qed

theorem recovery_restarts_witness:
  "\<exists>file opened file' st st' rv rv'. open_wal_file (\<lambda>_. 0) True file = Some (Inr (opened, file')) \<and> file_open [] = Inr st \<and>
    contents (file_pages st') 7 = one_image \<and>
    recover (file_recovery 0 read_page_lsn (\<lambda>_ _ _ user. Inr user)) (\<lambda>_. 0) file' (owf_file_offset opened) st () = Some (Inr rv) \<and>
    recover (file_recovery 0 read_page_lsn (\<lambda>_ _ _ user. Inr user)) (\<lambda>_. 0) file' (owf_file_offset opened) st' () = Some (Inr rv') \<and>
    contents (file_pages (rv_store rv')) = contents (file_pages (rv_store rv))"
proof -
  let ?c = "\<lambda>_. 0 :: u64" and ?r = "PageImage 1 7 one_image" and ?cb = "\<lambda>(_ :: Lsn) (_ :: u64) (_ :: bytes) (user :: unit). Inr user"
  let ?ops = "file_recovery 0 read_page_lsn ?cb"
  have cb: "accepts_logical ?cb" by (simp add: accepts_logical_def)
  have ok: "\<forall>r \<in> set [?r]. record_ok r \<and> stamped r" using one_image_ok by simp
  obtain fl opened fl' where f: "log_file ?c False fl" "length fl + SEGMENT_SIZE \<le> 2 ^ 64"
    "open_wal_file ?c True fl = Some (Inr (opened, fl'))" "reopen ?c True fl = Some (Inr [?r])"
    using one_image_log [of ?c] by blast
  obtain st where st: "file_open [] = Inr st" "file_ok st" using empty_file_store by blast
  obtain a where a: "start_recovery ?ops st () = Some a" "fsd.rv_ok a" "rv_store a = st"
    using fsd.start_recovery_ok [where ops = ?ops and user = "()", OF file_recovery_uses(1) st(2)] by blast
  obtain b where b: "recover_records ?ops [?r] a = Some (Inr (True, b))" "fsd.rv_ok b"
    using fsd.recover_records_ok [where ops = ?ops, OF file_recovery_uses(1) a(2), of "[?r]"] one_image_ok cb
    by (auto simp: file_recovery_uses)
  have run: "(do { rv \<leftarrow> start_recovery ?ops st (); recover_records ?ops [?r] rv }) = Some (Inr (True, b))" using a(1) b(1) by simp
  have seven: "contents (file_pages (rv_store b)) 7 = one_image"
    using recover_prefix [where rs = "[?r]" and pid = 7, OF st(2) _ cb run] one_image_ok empty_file_store st(1)
    by (auto simp: page_records_def page_step_def zero_page_lsn)
  have "\<exists>n rv. (do { rv \<leftarrow> start_recovery ?ops st (); recover_records ?ops (take n [?r]) rv }) = Some (Inr (True, rv)) \<and>
      contents (file_pages (rv_store b)) pid = contents (file_pages (rv_store rv)) pid" for pid
    using run by (intro exI [of _ 1] exI [of _ b]) simp
  moreover have "file_ok (rv_store b)" using b(2) by (simp add: fsd.rv_ok_def)
  ultimately have "\<exists>rv rv'. recover ?ops ?c fl' (owf_file_offset opened) st () = Some (Inr rv) \<and>
      recover ?ops ?c fl' (owf_file_offset opened) (rv_store b) () = Some (Inr rv') \<and>
      contents (file_pages (rv_store rv')) = contents (file_pages (rv_store rv))"
    by (intro recovery_restarts [OF f ok cb HOL.refl st(2)])
  then show ?thesis using f(3) st(1) seven by blast
qed

text \<open>Two shards, of which the second is empty.\<close>

theorem merged_recovery_redoes_pages_witness:
  "\<exists>shards st rv. length shards = 2 \<and> file_open [] = Inr st \<and>
    recover_merged (file_recovery 0 read_page_lsn (\<lambda>_ _ _ user. Inr user)) (\<lambda>_. 0) shards st () = Some (Inr rv) \<and>
    contents (file_pages (rv_store rv)) 7 = one_image"
proof -
  let ?c = "\<lambda>_. 0 :: u64" and ?zero = "replicate PAGE_SIZE 0 :: bytes" and ?r = "PageImage 1 7 one_image"
  obtain fl opened fl' where f: "log_file ?c False fl" "length fl + SEGMENT_SIZE \<le> 2 ^ 64"
    "open_wal_file ?c True fl = Some (Inr (opened, fl'))" "reopen ?c True fl = Some (Inr [?r])"
    using one_image_log [of ?c] by blast
  obtain opened2 fl2 where g: "open_wal_file ?c False [] = Some (Inr (opened2, fl2))" using new_file(4) by blast
  have r: "replay_records ?c fl' (owf_file_offset opened) = Some ([?r], Inr ())"
    by (rule recover_applies_log_shared [OF f, THEN conjunct2])
  have e: "replay_records ?c fl2 (owf_file_offset opened2) = Some ([], Inr ())"
    by (rule recover_applies_log_shared [OF new_file(1,2) g new_system_log(1), THEN conjunct2])
  obtain st where st: "file_open [] = Inr st" "file_ok st" "\<And>pid. contents (file_pages st) pid = ?zero"
    using empty_file_store by blast
  let ?shards = "[(fl', owf_file_offset opened), (fl2, owf_file_offset opened2)]"
  have "\<exists>rv. recover_merged (file_recovery 0 read_page_lsn (\<lambda>_ _ _ user. Inr user)) ?c ?shards st () = Some (Inr rv) \<and>
      file_ok (rv_store rv) \<and> (\<forall>pid. contents (file_pages (rv_store rv)) pid = fold redo (page_records pid [?r]) ?zero)"
    by (rule merged_recovery_redoes_pages [where n = "\<lambda>_. 0" and rss = "[[?r], []]"])
      (use r e st one_image_ok in \<open>auto simp: accepts_logical_def page_records_def zero_page_lsn\<close>)
  then obtain rv where "recover_merged (file_recovery 0 read_page_lsn (\<lambda>_ _ _ user. Inr user)) ?c ?shards st () = Some (Inr rv)"
    "\<forall>pid. contents (file_pages (rv_store rv)) pid = fold redo (page_records pid [?r]) ?zero" by blast
  then show ?thesis using st(1)
    by (intro exI [of _ ?shards] exI [of _ st] exI [of _ rv]) (simp add: page_records_def)
qed

end
