(* ===== verification/Spec2Isabelle.thy ===== *)
theory Spec2Isabelle
  imports Frame_Kernel Swip_Kernel Hybrid_Latch Page_Header Slotted_Page_Search Slotted_Page_Redo Wal_Progress Page_Store Wal_Recovery
begin

text \<open>
  Verification of pagebox: header to be extended.
\<close>

end
